theory Spec2Isabelle
  imports Main "HOL-Library.Word"
begin

unbundle bit_operations_syntax

section \<open>Buffers, integers on the wire and errors\<close>

text \<open>
  A Buffer is a list of bytes. The fixed-width fields of a transaction are machine words:
  \<open>version\<close> is written with \<open>writeInt32LE\<close> and read with \<open>readInt32LE\<close>, the input
  index, the sequence and the locktime with the unsigned 32-bit accessors, an amount with
  the 64-bit little-endian writer. Lengths and indices are natural numbers.

  A writer of the source stores at \<open>offset\<close> and advances it; the encoder only ever writes
  front to back into a buffer it sized itself, so a writer is modelled by the bytes it
  appends. A reader of the source reads at \<open>offset\<close> and advances it; it is modelled on the
  bytes that remain and returns the value with the rest.
\<close>

type_synonym byte = "8 word"
type_synonym bytes = "byte list"

datatype error =
    RangeError              \<comment> \<open>a Buffer read past the end, or a number out of the writer's range\<close>
  | TypeError               \<comment> \<open>a property of \<open>undefined\<close> or \<open>null\<close> is read\<close>
  | NotANumber              \<comment> \<open>the 64-bit writer is handed \<open>undefined\<close>\<close>
  | SuperfluousWitnessData  \<comment> \<open>'Transaction has superfluous witness data'\<close>
  | UnexpectedData          \<comment> \<open>'Transaction has unexpected data'\<close>

definition writeUInt8 :: "byte \<Rightarrow> bytes" where
  "writeUInt8 i = [i]"

definition writeUInt16LE :: "16 word \<Rightarrow> bytes" where
  "writeUInt16LE i = [ucast i, ucast (drop_bit 8 i)]"

definition writeUInt32LE :: "32 word \<Rightarrow> bytes" where
  "writeUInt32LE i = [ucast i, ucast (drop_bit 8 i), ucast (drop_bit 16 i), ucast (drop_bit 24 i)]"

text \<open>Two's complement: the signed writer stores the same four bytes.\<close>

definition writeInt32LE :: "32 word \<Rightarrow> bytes" where
  "writeInt32LE i = [ucast i, ucast (drop_bit 8 i), ucast (drop_bit 16 i), ucast (drop_bit 24 i)]"

definition readUInt8 :: "bytes \<Rightarrow> error + byte \<times> bytes" where
  "readUInt8 buffer = (case buffer of b0 # rest \<Rightarrow> Inr (b0, rest) | _ \<Rightarrow> Inl RangeError)"

definition readUInt16LE :: "bytes \<Rightarrow> error + 16 word \<times> bytes" where
  "readUInt16LE buffer =
     (case buffer of
        b0 # b1 # rest \<Rightarrow> Inr (ucast b0 OR push_bit 8 (ucast b1), rest)
      | _ \<Rightarrow> Inl RangeError)"

definition readUInt32LE :: "bytes \<Rightarrow> error + 32 word \<times> bytes" where
  "readUInt32LE buffer =
     (case buffer of
        b0 # b1 # b2 # b3 # rest \<Rightarrow>
          Inr (ucast b0 OR push_bit 8 (ucast b1) OR push_bit 16 (ucast b2)
                 OR push_bit 24 (ucast b3), rest)
      | _ \<Rightarrow> Inl RangeError)"

definition readInt32LE :: "bytes \<Rightarrow> error + 32 word \<times> bytes" where
  "readInt32LE buffer =
     (case buffer of
        b0 # b1 # b2 # b3 # rest \<Rightarrow>
          Inr (ucast b0 OR push_bit 8 (ucast b1) OR push_bit 16 (ucast b2)
                 OR push_bit 24 (ucast b3), rest)
      | _ \<Rightarrow> Inl RangeError)"

subsection \<open>The 64-bit amount codec (bufferutils)\<close>

text \<open>
  Modelled from the spec: \<open>bufferutils.writeUInt64LE\<close> and \<open>bufferutils.readUInt64LE\<close>
  are not among the sources; the spec gives them as a 64-bit little-endian amount writer and
  reader.
\<close>

definition writeUInt64LE :: "64 word \<Rightarrow> bytes" where
  "writeUInt64LE i =
     [ucast i, ucast (drop_bit 8 i), ucast (drop_bit 16 i), ucast (drop_bit 24 i),
      ucast (drop_bit 32 i), ucast (drop_bit 40 i), ucast (drop_bit 48 i), ucast (drop_bit 56 i)]"

definition readUInt64LE :: "bytes \<Rightarrow> error + 64 word \<times> bytes" where
  "readUInt64LE buffer =
     (case buffer of
        b0 # b1 # b2 # b3 # b4 # b5 # b6 # b7 # rest \<Rightarrow>
          Inr (ucast b0 OR push_bit 8 (ucast b1) OR push_bit 16 (ucast b2)
                 OR push_bit 24 (ucast b3) OR push_bit 32 (ucast b4) OR push_bit 40 (ucast b5)
                 OR push_bit 48 (ucast b6) OR push_bit 56 (ucast b7), rest)
      | _ \<Rightarrow> Inl RangeError)"

subsection \<open>The compact-size codec (varuint-bitcoin)\<close>

text \<open>
  Modelled from the spec: the package \<open>varuint-bitcoin\<close> is not among the sources; the
  spec's table gives the encoding: one byte below \<open>0xFD\<close>, \<open>0xFD\<close> and a u16 up to
  \<open>0xFFFF\<close>, \<open>0xFE\<close> and a u32 up to \<open>0xFFFFFFFF\<close>, \<open>0xFF\<close> and a u64 above. The decoder
  reads whatever form the first byte announces.
\<close>

definition encodingLength :: "nat \<Rightarrow> nat" where
  "encodingLength n =
     (if n < 0xfd then 1 else if n \<le> 0xffff then 3 else if n \<le> 0xffffffff then 5 else 9)"

definition varuint_encode :: "nat \<Rightarrow> bytes" where
  "varuint_encode n =
     (if n < 0xfd then writeUInt8 (of_nat n)
      else if n \<le> 0xffff then writeUInt8 0xfd @ writeUInt16LE (of_nat n)
      else if n \<le> 0xffffffff then writeUInt8 0xfe @ writeUInt32LE (of_nat n)
      else writeUInt8 0xff @ writeUInt64LE (of_nat n))"

definition varuint_decode :: "bytes \<Rightarrow> error + nat \<times> bytes" where
  "varuint_decode buffer =
     (case readUInt8 buffer of
        Inl e \<Rightarrow> Inl e
      | Inr (first, rest) \<Rightarrow>
          if first < 0xfd then Inr (unat first, rest)
          else if first = 0xfd then
            (case readUInt16LE rest of Inl e \<Rightarrow> Inl e | Inr (v, rest') \<Rightarrow> Inr (unat v, rest'))
          else if first = 0xfe then
            (case readUInt32LE rest of Inl e \<Rightarrow> Inl e | Inr (v, rest') \<Rightarrow> Inr (unat v, rest'))
          else
            (case readUInt64LE rest of Inl e \<Rightarrow> Inl e | Inr (v, rest') \<Rightarrow> Inr (unat v, rest')))"

section \<open>The data model\<close>

text \<open>
  An input is the object \<open>{hash, index, script, sequence, witness}\<close>. An output is
  \<open>{script, value}\<close>; the one output that carries \<open>valueBuffer\<close> and no \<open>value\<close> is
  \<open>BLANK_OUTPUT\<close>. A field that an object does not have (JavaScript's \<open>undefined\<close>) is
  \<open>None\<close>.
\<close>

record txin =
  in_hash :: bytes
  in_index :: "32 word"
  in_script :: bytes
  in_sequence :: "32 word"
  in_witness :: "bytes list"

record txout =
  out_script :: bytes
  out_value :: "64 word option"
  out_valueBuffer :: "bytes option"

record transaction =
  version :: "32 word"
  locktime :: "32 word"
  ins :: "txin list"
  outs :: "txout list"

definition EMPTY_SCRIPT :: bytes where
  "EMPTY_SCRIPT = []"

definition EMPTY_WITNESS :: "bytes list" where
  "EMPTY_WITNESS = []"

definition ZERO :: bytes where
  "ZERO = replicate 32 0x00"

text \<open>The hex string of \<open>ONE\<close> is 62 zero digits and then \<open>01\<close>.\<close>

definition ONE :: bytes where
  "ONE = replicate 31 0x00 @ [0x01]"

definition VALUE_UINT64_MAX :: bytes where
  "VALUE_UINT64_MAX = replicate 8 0xff"

definition BLANK_OUTPUT :: txout where
  "BLANK_OUTPUT =
     \<lparr>out_script = EMPTY_SCRIPT, out_value = None, out_valueBuffer = Some VALUE_UINT64_MAX\<rparr>"

definition DEFAULT_SEQUENCE :: "32 word" where
  "DEFAULT_SEQUENCE = 0xffffffff"

definition SIGHASH_ALL :: "32 word" where
  "SIGHASH_ALL = 0x01"

definition SIGHASH_NONE :: "32 word" where
  "SIGHASH_NONE = 0x02"

definition SIGHASH_SINGLE :: "32 word" where
  "SIGHASH_SINGLE = 0x03"

definition SIGHASH_ANYONECANPAY :: "32 word" where
  "SIGHASH_ANYONECANPAY = 0x80"

definition ADVANCED_TRANSACTION_MARKER :: byte where
  "ADVANCED_TRANSACTION_MARKER = 0x00"

definition ADVANCED_TRANSACTION_FLAG :: byte where
  "ADVANCED_TRANSACTION_FLAG = 0x01"

text \<open>The constructor: \<open>new Transaction()\<close>.\<close>

definition new_Transaction :: transaction where
  "new_Transaction = \<lparr>version = 1, locktime = 0, ins = [], outs = []\<rparr>"

section \<open>Size accounting\<close>

definition varSliceSize :: "bytes \<Rightarrow> nat" where
  "varSliceSize someScript = (let len = length someScript in encodingLength len + len)"

definition vectorSize :: "bytes list \<Rightarrow> nat" where
  "vectorSize someVector =
     (let len = length someVector
      in encodingLength len + foldl (\<lambda>sum witness. sum + varSliceSize witness) 0 someVector)"

definition hasWitnesses :: "transaction \<Rightarrow> bool" where
  "hasWitnesses tx = list_ex (\<lambda>x. length (in_witness x) \<noteq> 0) (ins tx)"

text \<open>\<open>__byteLength (__allowWitness)\<close>.\<close>

definition internal_byteLength :: "transaction \<Rightarrow> bool \<Rightarrow> nat" where
  "internal_byteLength tx allowWitness =
     (let hasWit = allowWitness \<and> hasWitnesses tx
      in (if hasWit then 10 else 8) +
         encodingLength (length (ins tx)) +
         encodingLength (length (outs tx)) +
         foldl (\<lambda>sum input. sum + 40 + varSliceSize (in_script input)) 0 (ins tx) +
         foldl (\<lambda>sum output. sum + 8 + varSliceSize (out_script output)) 0 (outs tx) +
         (if hasWit
          then foldl (\<lambda>sum input. sum + vectorSize (in_witness input)) 0 (ins tx)
          else 0))"

definition weight :: "transaction \<Rightarrow> nat" where
  "weight tx =
     (let base = internal_byteLength tx False; total = internal_byteLength tx True
      in base * 3 + total)"

text \<open>\<open>Math.ceil (weight / 4)\<close> on a non-negative integer.\<close>

definition virtualSize :: "transaction \<Rightarrow> nat" where
  "virtualSize tx = (weight tx + 3) div 4"

definition byteLength :: "transaction \<Rightarrow> nat" where
  "byteLength tx = internal_byteLength tx True"

section \<open>The encoder\<close>

definition writeSlice :: "bytes \<Rightarrow> bytes" where
  "writeSlice aSlice = aSlice"

definition writeVarInt :: "nat \<Rightarrow> bytes" where
  "writeVarInt i = varuint_encode i"

definition writeVarSlice :: "bytes \<Rightarrow> bytes" where
  "writeVarSlice aSlice = writeVarInt (length aSlice) @ writeSlice aSlice"

definition writeVector :: "bytes list \<Rightarrow> bytes" where
  "writeVector vector = writeVarInt (length vector) @ concat (map writeVarSlice vector)"

definition writeTxIn :: "txin \<Rightarrow> bytes" where
  "writeTxIn txIn =
     writeSlice (in_hash txIn) @ writeUInt32LE (in_index txIn) @
     writeVarSlice (in_script txIn) @ writeUInt32LE (in_sequence txIn)"

text \<open>
  An output with no \<open>valueBuffer\<close> has its \<open>value\<close> written by the 64-bit writer, which
  throws on \<open>undefined\<close>.
\<close>

definition writeTxOut :: "txout \<Rightarrow> error + bytes" where
  "writeTxOut txOut =
     (case out_valueBuffer txOut of
        None \<Rightarrow>
          (case out_value txOut of
             None \<Rightarrow> Inl NotANumber
           | Some v \<Rightarrow> Inr (writeUInt64LE v @ writeVarSlice (out_script txOut)))
      | Some valueBuffer \<Rightarrow> Inr (writeSlice valueBuffer @ writeVarSlice (out_script txOut)))"

fun writeTxOuts :: "txout list \<Rightarrow> error + bytes" where
  "writeTxOuts [] = Inr []"
| "writeTxOuts (txOut # rest) =
     (case writeTxOut txOut of
        Inl e \<Rightarrow> Inl e
      | Inr b \<Rightarrow> (case writeTxOuts rest of Inl e \<Rightarrow> Inl e | Inr bs \<Rightarrow> Inr (b @ bs)))"

text \<open>
  \<open>__toBuffer (buffer, initialOffset, __allowWitness)\<close> on a buffer of its own
  (\<open>Buffer.allocUnsafe (this.__byteLength (__allowWitness))\<close>) or on the caller's at offset 0:
  the bytes written, in the order the source writes them. The writers stop at the first
  output whose amount cannot be written.
\<close>

definition internal_toBuffer :: "transaction \<Rightarrow> bool \<Rightarrow> error + bytes" where
  "internal_toBuffer tx allowWitness =
     (let hasWit = allowWitness \<and> hasWitnesses tx
      in case writeTxOuts (outs tx) of
           Inl e \<Rightarrow> Inl e
         | Inr txOuts \<Rightarrow>
             Inr (writeInt32LE (version tx) @
                  (if hasWit
                   then writeUInt8 ADVANCED_TRANSACTION_MARKER @ writeUInt8 ADVANCED_TRANSACTION_FLAG
                   else []) @
                  writeVarInt (length (ins tx)) @
                  concat (map writeTxIn (ins tx)) @
                  writeVarInt (length (outs tx)) @
                  txOuts @
                  (if hasWit
                   then concat (map (\<lambda>input. writeVector (in_witness input)) (ins tx))
                   else []) @
                  writeUInt32LE (locktime tx)))"

definition toBuffer :: "transaction \<Rightarrow> error + bytes" where
  "toBuffer tx = internal_toBuffer tx True"

text \<open>
  The transactions the constructors and the decoder build: every \<open>hash\<close> has 32 bytes
  (\<open>types.Hash256bit\<close>, \<open>readSlice (32)\<close>), a \<open>valueBuffer\<close> has 8 bytes, and an output
  carries a \<open>value\<close> or a \<open>valueBuffer\<close>.
\<close>

definition wf_txout :: "txout \<Rightarrow> bool" where
  "wf_txout txOut =
     (case out_valueBuffer txOut of
        None \<Rightarrow> out_value txOut \<noteq> None
      | Some valueBuffer \<Rightarrow> length valueBuffer = 8)"

definition wf_tx :: "transaction \<Rightarrow> bool" where
  "wf_tx tx = (list_all (\<lambda>txIn. length (in_hash txIn) = 32) (ins tx) \<and> list_all wf_txout (outs tx))"

section \<open>The legacy signature hash\<close>

text \<open>
  The script collaborator (\<open>bscript.decompile\<close>, \<open>bscript.compile\<close>) and the double
  SHA-256 (\<open>bcrypto.hash256\<close>) are taken as parameters: \<open>decompile\<close> yields the chunks of
  a script, each an opcode number or a pushed Buffer, or \<open>null\<close> (here \<open>None\<close>) for a script
  it cannot cut into chunks, such as \<open>02 01\<close> whose push announces two bytes and has one;
  \<open>compile\<close> serialises chunks, \<open>hash256\<close> maps bytes to a digest. \<open>OP_CODESEPARATOR\<close> is
  the opcode \<open>0xAB\<close> of \<open>bitcoin-ops\<close>.
\<close>

datatype chunk = Opcode nat | PushData bytes

definition OP_CODESEPARATOR :: nat where
  "OP_CODESEPARATOR = 0xab"

text \<open>
  \<open>bscript.compile (bscript.decompile (prevOutScript).filter ((x) => x !== OP_CODESEPARATOR))\<close>:
  the call of \<open>filter\<close> on \<open>null\<close> throws a \<open>TypeError\<close>.
\<close>

definition ourScript ::
  "(bytes \<Rightarrow> chunk list option) \<Rightarrow> (chunk list \<Rightarrow> bytes) \<Rightarrow> bytes \<Rightarrow> error + bytes" where
  "ourScript decompile compile prevOutScript =
     (case decompile prevOutScript of
        None \<Rightarrow> Inl TypeError
      | Some chunks \<Rightarrow> Inr (compile (filter (\<lambda>x. x \<noteq> Opcode OP_CODESEPARATOR) chunks)))"

text \<open>
  \<open>clone\<close> builds new input and output objects from the named fields: a cloned output has
  \<open>script\<close> and \<open>value\<close> and no \<open>valueBuffer\<close>.
\<close>

definition clone :: "transaction \<Rightarrow> transaction" where
  "clone tx =
     \<lparr>version = version tx,
      locktime = locktime tx,
      ins = map (\<lambda>txIn. \<lparr>in_hash = in_hash txIn, in_index = in_index txIn,
                           in_script = in_script txIn, in_sequence = in_sequence txIn,
                           in_witness = in_witness txIn\<rparr>) (ins tx),
      outs = map (\<lambda>txOut. \<lparr>out_script = out_script txOut, out_value = out_value txOut,
                             out_valueBuffer = None\<rparr>) (outs tx)\<rparr>"

text \<open>
  \<open>txTmp.ins.forEach ((input, i) => { if (i === inIndex) return; input.sequence = 0 })\<close>.
\<close>

definition ignoreSequences :: "nat \<Rightarrow> txin list \<Rightarrow> txin list" where
  "ignoreSequences inIndex inputs =
     map (\<lambda>(i, input). if i = inIndex then input else input\<lparr>in_sequence := 0\<rparr>)
       (enumerate 0 inputs)"

text \<open>
  The temporary transaction that \<open>hashForSignature\<close> serialises: \<open>Inr (Some txTmp)\<close>; or
  \<open>Inr None\<close> where it returns \<open>ONE\<close> instead of building one; or \<open>Inl\<close> the exception
  raised on the way. The steps are in the source's order: the first guard; the recompiled
  script, which throws on a script that does not decompile; the clone; the output rule (with
  the second guard under \<open>SIGHASH_SINGLE\<close>, where \<open>txTmp.outs.length = inIndex + 1\<close>
  truncates since \<open>inIndex\<close> is below the length); the input rule.
\<close>

definition hashForSignature_txTmp ::
  "(bytes \<Rightarrow> chunk list option) \<Rightarrow> (chunk list \<Rightarrow> bytes) \<Rightarrow> transaction \<Rightarrow> nat \<Rightarrow> bytes
     \<Rightarrow> 32 word \<Rightarrow> error + transaction option" where
  "hashForSignature_txTmp decompile compile tx inIndex prevOutScript hashType =
     (if inIndex \<ge> length (ins tx) then Inr None
      else
        case ourScript decompile compile prevOutScript of
          Inl e \<Rightarrow> Inl e
        | Inr script \<Rightarrow>
            let txTmp = clone tx;
                afterOutputs =
                  (if hashType AND 0x1f = SIGHASH_NONE then
                     Some (txTmp\<lparr>outs := [], ins := ignoreSequences inIndex (ins txTmp)\<rparr>)
                   else if hashType AND 0x1f = SIGHASH_SINGLE then
                     (if inIndex \<ge> length (outs tx) then None
                      else
                        Some (txTmp\<lparr>outs := foldl (\<lambda>os i. os[i := BLANK_OUTPUT])
                                              (take (inIndex + 1) (outs txTmp)) [0..<inIndex],
                                    ins := ignoreSequences inIndex (ins txTmp)\<rparr>))
                   else Some txTmp)
            in case afterOutputs of
                 None \<Rightarrow> Inr None
               | Some txTmp \<Rightarrow>
                   if hashType AND SIGHASH_ANYONECANPAY \<noteq> 0 then
                     Inr (Some (txTmp\<lparr>ins := [(ins txTmp ! inIndex)\<lparr>in_script := script\<rparr>]\<rparr>))
                   else
                     let blanked = map (\<lambda>input. input\<lparr>in_script := EMPTY_SCRIPT\<rparr>) (ins txTmp)
                     in Inr (Some (txTmp\<lparr>ins :=
                          blanked[inIndex := (blanked ! inIndex)\<lparr>in_script := script\<rparr>]\<rparr>)))"

text \<open>
  \<open>hashForSignature (inIndex, prevOutScript, hashType)\<close>: \<open>ONE\<close> on the two guards, else the
  digest of the temporary's serialisation without witnesses followed by \<open>hashType\<close> as a
  32-bit little-endian integer. The buffer has \<open>txTmp.__byteLength (false) + 4\<close> bytes; the
  serialisation fills the first \<open>txTmp.__byteLength (false)\<close> of them when the hashes have 32
  bytes. The arguments are the ones that the \<open>typeforce\<close> call at the head of the function
  lets through: an input index, a Buffer and a number for the hash type, which is a number of
  32 bits without sign as in the spec. The source writes the hash type with
  \<open>buffer.writeInt32LE\<close>, the signed writer, before it serialises the temporary, and that
  writer throws a \<open>RangeError\<close> on a number from \<open>2^31\<close> (\<open>0x80000000\<close>) on.
\<close>

definition hashForSignature ::
  "(bytes \<Rightarrow> bytes) \<Rightarrow> (bytes \<Rightarrow> chunk list option) \<Rightarrow> (chunk list \<Rightarrow> bytes) \<Rightarrow> transaction
     \<Rightarrow> nat \<Rightarrow> bytes \<Rightarrow> 32 word \<Rightarrow> error + bytes" where
  "hashForSignature hash256 decompile compile tx inIndex prevOutScript hashType =
     (case hashForSignature_txTmp decompile compile tx inIndex prevOutScript hashType of
        Inl e \<Rightarrow> Inl e
      | Inr None \<Rightarrow> Inr ONE
      | Inr (Some txTmp) \<Rightarrow>
          if 0x80000000 \<le> hashType then Inl RangeError
          else
            (case internal_toBuffer txTmp False of
               Inl e \<Rightarrow> Inl e
             | Inr buffer \<Rightarrow> Inr (hash256 (buffer @ writeInt32LE hashType))))"

section \<open>The witness-v0 signature hash\<close>

text \<open>
  The three sub-digests of \<open>hashForWitnessV0\<close> start as \<open>ZERO\<close>; each is replaced by the
  digest of a buffer under the source's condition. The output writer of this function
  writes \<open>out.value\<close> and never looks at \<open>valueBuffer\<close>.
\<close>

definition hashPrevouts :: "(bytes \<Rightarrow> bytes) \<Rightarrow> transaction \<Rightarrow> 32 word \<Rightarrow> bytes" where
  "hashPrevouts hash256 tx hashType =
     (if \<not> (hashType AND SIGHASH_ANYONECANPAY \<noteq> 0) then
        hash256 (concat (map (\<lambda>txIn. writeSlice (in_hash txIn) @ writeUInt32LE (in_index txIn))
                         (ins tx)))
      else ZERO)"

definition hashSequence :: "(bytes \<Rightarrow> bytes) \<Rightarrow> transaction \<Rightarrow> 32 word \<Rightarrow> bytes" where
  "hashSequence hash256 tx hashType =
     (if \<not> (hashType AND SIGHASH_ANYONECANPAY \<noteq> 0) \<and>
         hashType AND 0x1f \<noteq> SIGHASH_SINGLE \<and>
         hashType AND 0x1f \<noteq> SIGHASH_NONE then
        hash256 (concat (map (\<lambda>txIn. writeUInt32LE (in_sequence txIn)) (ins tx)))
      else ZERO)"

definition writeOutValueScript :: "txout \<Rightarrow> error + bytes" where
  "writeOutValueScript out =
     (case out_value out of
        None \<Rightarrow> Inl NotANumber
      | Some v \<Rightarrow> Inr (writeUInt64LE v @ writeVarSlice (out_script out)))"

fun writeOutsValueScript :: "txout list \<Rightarrow> error + bytes" where
  "writeOutsValueScript [] = Inr []"
| "writeOutsValueScript (out # rest) =
     (case writeOutValueScript out of
        Inl e \<Rightarrow> Inl e
      | Inr b \<Rightarrow> (case writeOutsValueScript rest of Inl e \<Rightarrow> Inl e | Inr bs \<Rightarrow> Inr (b @ bs)))"

definition hashOutputs ::
  "(bytes \<Rightarrow> bytes) \<Rightarrow> transaction \<Rightarrow> nat \<Rightarrow> 32 word \<Rightarrow> error + bytes" where
  "hashOutputs hash256 tx inIndex hashType =
     (if hashType AND 0x1f \<noteq> SIGHASH_SINGLE \<and> hashType AND 0x1f \<noteq> SIGHASH_NONE then
        (case writeOutsValueScript (outs tx) of
           Inl e \<Rightarrow> Inl e
         | Inr tbuffer \<Rightarrow> Inr (hash256 tbuffer))
      else if hashType AND 0x1f = SIGHASH_SINGLE \<and> inIndex < length (outs tx) then
        (case writeOutValueScript (outs tx ! inIndex) of
           Inl e \<Rightarrow> Inl e
         | Inr tbuffer \<Rightarrow> Inr (hash256 tbuffer))
      else Inr ZERO)"

text \<open>
  \<open>hashForWitnessV0 (inIndex, prevOutScript, value, hashType)\<close>. After the sub-digests the
  source takes \<open>this.ins[inIndex]\<close>, writes the version with the unsigned 32-bit writer
  (which refuses a negative number) and the two digests, and then reads \<open>input.hash\<close>: on an
  index with no input that read is of \<open>undefined\<close>.
\<close>

definition hashForWitnessV0 ::
  "(bytes \<Rightarrow> bytes) \<Rightarrow> transaction \<Rightarrow> nat \<Rightarrow> bytes \<Rightarrow> 64 word \<Rightarrow> 32 word \<Rightarrow> error + bytes" where
  "hashForWitnessV0 hash256 tx inIndex prevOutScript amount hashType =
     (let hashPrevouts' = hashPrevouts hash256 tx hashType;
          hashSequence' = hashSequence hash256 tx hashType
      in case hashOutputs hash256 tx inIndex hashType of
           Inl e \<Rightarrow> Inl e
         | Inr hashOutputs' \<Rightarrow>
             if sint (version tx) < 0 then Inl RangeError
             else if \<not> inIndex < length (ins tx) then Inl TypeError
             else
               let input = ins tx ! inIndex
               in Inr (hash256
                    (writeUInt32LE (version tx) @
                     writeSlice hashPrevouts' @
                     writeSlice hashSequence' @
                     writeSlice (in_hash input) @
                     writeUInt32LE (in_index input) @
                     writeVarSlice prevOutScript @
                     writeUInt64LE amount @
                     writeUInt32LE (in_sequence input) @
                     writeSlice hashOutputs' @
                     writeUInt32LE (locktime tx) @
                     writeUInt32LE hashType)))"

section \<open>The decoder\<close>

text \<open>
  The readers of \<open>Transaction.fromBuffer\<close>. A fixed-width read past the end of the buffer
  throws. \<open>readSlice\<close> of the source advances the offset and returns a slice that
  \<open>Buffer.slice\<close> cuts short at the end of the buffer without throwing; every slice the
  decoder takes is followed by a fixed-width read (at the latest the locktime), which then
  throws since the offset is past the end. The outcome is the same exception, so the model
  fails at the slice.
\<close>

definition readSlice :: "nat \<Rightarrow> bytes \<Rightarrow> error + bytes \<times> bytes" where
  "readSlice n buffer =
     (if n \<le> length buffer then Inr (take n buffer, drop n buffer) else Inl RangeError)"

definition readVarInt :: "bytes \<Rightarrow> error + nat \<times> bytes" where
  "readVarInt buffer = varuint_decode buffer"

definition readVarSlice :: "bytes \<Rightarrow> error + bytes \<times> bytes" where
  "readVarSlice buffer =
     (case readVarInt buffer of Inl e \<Rightarrow> Inl e | Inr (n, rest) \<Rightarrow> readSlice n rest)"

text \<open>\<open>for (let i = 0; i < count; i++) vector.push (readVarSlice ())\<close>.\<close>

fun readVarSlices :: "nat \<Rightarrow> bytes \<Rightarrow> error + bytes list \<times> bytes" where
  "readVarSlices 0 buffer = Inr ([], buffer)"
| "readVarSlices (Suc count) buffer =
     (case readVarSlice buffer of
        Inl e \<Rightarrow> Inl e
      | Inr (s, rest) \<Rightarrow>
          (case readVarSlices count rest of
             Inl e \<Rightarrow> Inl e
           | Inr (vector, rest') \<Rightarrow> Inr (s # vector, rest')))"

definition readVector :: "bytes \<Rightarrow> error + bytes list \<times> bytes" where
  "readVector buffer =
     (case readVarInt buffer of Inl e \<Rightarrow> Inl e | Inr (count, rest) \<Rightarrow> readVarSlices count rest)"

text \<open>One pass of the input loop: hash, index, script, sequence, and the empty witness.\<close>

definition readTxIn :: "bytes \<Rightarrow> error + txin \<times> bytes" where
  "readTxIn buffer =
     (case readSlice 32 buffer of
        Inl e \<Rightarrow> Inl e
      | Inr (h, r1) \<Rightarrow>
          (case readUInt32LE r1 of
             Inl e \<Rightarrow> Inl e
           | Inr (i, r2) \<Rightarrow>
               (case readVarSlice r2 of
                  Inl e \<Rightarrow> Inl e
                | Inr (s, r3) \<Rightarrow>
                    (case readUInt32LE r3 of
                       Inl e \<Rightarrow> Inl e
                     | Inr (q, r4) \<Rightarrow>
                         Inr (\<lparr>in_hash = h, in_index = i, in_script = s, in_sequence = q,
                               in_witness = EMPTY_WITNESS\<rparr>, r4)))))"

fun readTxIns :: "nat \<Rightarrow> bytes \<Rightarrow> error + txin list \<times> bytes" where
  "readTxIns 0 buffer = Inr ([], buffer)"
| "readTxIns (Suc vinLen) buffer =
     (case readTxIn buffer of
        Inl e \<Rightarrow> Inl e
      | Inr (txIn, rest) \<Rightarrow>
          (case readTxIns vinLen rest of
             Inl e \<Rightarrow> Inl e
           | Inr (txIns, rest') \<Rightarrow> Inr (txIn # txIns, rest')))"

text \<open>One pass of the output loop: the amount, then the script.\<close>

definition readTxOut :: "bytes \<Rightarrow> error + txout \<times> bytes" where
  "readTxOut buffer =
     (case readUInt64LE buffer of
        Inl e \<Rightarrow> Inl e
      | Inr (v, r1) \<Rightarrow>
          (case readVarSlice r1 of
             Inl e \<Rightarrow> Inl e
           | Inr (s, r2) \<Rightarrow>
               Inr (\<lparr>out_script = s, out_value = Some v, out_valueBuffer = None\<rparr>, r2)))"

fun readTxOuts :: "nat \<Rightarrow> bytes \<Rightarrow> error + txout list \<times> bytes" where
  "readTxOuts 0 buffer = Inr ([], buffer)"
| "readTxOuts (Suc voutLen) buffer =
     (case readTxOut buffer of
        Inl e \<Rightarrow> Inl e
      | Inr (txOut, rest) \<Rightarrow>
          (case readTxOuts voutLen rest of
             Inl e \<Rightarrow> Inl e
           | Inr (txOuts, rest') \<Rightarrow> Inr (txOut # txOuts, rest')))"

text \<open>\<open>for (let i = 0; i < vinLen; ++i) tx.ins[i].witness = readVector ()\<close>.\<close>

fun readWitnesses :: "txin list \<Rightarrow> bytes \<Rightarrow> error + txin list \<times> bytes" where
  "readWitnesses [] buffer = Inr ([], buffer)"
| "readWitnesses (txIn # txIns) buffer =
     (case readVector buffer of
        Inl e \<Rightarrow> Inl e
      | Inr (witness, rest) \<Rightarrow>
          (case readWitnesses txIns rest of
             Inl e \<Rightarrow> Inl e
           | Inr (txIns', rest') \<Rightarrow> Inr (txIn\<lparr>in_witness := witness\<rparr> # txIns', rest')))"

text \<open>
  \<open>Transaction.fromBuffer (buffer, __noStrict)\<close>: the version, the peek at the two bytes
  after it, the inputs, the outputs, the witnesses when the marker and flag were seen (and
  the check that some witness is not empty), the locktime, and in strict mode the check that
  the buffer is used up.
\<close>

definition fromBuffer :: "bytes \<Rightarrow> bool \<Rightarrow> error + transaction" where
  "fromBuffer buffer noStrict =
     (case readInt32LE buffer of
        Inl e \<Rightarrow> Inl e
      | Inr (ver, r1) \<Rightarrow>
          (case r1 of
             marker # flag # r2 \<Rightarrow>
               let hasWit = (marker = ADVANCED_TRANSACTION_MARKER \<and> flag = ADVANCED_TRANSACTION_FLAG);
                   r3 = (if hasWit then r2 else r1)
               in (case readVarInt r3 of
                     Inl e \<Rightarrow> Inl e
                   | Inr (vinLen, r4) \<Rightarrow>
                       (case readTxIns vinLen r4 of
                          Inl e \<Rightarrow> Inl e
                        | Inr (txIns, r5) \<Rightarrow>
                            (case readVarInt r5 of
                               Inl e \<Rightarrow> Inl e
                             | Inr (voutLen, r6) \<Rightarrow>
                                 (case readTxOuts voutLen r6 of
                                    Inl e \<Rightarrow> Inl e
                                  | Inr (txOuts, r7) \<Rightarrow>
                                      (case (if hasWit then
                                               (case readWitnesses txIns r7 of
                                                  Inl e \<Rightarrow> Inl e
                                                | Inr (txIns', r8) \<Rightarrow>
                                                    if \<not> list_ex (\<lambda>x. length (in_witness x) \<noteq> 0) txIns'
                                                    then Inl SuperfluousWitnessData
                                                    else Inr (txIns', r8))
                                             else Inr (txIns, r7)) of
                                         Inl e \<Rightarrow> Inl e
                                       | Inr (txIns'', r9) \<Rightarrow>
                                           (case readUInt32LE r9 of
                                              Inl e \<Rightarrow> Inl e
                                            | Inr (lock, r10) \<Rightarrow>
                                                let tx = \<lparr>version = ver, locktime = lock,
                                                          ins = txIns'', outs = txOuts\<rparr>
                                                in if noStrict then Inr tx
                                                   else if r10 \<noteq> [] then Inl UnexpectedData
                                                   else Inr tx))))))
           | _ \<Rightarrow> Inl RangeError))"

section \<open>Transactions on the wire\<close>

text \<open>
  What the decoder can give back: 32-byte hashes, an amount and no placeholder on every
  output, and every count and length within the 64 bits of the widest compact-size form.
\<close>

definition wire_txin :: "txin \<Rightarrow> bool" where
  "wire_txin txIn =
     (length (in_hash txIn) = 32 \<and> length (in_script txIn) < 2 ^ 64 \<and>
      length (in_witness txIn) < 2 ^ 64 \<and> list_all (\<lambda>s. length s < 2 ^ 64) (in_witness txIn))"

definition wire_txout :: "txout \<Rightarrow> bool" where
  "wire_txout txOut =
     (out_valueBuffer txOut = None \<and> out_value txOut \<noteq> None \<and> length (out_script txOut) < 2 ^ 64)"

definition wire_tx :: "transaction \<Rightarrow> bool" where
  "wire_tx tx =
     (list_all wire_txin (ins tx) \<and> list_all wire_txout (outs tx) \<and>
      length (ins tx) < 2 ^ 64 \<and> length (outs tx) < 2 ^ 64)"

text \<open>A transaction with no inputs and one output.\<close>

definition example_noinput_tx :: transaction where
  "example_noinput_tx =
     \<lparr>version = 1, locktime = 0, ins = [],
      outs = [\<lparr>out_script = [], out_value = Some 0, out_valueBuffer = None\<rparr>]\<rparr>"

section \<open>The transaction as objects on a heap\<close>

text \<open>
  For what a call leaves behind, the objects are put on a heap: a \<open>Transaction\<close> object
  holds its version and locktime and references to the arrays \<open>ins\<close> and \<open>outs\<close>; an array
  holds references to input or output objects; an input object holds its hash, index,
  script and sequence and a reference to its witness array. A reference is an index into
  the heap, an allocation appends, and an assignment to a property overwrites the object at
  the reference. Buffers are values: the hashers write into no Buffer but the ones they
  allocate. Reading a property of something that is not the expected object is a
  \<open>TypeError\<close>.

  \<open>clone_heap\<close> follows \<open>clone\<close> statement by statement: the constructor's three
  allocations, the assignments of \<open>version\<close> and \<open>locktime\<close>, the two \<open>map\<close> calls that
  allocate a new object per element (the new input keeps the reference to the witness array
  of the old one), and the assignments of the new arrays.
  \<open>hashForSignature_heap\<close> follows \<open>hashForSignature\<close> in the same way, with
  \<open>blank\<close> the reference of the global \<open>BLANK_OUTPUT\<close>: the first guard, the recompiled
  script (which throws on a script that does not decompile), the clone, the two rules; the
  serialisation at its end reads the temporary transaction off the heap, refuses a hash type
  from \<open>2^31\<close> on as the signed writer does, and serialises. \<open>hashForWitnessV0_heap\<close> reads the
  transaction off the heap and assigns to nothing.
\<close>

type_synonym ref = nat

datatype obj =
    TxObj "32 word" "32 word" ref ref
  | ArrayObj "ref list"
  | InObj bytes "32 word" bytes "32 word" ref
  | OutObj txout
  | WitnessObj "bytes list"

type_synonym heap = "obj list"

type_synonym 'a prog = "heap \<Rightarrow> (error + 'a) \<times> heap"

definition hret :: "'a \<Rightarrow> 'a prog" where
  "hret x h = (Inr x, h)"

definition hfail :: "error \<Rightarrow> 'a prog" where
  "hfail e h = (Inl e, h)"

definition hbind :: "'a prog \<Rightarrow> ('a \<Rightarrow> 'b prog) \<Rightarrow> 'b prog" where
  "hbind m f h = (case m h of (Inl e, h') \<Rightarrow> (Inl e, h') | (Inr x, h') \<Rightarrow> f x h')"

definition halloc :: "obj \<Rightarrow> ref prog" where
  "halloc x h = (Inr (length h), h @ [x])"

definition hload :: "ref \<Rightarrow> obj prog" where
  "hload r h = (if r < length h then (Inr (h ! r), h) else (Inl TypeError, h))"

definition hstore :: "ref \<Rightarrow> obj \<Rightarrow> unit prog" where
  "hstore r x h = (if r < length h then (Inr (), h[r := x]) else (Inl TypeError, h))"

definition getTx :: "ref \<Rightarrow> (32 word \<times> 32 word \<times> ref \<times> ref) prog" where
  "getTx r = hbind (hload r) (\<lambda>x. case x of TxObj v l i a \<Rightarrow> hret (v, l, i, a) | _ \<Rightarrow> hfail TypeError)"

definition getArray :: "ref \<Rightarrow> ref list prog" where
  "getArray r = hbind (hload r) (\<lambda>x. case x of ArrayObj rs \<Rightarrow> hret rs | _ \<Rightarrow> hfail TypeError)"

definition getIn :: "ref \<Rightarrow> (bytes \<times> 32 word \<times> bytes \<times> 32 word \<times> ref) prog" where
  "getIn r = hbind (hload r) (\<lambda>x. case x of InObj h i s q w \<Rightarrow> hret (h, i, s, q, w) | _ \<Rightarrow> hfail TypeError)"

definition getOut :: "ref \<Rightarrow> txout prog" where
  "getOut r = hbind (hload r) (\<lambda>x. case x of OutObj out \<Rightarrow> hret out | _ \<Rightarrow> hfail TypeError)"

definition setVersion :: "ref \<Rightarrow> 32 word \<Rightarrow> unit prog" where
  "setVersion t v = hbind (getTx t) (\<lambda>(_, l, i, a). hstore t (TxObj v l i a))"

definition setLocktime :: "ref \<Rightarrow> 32 word \<Rightarrow> unit prog" where
  "setLocktime t l = hbind (getTx t) (\<lambda>(v, _, i, a). hstore t (TxObj v l i a))"

definition setIns :: "ref \<Rightarrow> ref \<Rightarrow> unit prog" where
  "setIns t i = hbind (getTx t) (\<lambda>(v, l, _, a). hstore t (TxObj v l i a))"

definition setOuts :: "ref \<Rightarrow> ref \<Rightarrow> unit prog" where
  "setOuts t a = hbind (getTx t) (\<lambda>(v, l, i, _). hstore t (TxObj v l i a))"

definition setSequence :: "ref \<Rightarrow> 32 word \<Rightarrow> unit prog" where
  "setSequence r q = hbind (getIn r) (\<lambda>(h, i, s, _, w). hstore r (InObj h i s q w))"

definition setScript :: "ref \<Rightarrow> bytes \<Rightarrow> unit prog" where
  "setScript r s = hbind (getIn r) (\<lambda>(h, i, _, q, w). hstore r (InObj h i s q w))"

definition setElements :: "ref \<Rightarrow> ref list \<Rightarrow> unit prog" where
  "setElements a rs = hbind (getArray a) (\<lambda>_. hstore a (ArrayObj rs))"

fun mapM :: "(ref \<Rightarrow> ref prog) \<Rightarrow> ref list \<Rightarrow> ref list prog" where
  "mapM f [] = hret []"
| "mapM f (r # rs) = hbind (f r) (\<lambda>y. hbind (mapM f rs) (\<lambda>ys. hret (y # ys)))"

fun forEach :: "(ref \<Rightarrow> nat \<Rightarrow> unit prog) \<Rightarrow> nat \<Rightarrow> ref list \<Rightarrow> unit prog" where
  "forEach f i [] = hret ()"
| "forEach f i (r # rs) = hbind (f r i) (\<lambda>_. forEach f (Suc i) rs)"

definition new_Transaction_heap :: "ref prog" where
  "new_Transaction_heap =
     hbind (halloc (ArrayObj [])) (\<lambda>i.
     hbind (halloc (ArrayObj [])) (\<lambda>a.
     halloc (TxObj 1 0 i a)))"

definition clone_heap :: "ref \<Rightarrow> ref prog" where
  "clone_heap this =
     hbind new_Transaction_heap (\<lambda>newTx.
     hbind (getTx this) (\<lambda>(v, _, _, _).
     hbind (setVersion newTx v) (\<lambda>_.
     hbind (getTx this) (\<lambda>(_, l, _, _).
     hbind (setLocktime newTx l) (\<lambda>_.
     hbind (getTx this) (\<lambda>(_, _, thisIns, _).
     hbind (getArray thisIns) (\<lambda>txIns.
     hbind (mapM (\<lambda>txIn. hbind (getIn txIn) (\<lambda>(h, i, s, q, w). halloc (InObj h i s q w))) txIns) (\<lambda>newIns.
     hbind (halloc (ArrayObj newIns)) (\<lambda>insArray.
     hbind (setIns newTx insArray) (\<lambda>_.
     hbind (getTx this) (\<lambda>(_, _, _, thisOuts).
     hbind (getArray thisOuts) (\<lambda>txOuts.
     hbind (mapM (\<lambda>txOut. hbind (getOut txOut) (\<lambda>out.
              halloc (OutObj \<lparr>out_script = out_script out, out_value = out_value out,
                               out_valueBuffer = None\<rparr>))) txOuts) (\<lambda>newOuts.
     hbind (halloc (ArrayObj newOuts)) (\<lambda>outsArray.
     hbind (setOuts newTx outsArray) (\<lambda>_.
     hret newTx)))))))))))))))"

definition ignoreSequences_heap :: "ref \<Rightarrow> nat \<Rightarrow> unit prog" where
  "ignoreSequences_heap txTmp inIndex =
     hbind (getTx txTmp) (\<lambda>(_, _, tmpIns, _).
     hbind (getArray tmpIns) (\<lambda>inputs.
     forEach (\<lambda>input i. if i = inIndex then hret () else setSequence input 0) 0 inputs))"

fun forRange :: "(nat \<Rightarrow> unit prog) \<Rightarrow> nat list \<Rightarrow> unit prog" where
  "forRange f [] = hret ()"
| "forRange f (i # is) = hbind (f i) (\<lambda>_. forRange f is)"

definition blankOutputs_heap :: "ref \<Rightarrow> ref \<Rightarrow> nat \<Rightarrow> unit prog" where
  "blankOutputs_heap blank txTmp inIndex =
     forRange (\<lambda>i.
        hbind (getTx txTmp) (\<lambda>(_, _, _, tmpOuts).
        hbind (getArray tmpOuts) (\<lambda>elems.
        setElements tmpOuts (elems[i := blank])))) [0..<inIndex]"

definition outputRule_heap :: "ref \<Rightarrow> ref \<Rightarrow> ref \<Rightarrow> nat \<Rightarrow> 32 word \<Rightarrow> bool prog" where
  "outputRule_heap blank this txTmp inIndex hashType =
     (if hashType AND 0x1f = SIGHASH_NONE then
        hbind (halloc (ArrayObj [])) (\<lambda>empty.
        hbind (setOuts txTmp empty) (\<lambda>_.
        hbind (ignoreSequences_heap txTmp inIndex) (\<lambda>_.
        hret True)))
      else if hashType AND 0x1f = SIGHASH_SINGLE then
        hbind (getTx this) (\<lambda>(_, _, _, thisOuts).
        hbind (getArray thisOuts) (\<lambda>txOuts.
        if inIndex \<ge> length txOuts then hret False
        else
          hbind (getTx txTmp) (\<lambda>(_, _, _, tmpOuts).
          hbind (getArray tmpOuts) (\<lambda>elems.
          hbind (setElements tmpOuts (take (inIndex + 1) elems)) (\<lambda>_.
          hbind (blankOutputs_heap blank txTmp inIndex) (\<lambda>_.
          hbind (ignoreSequences_heap txTmp inIndex) (\<lambda>_.
          hret True)))))))
      else hret True)"

definition inputRule_heap :: "ref \<Rightarrow> nat \<Rightarrow> bytes \<Rightarrow> 32 word \<Rightarrow> unit prog" where
  "inputRule_heap txTmp inIndex script hashType =
     (if hashType AND SIGHASH_ANYONECANPAY \<noteq> 0 then
        hbind (getTx txTmp) (\<lambda>(_, _, tmpIns, _).
        hbind (getArray tmpIns) (\<lambda>inputs.
        if inIndex < length inputs then
          hbind (halloc (ArrayObj [inputs ! inIndex])) (\<lambda>single.
          hbind (setIns txTmp single) (\<lambda>_.
          hbind (getTx txTmp) (\<lambda>(_, _, tmpIns', _).
          hbind (getArray tmpIns') (\<lambda>inputs'.
          case inputs' of [] \<Rightarrow> hfail TypeError | first # _ \<Rightarrow> setScript first script))))
        else hfail TypeError))
      else
        hbind (getTx txTmp) (\<lambda>(_, _, tmpIns, _).
        hbind (getArray tmpIns) (\<lambda>inputs.
        hbind (forEach (\<lambda>input _. setScript input EMPTY_SCRIPT) 0 inputs) (\<lambda>_.
        hbind (getTx txTmp) (\<lambda>(_, _, tmpIns', _).
        hbind (getArray tmpIns') (\<lambda>inputs'.
        if inIndex < length inputs' then setScript (inputs' ! inIndex) script
        else hfail TypeError))))))"

definition read_in :: "heap \<Rightarrow> ref \<Rightarrow> txin option" where
  "read_in h r =
     (if r < length h then
        (case h ! r of
           InObj hs i s q w \<Rightarrow>
             (if w < length h then
                (case h ! w of
                   WitnessObj ws \<Rightarrow>
                     Some \<lparr>in_hash = hs, in_index = i, in_script = s, in_sequence = q,
                           in_witness = ws\<rparr>
                 | _ \<Rightarrow> None)
              else None)
         | _ \<Rightarrow> None)
      else None)"

definition read_out :: "heap \<Rightarrow> ref \<Rightarrow> txout option" where
  "read_out h r =
     (if r < length h then (case h ! r of OutObj out \<Rightarrow> Some out | _ \<Rightarrow> None) else None)"

definition read_array :: "heap \<Rightarrow> ref \<Rightarrow> ref list option" where
  "read_array h r =
     (if r < length h then (case h ! r of ArrayObj rs \<Rightarrow> Some rs | _ \<Rightarrow> None) else None)"

definition read_tx :: "heap \<Rightarrow> ref \<Rightarrow> transaction option" where
  "read_tx h t =
     (if t < length h then
        (case h ! t of
           TxObj v l ia oa \<Rightarrow>
             (case (read_array h ia, read_array h oa) of
                (Some irs, Some ors) \<Rightarrow>
                  (case (those (map (read_in h) irs), those (map (read_out h) ors)) of
                     (Some is, Some os) \<Rightarrow>
                       Some \<lparr>version = v, locktime = l, ins = is, outs = os\<rparr>
                   | _ \<Rightarrow> None)
              | _ \<Rightarrow> None)
         | _ \<Rightarrow> None)
      else None)"

definition serialize_heap :: "(bytes \<Rightarrow> bytes) \<Rightarrow> ref \<Rightarrow> 32 word \<Rightarrow> bytes prog" where
  "serialize_heap hash256 txTmp hashType h =
     (case read_tx h txTmp of
        None \<Rightarrow> (Inl TypeError, h)
      | Some tmp \<Rightarrow>
          if 0x80000000 \<le> hashType then (Inl RangeError, h)
          else
            (case internal_toBuffer tmp False of
               Inl e \<Rightarrow> (Inl e, h)
             | Inr buffer \<Rightarrow> (Inr (hash256 (buffer @ writeInt32LE hashType)), h)))"

definition hashForSignature_heap ::
  "(bytes \<Rightarrow> bytes) \<Rightarrow> (bytes \<Rightarrow> chunk list option) \<Rightarrow> (chunk list \<Rightarrow> bytes) \<Rightarrow> ref \<Rightarrow> ref
     \<Rightarrow> nat \<Rightarrow> bytes \<Rightarrow> 32 word \<Rightarrow> bytes prog" where
  "hashForSignature_heap hash256 decompile compile blank this inIndex prevOutScript hashType =
     hbind (getTx this) (\<lambda>(_, _, thisIns, _).
     hbind (getArray thisIns) (\<lambda>txIns.
     if inIndex \<ge> length txIns then hret ONE
     else
       case ourScript decompile compile prevOutScript of
         Inl e \<Rightarrow> hfail e
       | Inr script \<Rightarrow>
           hbind (clone_heap this) (\<lambda>txTmp.
           hbind (outputRule_heap blank this txTmp inIndex hashType) (\<lambda>proceed.
           if \<not> proceed then hret ONE
           else
             hbind (inputRule_heap txTmp inIndex script hashType) (\<lambda>_.
             serialize_heap hash256 txTmp hashType)))))"

definition hashForWitnessV0_heap ::
  "(bytes \<Rightarrow> bytes) \<Rightarrow> ref \<Rightarrow> nat \<Rightarrow> bytes \<Rightarrow> 64 word \<Rightarrow> 32 word \<Rightarrow> bytes prog" where
  "hashForWitnessV0_heap hash256 this inIndex prevOutScript amount hashType h =
     (case read_tx h this of
        None \<Rightarrow> (Inl TypeError, h)
      | Some tx \<Rightarrow>
          (case hashForWitnessV0 hash256 tx inIndex prevOutScript amount hashType of
             Inl e \<Rightarrow> (Inl e, h)
           | Inr digest \<Rightarrow> (Inr digest, h)))"

subsection \<open>Assertions about heaps\<close>

text \<open>
  \<open>ext n h h'\<close>: the heap \<open>h'\<close> is \<open>h\<close> grown, with its first \<open>n\<close> objects as they
  were. \<open>safe n P m Q\<close>: run from a heap of at least \<open>n\<close> objects that satisfies \<open>P\<close>,
  the program \<open>m\<close> leaves the first \<open>n\<close> objects alone, and when it returns a value the
  value and the heap satisfy \<open>Q\<close>. \<open>tmp_inv n h t\<close>: the transaction object at \<open>t\<close>, its
  two arrays and its input objects all lie at or beyond \<open>n\<close>.
\<close>

definition ext :: "nat \<Rightarrow> heap \<Rightarrow> heap \<Rightarrow> bool" where
  "ext n h h' \<longleftrightarrow> length h \<le> length h' \<and> take n h' = take n h"

definition safe :: "nat \<Rightarrow> (heap \<Rightarrow> bool) \<Rightarrow> 'a prog \<Rightarrow> ('a \<Rightarrow> heap \<Rightarrow> bool) \<Rightarrow> bool" where
  "safe n P m Q \<longleftrightarrow>
     (\<forall>h res h'. n \<le> length h \<longrightarrow> P h \<longrightarrow> m h = (res, h') \<longrightarrow>
        ext n h h' \<and> (\<forall>x. res = Inr x \<longrightarrow> Q x h'))"

definition at :: "heap \<Rightarrow> ref \<Rightarrow> obj \<Rightarrow> bool" where
  "at h r x \<longleftrightarrow> r < length h \<and> h ! r = x"

definition tmp_inv :: "nat \<Rightarrow> heap \<Rightarrow> ref \<Rightarrow> bool" where
  "tmp_inv n h t \<longleftrightarrow>
     (\<exists>v l ia oa rs es.
        n \<le> t \<and> at h t (TxObj v l ia oa) \<and> n \<le> ia \<and> n \<le> oa \<and> ia \<noteq> oa \<and>
        at h ia (ArrayObj rs) \<and> at h oa (ArrayObj es) \<and> (\<forall>r\<in>set rs. n \<le> r))"

definition fresh_tx :: "nat \<Rightarrow> ref \<Rightarrow> heap \<Rightarrow> bool" where
  "fresh_tx n t h \<longleftrightarrow> n \<le> t \<and> (\<exists>v l i a. at h t (TxObj v l i a))"

definition fresh_ins :: "nat \<Rightarrow> ref \<Rightarrow> ref \<Rightarrow> heap \<Rightarrow> bool" where
  "fresh_ins n t ia h \<longleftrightarrow>
     n \<le> t \<and> (\<exists>v l a. at h t (TxObj v l ia a)) \<and> n \<le> ia \<and>
     (\<exists>rs. at h ia (ArrayObj rs) \<and> (\<forall>r\<in>set rs. n \<le> r))"

subsection \<open>Assertions about the contents of the temporary transaction\<close>

text \<open>
  \<open>total n P m Q\<close>: from a heap of at least \<open>n\<close> cells that satisfies \<open>P\<close> the program
  \<open>m\<close> returns a value, without raising, in a heap that extends the starting one above \<open>n\<close>
  and satisfies \<open>Q\<close>.
\<close>

definition total :: "nat \<Rightarrow> (heap \<Rightarrow> bool) \<Rightarrow> 'a prog \<Rightarrow> ('a \<Rightarrow> heap \<Rightarrow> bool) \<Rightarrow> bool" where
  "total n P m Q \<longleftrightarrow>
     (\<forall>h. n \<le> length h \<longrightarrow> P h \<longrightarrow> (\<exists>x h'. m h = (Inr x, h') \<and> ext n h h' \<and> Q x h'))"

text \<open>
  \<open>tmp_at n t ia oa rs es X h\<close>: in \<open>h\<close> the transaction object \<open>t\<close>, its two arrays
  \<open>ia\<close> and \<open>oa\<close> with the elements \<open>rs\<close> and \<open>es\<close>, and its input objects are cells
  allocated at or above \<open>n\<close>, and the transaction read at \<open>t\<close> is the value \<open>X\<close>.
\<close>

definition tmp_at ::
  "nat \<Rightarrow> ref \<Rightarrow> ref \<Rightarrow> ref \<Rightarrow> ref list \<Rightarrow> ref list \<Rightarrow> transaction \<Rightarrow> heap \<Rightarrow> bool" where
  "tmp_at n t ia oa rs es X h \<longleftrightarrow>
     n \<le> t \<and> at h t (TxObj (version X) (locktime X) ia oa) \<and> n \<le> ia \<and> n \<le> oa \<and> ia \<noteq> oa \<and>
     at h ia (ArrayObj rs) \<and> at h oa (ArrayObj es) \<and> (\<forall>r\<in>set rs. n \<le> r) \<and> distinct rs \<and>
     those (map (read_in h) rs) = Some (ins X) \<and> those (map (read_out h) es) = Some (outs X)"

text \<open>The effect of a \<open>forEach\<close> over the inputs from position \<open>j\<close> on.\<close>

definition upd_from :: "nat \<Rightarrow> (nat \<Rightarrow> 'a \<Rightarrow> 'a) \<Rightarrow> 'a list \<Rightarrow> 'a list" where
  "upd_from j g xs = map (\<lambda>(i, x). if j \<le> i then g i x else x) (enumerate 0 xs)"

text \<open>\<open>old h0 h\<close>: the heap \<open>h\<close> starts with the cells of \<open>h0\<close>, unchanged.\<close>

definition old :: "heap \<Rightarrow> heap \<Rightarrow> bool" where
  "old h0 h \<longleftrightarrow> length h0 \<le> length h \<and> take (length h0) h = h0"

text \<open>
  The copies that \<open>clone\<close> makes: the new input \<open>y\<close> reads as the input \<open>x\<close> did, the new
  output \<open>y\<close> as the output \<open>x\<close> did without its \<open>valueBuffer\<close>.
\<close>

definition same_in :: "heap \<Rightarrow> ref \<Rightarrow> ref \<Rightarrow> heap \<Rightarrow> bool" where
  "same_in h0 x y h \<longleftrightarrow> (\<exists>v. read_in h0 x = Some v \<and> read_in h y = Some v)"

definition same_out :: "heap \<Rightarrow> ref \<Rightarrow> ref \<Rightarrow> heap \<Rightarrow> bool" where
  "same_out h0 x y h \<longleftrightarrow>
     (\<exists>v. read_out h0 x = Some v \<and>
          read_out h y = Some \<lparr>out_script = out_script v, out_value = out_value v,
                                out_valueBuffer = None\<rparr>)"

section \<open>Example transactions\<close>

text \<open>
  A transaction with two inputs, the first with a witness, and three outputs; and the same
  transaction without the witness.
\<close>

definition example_in0 :: txin where
  "example_in0 =
     \<lparr>in_hash = replicate 32 0xaa, in_index = 0, in_script = [0x51],
      in_sequence = 0xffffffff, in_witness = [[0x01, 0x02]]\<rparr>"

definition example_in1 :: txin where
  "example_in1 =
     \<lparr>in_hash = replicate 32 0xbb, in_index = 1, in_script = EMPTY_SCRIPT,
      in_sequence = 0xfffffffe, in_witness = EMPTY_WITNESS\<rparr>"

definition example_out0 :: txout where
  "example_out0 = \<lparr>out_script = [0x51], out_value = Some 1000, out_valueBuffer = None\<rparr>"

definition example_out1 :: txout where
  "example_out1 = \<lparr>out_script = [0x52, 0x53], out_value = Some 2000, out_valueBuffer = None\<rparr>"

definition example_out2 :: txout where
  "example_out2 = \<lparr>out_script = [], out_value = Some 0, out_valueBuffer = None\<rparr>"

definition example_tx :: transaction where
  "example_tx =
     \<lparr>version = 2, locktime = 0, ins = [example_in0, example_in1],
      outs = [example_out0, example_out1, example_out2]\<rparr>"

definition example_legacy_tx :: transaction where
  "example_legacy_tx = example_tx\<lparr>ins := [example_in0\<lparr>in_witness := EMPTY_WITNESS\<rparr>, example_in1]\<rparr>"

text \<open>The example transaction with its first output only: two inputs and one output.\<close>

definition example_one_output_tx :: transaction where
  "example_one_output_tx = example_tx\<lparr>outs := [example_out0]\<rparr>"

text \<open>The transaction \<open>example_tx\<close> as the object at reference 10 of a heap.\<close>

definition example_heap :: heap where
  "example_heap =
     [OutObj BLANK_OUTPUT,
      WitnessObj [[0x01, 0x02]],
      WitnessObj EMPTY_WITNESS,
      InObj (replicate 32 0xaa) 0 [0x51] 0xffffffff 1,
      InObj (replicate 32 0xbb) 1 EMPTY_SCRIPT 0xfffffffe 2,
      ArrayObj [3, 4],
      OutObj example_out0,
      OutObj example_out1,
      OutObj example_out2,
      ArrayObj [6, 7, 8],
      TxObj 2 0 5 9]"

lemmas example_defs =
  example_tx_def example_legacy_tx_def example_in0_def example_in1_def example_out0_def
  example_out1_def example_out2_def EMPTY_SCRIPT_def EMPTY_WITNESS_def

section \<open>Lengths of the encodings\<close>

lemma length_writeUInt32LE [simp]: "length (writeUInt32LE i) = 4"
  by (simp add: writeUInt32LE_def)

lemma length_writeInt32LE [simp]: "length (writeInt32LE i) = 4"
  by (simp add: writeInt32LE_def)

lemma length_writeUInt64LE [simp]: "length (writeUInt64LE i) = 8"
  by (simp add: writeUInt64LE_def)

lemma length_writeVarInt [simp]: "length (writeVarInt n) = encodingLength n"
  by (simp add: writeVarInt_def varuint_encode_def encodingLength_def writeUInt8_def
      writeUInt16LE_def)

lemma length_writeVarSlice [simp]: "length (writeVarSlice s) = varSliceSize s"
  by (simp add: writeVarSlice_def varSliceSize_def writeSlice_def Let_def)

lemma foldl_plus_sum_list:
  "foldl (\<lambda>sum x. sum + f x) (a :: nat) xs = a + sum_list (map f xs)"
  by (induction xs arbitrary: a) simp_all

lemma foldl_plus2_sum_list:
  "foldl (\<lambda>sum x. sum + c + f x) (a :: nat) xs = a + sum_list (map (\<lambda>x. c + f x) xs)"
  by (induction xs arbitrary: a) simp_all

lemma length_writeVector [simp]: "length (writeVector v) = vectorSize v"
  by (simp add: writeVector_def vectorSize_def foldl_plus_sum_list length_concat comp_def)

lemma length_writeTxIn:
  "length (in_hash txIn) = 32 \<Longrightarrow> length (writeTxIn txIn) = 40 + varSliceSize (in_script txIn)"
  by (simp add: writeTxIn_def writeSlice_def)

lemma length_concat_writeTxIn:
  "list_all (\<lambda>txIn. length (in_hash txIn) = 32) xs \<Longrightarrow>
   length (concat (map writeTxIn xs)) = sum_list (map (\<lambda>x. 40 + varSliceSize (in_script x)) xs)"
  by (induction xs) (simp_all add: length_writeTxIn)

lemma writeTxOut_wf:
  "wf_txout txOut \<Longrightarrow>
   \<exists>b. writeTxOut txOut = Inr b \<and> length b = 8 + varSliceSize (out_script txOut)"
  by (auto simp add: wf_txout_def writeTxOut_def writeSlice_def split: option.splits)

lemma writeTxOuts_wf:
  "list_all wf_txout xs \<Longrightarrow>
   \<exists>b. writeTxOuts xs = Inr b \<and>
       length b = sum_list (map (\<lambda>x. 8 + varSliceSize (out_script x)) xs)"
proof (induction xs)
  case Nil
  then show ?case by simp
next
  case (Cons x xs)
  from Cons.prems obtain b where b: "writeTxOut x = Inr b"
    "length b = 8 + varSliceSize (out_script x)"
    using writeTxOut_wf by auto
  from Cons obtain bs where bs: "writeTxOuts xs = Inr bs"
    "length bs = sum_list (map (\<lambda>x. 8 + varSliceSize (out_script x)) xs)"
    by auto
  show ?case by (simp add: b bs)
qed

section \<open>The empty transaction\<close>

text \<open>
  C8. The empty transaction (version 1, locktime 0, no inputs, no outputs) is encoded as
  the ten bytes \<open>01 00 00 00 00 00 00 00 00 00\<close>, with witnesses allowed or not; its byte
  length with witnesses disallowed is 10, its weight 40 and its virtual size 10.
\<close>

theorem empty_transaction_encoding:
  "internal_toBuffer new_Transaction False = Inr [1, 0, 0, 0, 0, 0, 0, 0, 0, 0] \<and>
   toBuffer new_Transaction = Inr [1, 0, 0, 0, 0, 0, 0, 0, 0, 0] \<and>
   internal_byteLength new_Transaction False = 10 \<and>
   weight new_Transaction = 40 \<and>
   virtualSize new_Transaction = 10"
  by (simp add: toBuffer_def internal_toBuffer_def new_Transaction_def hasWitnesses_def
      writeInt32LE_def writeUInt32LE_def writeVarInt_def varuint_encode_def writeUInt8_def
      internal_byteLength_def encodingLength_def weight_def virtualSize_def)

section \<open>Size consistency\<close>

text \<open>
  C4. For every transaction and both values of the witness flag, the encoder produces a
  buffer, and its length is the byte length the size calculator computes for that flag.
  Transactions are the well-formed ones: 32-byte hashes, 8-byte value placeholders, an
  amount on every output without a placeholder.
\<close>

theorem toBuffer_length_byteLength:
  assumes "wf_tx T"
  shows "\<exists>b. internal_toBuffer T w = Inr b \<and> length b = internal_byteLength T w"
proof -
  from assms have hashes: "list_all (\<lambda>txIn. length (in_hash txIn) = 32) (ins T)"
    and outputs: "list_all wf_txout (outs T)"
    by (simp_all add: wf_tx_def)
  from writeTxOuts_wf [OF outputs] obtain os where os: "writeTxOuts (outs T) = Inr os"
    "length os = sum_list (map (\<lambda>x. 8 + varSliceSize (out_script x)) (outs T))"
    by auto
  have wit: "length (concat (map (\<lambda>input. writeVector (in_witness input)) (ins T))) =
      sum_list (map (\<lambda>input. vectorSize (in_witness input)) (ins T))"
    by (simp add: length_concat comp_def)
  show ?thesis
    by (simp add: internal_toBuffer_def internal_byteLength_def os wit writeUInt8_def
        length_concat_writeTxIn [OF hashes] foldl_plus_sum_list foldl_plus2_sum_list Let_def)
qed

theorem toBuffer_length_byteLength_witness:
  "wf_tx example_tx \<and>
   (\<exists>b. internal_toBuffer example_tx True = Inr b \<and>
        length b = internal_byteLength example_tx True)"
proof -
  have h: "wf_tx example_tx"
    by (simp add: wf_tx_def wf_txout_def example_defs)
  from toBuffer_length_byteLength [OF h, of True] show ?thesis
    using h by blast
qed

section \<open>The sentinel of the legacy signature hash\<close>

lemma txTmp_first_guard:
  "inIndex \<ge> length (ins tx) \<Longrightarrow>
   hashForSignature_txTmp decompile compile tx inIndex prevOutScript hashType = Inr None"
  by (simp add: hashForSignature_txTmp_def)

lemma txTmp_not_decompiled:
  "inIndex < length (ins tx) \<Longrightarrow> decompile prevOutScript = None \<Longrightarrow>
   hashForSignature_txTmp decompile compile tx inIndex prevOutScript hashType = Inl TypeError"
  by (simp add: hashForSignature_txTmp_def ourScript_def)

lemma txTmp_second_guard:
  "inIndex < length (ins tx) \<Longrightarrow> decompile prevOutScript = Some chunks \<Longrightarrow>
   hashType AND 0x1f = SIGHASH_SINGLE \<Longrightarrow> inIndex \<ge> length (outs tx) \<Longrightarrow>
   hashForSignature_txTmp decompile compile tx inIndex prevOutScript hashType = Inr None"
  by (simp add: hashForSignature_txTmp_def ourScript_def Let_def SIGHASH_NONE_def
      SIGHASH_SINGLE_def)

lemma txTmp_built:
  "inIndex < length (ins tx) \<Longrightarrow> decompile prevOutScript = Some chunks \<Longrightarrow>
   \<not> (hashType AND 0x1f = SIGHASH_SINGLE \<and> inIndex \<ge> length (outs tx)) \<Longrightarrow>
   \<exists>txTmp. hashForSignature_txTmp decompile compile tx inIndex prevOutScript hashType =
     Inr (Some txTmp)"
  by (auto simp add: hashForSignature_txTmp_def ourScript_def Let_def)

text \<open>
  C1 (as amended). For every transaction, previous-output script and hash type, an input
  index at or beyond the number of inputs makes \<open>hashForSignature\<close> return the 32-byte
  constant \<open>ONE\<close>, whose last byte is \<open>0x01\<close> and whose first 31 bytes are \<open>0x00\<close> (the
  big-endian encoding of 1).
\<close>

theorem hashForSignature_out_of_range_ONE:
  assumes "inIndex \<ge> length (ins tx)"
  shows "hashForSignature hash256 decompile compile tx inIndex prevOutScript hashType = Inr ONE \<and>
         length ONE = 32 \<and> last ONE = 0x01 \<and> butlast ONE = replicate 31 0x00"
proof -
  from assms have "hashForSignature_txTmp decompile compile tx inIndex prevOutScript hashType =
      Inr None"
    by (rule txTmp_first_guard)
  then show ?thesis
    by (simp add: hashForSignature_def ONE_def)
qed

theorem hashForSignature_out_of_range_ONE_witness:
  "(99 :: nat) \<ge> length (ins new_Transaction) \<and>
   hashForSignature (\<lambda>b. b) (\<lambda>s. Some []) (\<lambda>c. []) new_Transaction 99 [] SIGHASH_ALL = Inr ONE \<and>
   length ONE = 32 \<and> last ONE = 0x01 \<and> butlast ONE = replicate 31 0x00"
proof -
  have h: "(99 :: nat) \<ge> length (ins new_Transaction)"
    by (simp add: new_Transaction_def)
  from hashForSignature_out_of_range_ONE [OF h] show ?thesis
    using h by blast
qed

text \<open>
  The claim as the spec words it, with \<open>0x01\<close> as the first byte and 31 zero bytes after
  it, fails: at input index 99 of the empty transaction the result is not that string.
\<close>

theorem hashForSignature_ONE_first_byte_counterexample:
  "hashForSignature (\<lambda>b. b) (\<lambda>s. Some []) (\<lambda>c. []) new_Transaction 99 [] SIGHASH_ALL
     \<noteq> Inr (0x01 # replicate 31 0x00)"
proof -
  have "hd ONE = 0x00"
    by (simp add: ONE_def hd_append)
  moreover have "hd (0x01 # replicate 31 (0x00 :: byte)) = 0x01"
    by simp
  ultimately have "ONE \<noteq> 0x01 # replicate 31 0x00"
    by (metis zero_neq_one)
  then show ?thesis
    by (simp add: hashForSignature_def hashForSignature_txTmp_def new_Transaction_def)
qed

text \<open>
  C7 (as amended). The guards of the legacy signature hash return the constant \<open>ONE\<close> as a
  value, not an error: for every transaction, script and hash type whenever the input index
  is at or beyond the number of inputs; and, for an input index below the number of inputs
  and a script that decompiles, whenever the low five bits of the hash type are
  \<open>SIGHASH_SINGLE\<close> and the input index is at or beyond the number of outputs. For an input
  index below the number of inputs and a script that does not decompile the function raises
  a \<open>TypeError\<close>, under \<open>SIGHASH_SINGLE\<close> with the input index at or beyond the number of
  outputs too, since the script is recompiled before the second guard. In every other case
  the function does not take the path of the sentinel: it builds the temporary transaction,
  raises a \<open>RangeError\<close> for a hash type from \<open>2^31\<close> on, and otherwise returns the outcome
  of the serialisation, the digest or the serialisation's error.
\<close>

theorem hashForSignature_sentinel:
  "(if inIndex \<ge> length (ins tx) then
      hashForSignature hash256 decompile compile tx inIndex prevOutScript hashType = Inr ONE \<and>
      hashForSignature_txTmp decompile compile tx inIndex prevOutScript hashType = Inr None
    else if decompile prevOutScript = None then
      hashForSignature hash256 decompile compile tx inIndex prevOutScript hashType =
        Inl TypeError
    else if hashType AND 0x1f = SIGHASH_SINGLE \<and> inIndex \<ge> length (outs tx) then
      hashForSignature hash256 decompile compile tx inIndex prevOutScript hashType = Inr ONE \<and>
      hashForSignature_txTmp decompile compile tx inIndex prevOutScript hashType = Inr None
    else
      \<exists>txTmp.
        hashForSignature_txTmp decompile compile tx inIndex prevOutScript hashType =
          Inr (Some txTmp) \<and>
        hashForSignature hash256 decompile compile tx inIndex prevOutScript hashType =
          (if 0x80000000 \<le> hashType then Inl RangeError
           else
             (case internal_toBuffer txTmp False of
                Inl e \<Rightarrow> Inl e
              | Inr buffer \<Rightarrow> Inr (hash256 (buffer @ writeInt32LE hashType)))))"
proof (cases "inIndex \<ge> length (ins tx)")
  case True
  with txTmp_first_guard [OF True, of decompile compile prevOutScript hashType] show ?thesis
    by (simp add: hashForSignature_def)
next
  case False
  then have lt: "inIndex < length (ins tx)"
    by simp
  show ?thesis
  proof (cases "decompile prevOutScript")
    case None
    with False txTmp_not_decompiled [where decompile = decompile and prevOutScript = prevOutScript and compile = compile and hashType = hashType, OF lt None] show ?thesis
      by (simp add: hashForSignature_def)
  next
    case (Some chunks)
    show ?thesis
    proof (cases "hashType AND 0x1f = SIGHASH_SINGLE \<and> inIndex \<ge> length (outs tx)")
      case True
      then have "hashForSignature_txTmp decompile compile tx inIndex prevOutScript hashType =
          Inr None"
        using txTmp_second_guard [where decompile = decompile and prevOutScript = prevOutScript and compile = compile and hashType = hashType, OF lt Some] by blast
      with False Some True show ?thesis
        by (simp add: hashForSignature_def)
    next
      case no_guard: False
      from txTmp_built [where decompile = decompile and prevOutScript = prevOutScript and compile = compile and hashType = hashType, OF lt Some no_guard] obtain txTmp where
        "hashForSignature_txTmp decompile compile tx inIndex prevOutScript hashType =
           Inr (Some txTmp)" ..
      with False Some no_guard show ?thesis
        by (simp add: hashForSignature_def)
    qed
  qed
qed

text \<open>
  The claim as the spec words it, with the second guard returning \<open>ONE\<close> for every script
  and without raising, fails on a script that does not decompile: on the transaction with
  two inputs and one output, at input index 1 under \<open>SIGHASH_SINGLE\<close>, with the script
  \<open>02 01\<close> on which the decompiler yields \<open>null\<close>, the index is at the number of outputs and
  the function raises a \<open>TypeError\<close> instead of returning \<open>ONE\<close>.
\<close>

theorem hashForSignature_sentinel_not_decompiled_counterexample:
  "SIGHASH_SINGLE AND 0x1f = SIGHASH_SINGLE \<and>
   (1 :: nat) < length (ins example_one_output_tx) \<and>
   (1 :: nat) \<ge> length (outs example_one_output_tx) \<and>
   hashForSignature (\<lambda>b. b) (\<lambda>s. None) (\<lambda>c. []) example_one_output_tx 1 [0x02, 0x01]
     SIGHASH_SINGLE = Inl TypeError \<and>
   hashForSignature (\<lambda>b. b) (\<lambda>s. None) (\<lambda>c. []) example_one_output_tx 1 [0x02, 0x01]
     SIGHASH_SINGLE \<noteq> Inr ONE"
  by (simp add: hashForSignature_def hashForSignature_txTmp_def ourScript_def
      example_one_output_tx_def example_defs SIGHASH_SINGLE_def)


section \<open>The temporary transaction under SIGHASH_SINGLE\<close>

lemma length_ignoreSequences [simp]: "length (ignoreSequences k xs) = length xs"
  by (simp add: ignoreSequences_def)

lemma nth_ignoreSequences:
  "i < length xs \<Longrightarrow>
   ignoreSequences k xs ! i = (if i = k then xs ! i else (xs ! i)\<lparr>in_sequence := 0\<rparr>)"
  by (simp add: ignoreSequences_def nth_enumerate_eq)

lemma internal_toBuffer_wf_outs:
  assumes "list_all wf_txout (outs T)"
  shows "\<exists>b. internal_toBuffer T w = Inr b"
proof -
  from writeTxOuts_wf [OF assms] obtain os where "writeTxOuts (outs T) = Inr os"
    by auto
  then show ?thesis
    by (simp add: internal_toBuffer_def Let_def)
qed

text \<open>
  C5 (as amended). For a transaction with three outputs \<open>O0\<close>, \<open>O1\<close>, \<open>O2\<close> and an input
  at index 1, and a previous-output script that decompiles, the legacy signature hash at
  input index 1 with hash type \<open>SIGHASH_SINGLE\<close> hashes a temporary clone whose outputs are
  the two-element list of \<open>BLANK_OUTPUT\<close> and the clone of \<open>O1\<close>, its script and its value
  (which is \<open>O1\<close> itself when \<open>O1\<close> has no value placeholder); \<open>BLANK_OUTPUT\<close> has the
  empty script and the eight bytes \<open>0xFF\<close> as its value placeholder; every input other than
  the one at index 1 has sequence 0 and the empty script, and the script of the input at
  index 1 is the previous-output script recompiled without its \<open>OP_CODESEPARATOR\<close> chunks.
  The result is the outcome of serialising that temporary, and when \<open>O1\<close> carries an amount
  it is the digest of the serialisation followed by the hash type. On a script that does
  not decompile the call raises a \<open>TypeError\<close> and hashes nothing.
\<close>

theorem hashForSignature_SINGLE_truncates:
  assumes outputs: "outs tx = [O0, O1, O2]"
    and input: "1 < length (ins tx)"
  shows "case decompile prevOutScript of
           None \<Rightarrow>
             hashForSignature hash256 decompile compile tx 1 prevOutScript SIGHASH_SINGLE =
               Inl TypeError
         | Some chunks \<Rightarrow>
             \<exists>txTmp.
               hashForSignature_txTmp decompile compile tx 1 prevOutScript SIGHASH_SINGLE =
                 Inr (Some txTmp) \<and>
               hashForSignature hash256 decompile compile tx 1 prevOutScript SIGHASH_SINGLE =
                 (case internal_toBuffer txTmp False of
                    Inl e \<Rightarrow> Inl e
                  | Inr buffer \<Rightarrow> Inr (hash256 (buffer @ writeInt32LE SIGHASH_SINGLE))) \<and>
               (out_value O1 \<noteq> None \<longrightarrow>
                  (\<exists>buffer. internal_toBuffer txTmp False = Inr buffer \<and>
                     hashForSignature hash256 decompile compile tx 1 prevOutScript SIGHASH_SINGLE =
                       Inr (hash256 (buffer @ writeInt32LE SIGHASH_SINGLE)))) \<and>
               outs txTmp =
                 [BLANK_OUTPUT,
                  \<lparr>out_script = out_script O1, out_value = out_value O1,
                     out_valueBuffer = None\<rparr>] \<and>
               (out_valueBuffer O1 = None \<longrightarrow> outs txTmp = [BLANK_OUTPUT, O1]) \<and>
               length (outs txTmp) = 2 \<and>
               out_script BLANK_OUTPUT = [] \<and>
               out_valueBuffer BLANK_OUTPUT = Some (replicate 8 0xff) \<and>
               length (ins txTmp) = length (ins tx) \<and>
               (\<forall>i < length (ins tx). i \<noteq> 1 \<longrightarrow>
                  in_sequence (ins txTmp ! i) = 0 \<and> in_script (ins txTmp ! i) = []) \<and>
               in_script (ins txTmp ! 1) = compile (filter (\<lambda>x. x \<noteq> Opcode 0xab) chunks)"
proof (cases "decompile prevOutScript")
  case None
  with input have "hashForSignature_txTmp decompile compile tx 1 prevOutScript SIGHASH_SINGLE =
      Inl TypeError"
    by (intro txTmp_not_decompiled) simp_all
  with None show ?thesis
    by (simp add: hashForSignature_def)
next
  case (Some chunks)
  define script where "script = compile (filter (\<lambda>x. x \<noteq> Opcode OP_CODESEPARATOR) chunks)"
  define cl where "cl = clone tx"
  define blanked where
    "blanked = map (\<lambda>input. input\<lparr>in_script := EMPTY_SCRIPT\<rparr>) (ignoreSequences 1 (ins cl))"
  define txTmp where
    "txTmp = cl\<lparr>outs := [BLANK_OUTPUT,
                \<lparr>out_script = out_script O1, out_value = out_value O1, out_valueBuffer = None\<rparr>],
              ins := blanked[1 := (blanked ! 1)\<lparr>in_script := script\<rparr>]\<rparr>"
  have our: "ourScript decompile compile prevOutScript = Inr script"
    by (simp add: ourScript_def Some script_def)
  have len_cl: "length (ins cl) = length (ins tx)"
    by (simp add: cl_def clone_def)
  have outs_cl: "foldl (\<lambda>os i. os[i := BLANK_OUTPUT]) (take (1 + 1) (outs cl)) [0..<1] =
      [BLANK_OUTPUT, \<lparr>out_script = out_script O1, out_value = out_value O1, out_valueBuffer = None\<rparr>]"
    by (simp add: cl_def clone_def outputs)
  have tmp: "hashForSignature_txTmp decompile compile tx 1 prevOutScript SIGHASH_SINGLE =
      Inr (Some txTmp)"
    using input outs_cl
    by (simp add: hashForSignature_txTmp_def our Let_def SIGHASH_SINGLE_def SIGHASH_NONE_def
        SIGHASH_ANYONECANPAY_def outputs txTmp_def blanked_def cl_def [symmetric])
  have len_blanked: "length blanked = length (ins tx)"
    by (simp add: blanked_def len_cl)
  have others: "in_sequence (ins txTmp ! i) = 0 \<and> in_script (ins txTmp ! i) = []"
    if "i < length (ins tx)" "i \<noteq> 1" for i
    using that by (simp add: txTmp_def blanked_def len_cl nth_ignoreSequences EMPTY_SCRIPT_def)
  have own: "in_script (ins txTmp ! 1) = compile (filter (\<lambda>x. x \<noteq> Opcode 0xab) chunks)"
    using input len_blanked
    by (simp add: txTmp_def script_def OP_CODESEPARATOR_def)
  have same: "out_valueBuffer O1 = None \<longrightarrow> outs txTmp = [BLANK_OUTPUT, O1]"
    by (simp add: txTmp_def)
  have blank: "out_script BLANK_OUTPUT = [] \<and> out_valueBuffer BLANK_OUTPUT = Some (replicate 8 0xff)"
    by (simp add: BLANK_OUTPUT_def EMPTY_SCRIPT_def VALUE_UINT64_MAX_def)
  have range: "\<not> 0x80000000 \<le> SIGHASH_SINGLE"
    by (simp add: SIGHASH_SINGLE_def)
  have hash: "hashForSignature hash256 decompile compile tx 1 prevOutScript SIGHASH_SINGLE =
      (case internal_toBuffer txTmp False of
         Inl e \<Rightarrow> Inl e
       | Inr buffer \<Rightarrow> Inr (hash256 (buffer @ writeInt32LE SIGHASH_SINGLE)))"
    unfolding hashForSignature_def tmp using range by simp
  have digest: "\<exists>buffer. internal_toBuffer txTmp False = Inr buffer \<and>
      hashForSignature hash256 decompile compile tx 1 prevOutScript SIGHASH_SINGLE =
        Inr (hash256 (buffer @ writeInt32LE SIGHASH_SINGLE))"
    if "out_value O1 \<noteq> None"
  proof -
    from that have "list_all wf_txout (outs txTmp)"
      by (simp add: txTmp_def wf_txout_def BLANK_OUTPUT_def VALUE_UINT64_MAX_def)
    from internal_toBuffer_wf_outs [OF this] obtain buffer where
      "internal_toBuffer txTmp False = Inr buffer" ..
    with hash show ?thesis
      by simp
  qed
  have "outs txTmp =
      [BLANK_OUTPUT, \<lparr>out_script = out_script O1, out_value = out_value O1, out_valueBuffer = None\<rparr>]"
    by (simp add: txTmp_def)
  moreover have "length (ins txTmp) = length (ins tx)"
    by (simp add: txTmp_def len_blanked)
  ultimately have "\<exists>txTmp.
       hashForSignature_txTmp decompile compile tx 1 prevOutScript SIGHASH_SINGLE =
         Inr (Some txTmp) \<and>
       hashForSignature hash256 decompile compile tx 1 prevOutScript SIGHASH_SINGLE =
         (case internal_toBuffer txTmp False of
            Inl e \<Rightarrow> Inl e
          | Inr buffer \<Rightarrow> Inr (hash256 (buffer @ writeInt32LE SIGHASH_SINGLE))) \<and>
       (out_value O1 \<noteq> None \<longrightarrow>
          (\<exists>buffer. internal_toBuffer txTmp False = Inr buffer \<and>
             hashForSignature hash256 decompile compile tx 1 prevOutScript SIGHASH_SINGLE =
               Inr (hash256 (buffer @ writeInt32LE SIGHASH_SINGLE)))) \<and>
       outs txTmp =
         [BLANK_OUTPUT,
          \<lparr>out_script = out_script O1, out_value = out_value O1,
             out_valueBuffer = None\<rparr>] \<and>
       (out_valueBuffer O1 = None \<longrightarrow> outs txTmp = [BLANK_OUTPUT, O1]) \<and>
       length (outs txTmp) = 2 \<and>
       out_script BLANK_OUTPUT = [] \<and>
       out_valueBuffer BLANK_OUTPUT = Some (replicate 8 0xff) \<and>
       length (ins txTmp) = length (ins tx) \<and>
       (\<forall>i < length (ins tx). i \<noteq> 1 \<longrightarrow>
          in_sequence (ins txTmp ! i) = 0 \<and> in_script (ins txTmp ! i) = []) \<and>
       in_script (ins txTmp ! 1) = compile (filter (\<lambda>x. x \<noteq> Opcode 0xab) chunks)"
    using tmp hash digest same blank others own by (intro exI [of _ txTmp]) simp
  with Some show ?thesis
    by simp
qed

theorem hashForSignature_SINGLE_truncates_witness:
  "outs example_tx = [example_out0, example_out1, example_out2] \<and>
   1 < length (ins example_tx) \<and>
   out_value example_out1 \<noteq> None \<and>
   out_valueBuffer example_out1 = None \<and>
   (\<exists>txTmp buffer.
      hashForSignature_txTmp (\<lambda>s. Some (map (\<lambda>b. Opcode (unat b)) s))
        (\<lambda>c. map (\<lambda>x. case x of Opcode n \<Rightarrow> of_nat n | PushData d \<Rightarrow> 0) c)
        example_tx 1 [0x51, 0xab, 0x52] SIGHASH_SINGLE = Inr (Some txTmp) \<and>
      outs txTmp = [BLANK_OUTPUT, example_out1] \<and>
      in_sequence (ins txTmp ! 0) = 0 \<and> in_script (ins txTmp ! 0) = [] \<and>
      in_script (ins txTmp ! 1) = [0x51, 0x52] \<and>
      internal_toBuffer txTmp False = Inr buffer \<and>
      hashForSignature (\<lambda>b. b) (\<lambda>s. Some (map (\<lambda>b. Opcode (unat b)) s))
        (\<lambda>c. map (\<lambda>x. case x of Opcode n \<Rightarrow> of_nat n | PushData d \<Rightarrow> 0) c)
        example_tx 1 [0x51, 0xab, 0x52] SIGHASH_SINGLE =
        Inr (buffer @ writeInt32LE SIGHASH_SINGLE))"
proof -
  have o: "outs example_tx = [example_out0, example_out1, example_out2]"
    by (simp add: example_defs)
  have i: "1 < length (ins example_tx)"
    by (simp add: example_defs)
  have v: "out_valueBuffer example_out1 = None"
    by (simp add: example_defs)
  have a: "out_value example_out1 \<noteq> None"
    by (simp add: example_defs)
  let ?d = "\<lambda>s :: bytes. Some (map (\<lambda>b. Opcode (unat b)) s)"
  let ?c = "\<lambda>c. map (\<lambda>x. case x of Opcode n \<Rightarrow> of_nat n | PushData d \<Rightarrow> 0) c :: bytes"
  from hashForSignature_SINGLE_truncates [where decompile = ?d and compile = ?c
      and prevOutScript = "[0x51, 0xab, 0x52]" and ?hash256.0 = "\<lambda>b. b", OF o i]
  have "\<exists>txTmp.
     hashForSignature_txTmp ?d ?c example_tx 1 [0x51, 0xab, 0x52] SIGHASH_SINGLE =
       Inr (Some txTmp) \<and>
     hashForSignature (\<lambda>b. b) ?d ?c example_tx 1 [0x51, 0xab, 0x52] SIGHASH_SINGLE =
       (case internal_toBuffer txTmp False of
          Inl e \<Rightarrow> Inl e
        | Inr buffer \<Rightarrow> Inr (buffer @ writeInt32LE SIGHASH_SINGLE)) \<and>
     (out_value example_out1 \<noteq> None \<longrightarrow>
        (\<exists>buffer. internal_toBuffer txTmp False = Inr buffer \<and>
           hashForSignature (\<lambda>b. b) ?d ?c example_tx 1 [0x51, 0xab, 0x52] SIGHASH_SINGLE =
             Inr (buffer @ writeInt32LE SIGHASH_SINGLE))) \<and>
     outs txTmp =
       [BLANK_OUTPUT,
        \<lparr>out_script = out_script example_out1, out_value = out_value example_out1,
           out_valueBuffer = None\<rparr>] \<and>
     (out_valueBuffer example_out1 = None \<longrightarrow> outs txTmp = [BLANK_OUTPUT, example_out1]) \<and>
     length (outs txTmp) = 2 \<and>
     out_script BLANK_OUTPUT = [] \<and>
     out_valueBuffer BLANK_OUTPUT = Some (replicate 8 0xff) \<and>
     length (ins txTmp) = length (ins example_tx) \<and>
     (\<forall>i < length (ins example_tx). i \<noteq> 1 \<longrightarrow>
        in_sequence (ins txTmp ! i) = 0 \<and> in_script (ins txTmp ! i) = []) \<and>
     in_script (ins txTmp ! 1) =
       ?c (filter (\<lambda>x. x \<noteq> Opcode 0xab) (map (\<lambda>b. Opcode (unat b)) ([0x51, 0xab, 0x52] :: bytes)))"
    by (simp only: option.case)
  then obtain txTmp where t:
    "hashForSignature_txTmp ?d ?c example_tx 1 [0x51, 0xab, 0x52] SIGHASH_SINGLE =
       Inr (Some txTmp) \<and>
     hashForSignature (\<lambda>b. b) ?d ?c example_tx 1 [0x51, 0xab, 0x52] SIGHASH_SINGLE =
       (case internal_toBuffer txTmp False of
          Inl e \<Rightarrow> Inl e
        | Inr buffer \<Rightarrow> Inr (buffer @ writeInt32LE SIGHASH_SINGLE)) \<and>
     (out_value example_out1 \<noteq> None \<longrightarrow>
        (\<exists>buffer. internal_toBuffer txTmp False = Inr buffer \<and>
           hashForSignature (\<lambda>b. b) ?d ?c example_tx 1 [0x51, 0xab, 0x52] SIGHASH_SINGLE =
             Inr (buffer @ writeInt32LE SIGHASH_SINGLE))) \<and>
     outs txTmp =
       [BLANK_OUTPUT,
        \<lparr>out_script = out_script example_out1, out_value = out_value example_out1,
           out_valueBuffer = None\<rparr>] \<and>
     (out_valueBuffer example_out1 = None \<longrightarrow> outs txTmp = [BLANK_OUTPUT, example_out1]) \<and>
     length (outs txTmp) = 2 \<and>
     out_script BLANK_OUTPUT = [] \<and>
     out_valueBuffer BLANK_OUTPUT = Some (replicate 8 0xff) \<and>
     length (ins txTmp) = length (ins example_tx) \<and>
     (\<forall>i < length (ins example_tx). i \<noteq> 1 \<longrightarrow>
        in_sequence (ins txTmp ! i) = 0 \<and> in_script (ins txTmp ! i) = []) \<and>
     in_script (ins txTmp ! 1) =
       ?c (filter (\<lambda>x. x \<noteq> Opcode 0xab) (map (\<lambda>b. Opcode (unat b)) ([0x51, 0xab, 0x52] :: bytes)))"
    ..
  from t have t1:
    "hashForSignature_txTmp ?d ?c example_tx 1 [0x51, 0xab, 0x52] SIGHASH_SINGLE =
       Inr (Some txTmp)"
    by (rule conjunct1)
  from t v have t2: "outs txTmp = [BLANK_OUTPUT, example_out1]"
    by blast
  from t have "\<forall>i < length (ins example_tx). i \<noteq> 1 \<longrightarrow>
      in_sequence (ins txTmp ! i) = 0 \<and> in_script (ins txTmp ! i) = []"
    by blast
  from this [rule_format, of 0] i
  have t3: "in_sequence (ins txTmp ! 0) = 0 \<and> in_script (ins txTmp ! 0) = []"
    by (simp add: example_defs)
  from t have "in_script (ins txTmp ! 1) =
      ?c (filter (\<lambda>x. x \<noteq> Opcode 0xab) (map (\<lambda>b. Opcode (unat b)) ([0x51, 0xab, 0x52] :: bytes)))"
    by blast
  then have t4: "in_script (ins txTmp ! 1) = [0x51, 0x52]"
    by simp
  from t a obtain buffer where t5: "internal_toBuffer txTmp False = Inr buffer \<and>
      hashForSignature (\<lambda>b. b) ?d ?c example_tx 1 [0x51, 0xab, 0x52] SIGHASH_SINGLE =
        Inr (buffer @ writeInt32LE SIGHASH_SINGLE)"
    by blast
  from o i a v t1 t2 t3 t4 t5 show ?thesis
    by blast
qed

text \<open>
  The claim as the spec words it, for whatever script is passed, fails on a script that
  does not decompile: on the example transaction with its three outputs and two inputs, at
  input index 1 under \<open>SIGHASH_SINGLE\<close>, with the script \<open>02 01\<close> on which the decompiler
  yields \<open>null\<close>, the function raises a \<open>TypeError\<close>; no temporary is built and nothing is
  hashed.
\<close>

theorem hashForSignature_SINGLE_not_decompiled_counterexample:
  "outs example_tx = [example_out0, example_out1, example_out2] \<and>
   1 < length (ins example_tx) \<and>
   hashForSignature_txTmp (\<lambda>s. None) (\<lambda>c. []) example_tx 1 [0x02, 0x01] SIGHASH_SINGLE =
     Inl TypeError \<and>
   hashForSignature (\<lambda>b. b) (\<lambda>s. None) (\<lambda>c. []) example_tx 1 [0x02, 0x01] SIGHASH_SINGLE =
     Inl TypeError"
  by (simp add: hashForSignature_def hashForSignature_txTmp_def ourScript_def example_defs)


section \<open>The sub-digests of the witness-v0 signature hash\<close>

lemma writeOutValueScript_amount:
  "out_value out \<noteq> None \<Longrightarrow>
   writeOutValueScript out =
     Inr (writeUInt64LE (the (out_value out)) @ writeVarSlice (out_script out))"
  by (auto simp add: writeOutValueScript_def)

lemma writeOutsValueScript_amounts:
  "list_all (\<lambda>out. out_value out \<noteq> None) xs \<Longrightarrow>
   writeOutsValueScript xs =
     Inr (concat (map (\<lambda>out. writeUInt64LE (the (out_value out)) @ writeVarSlice (out_script out))
            xs))"
  by (induction xs) (auto simp add: writeOutValueScript_def)

text \<open>
  C6 (as amended). On an input index below the number of inputs, a version that is not
  negative and outputs that carry amounts, \<open>hashForWitnessV0\<close> returns the \<open>hash256\<close> of the
  pre-image written out below, and in that pre-image: the prevouts digest is the \<open>hash256\<close>
  of the concatenated outpoints when \<open>ANYONECANPAY\<close> is unset and the 32 zero bytes when it
  is set; the sequence digest is the \<open>hash256\<close> of the concatenated 32-bit little-endian
  sequences of all inputs when \<open>ANYONECANPAY\<close> is unset and the low five bits of the hash
  type are neither \<open>SINGLE\<close> nor \<open>NONE\<close> (so for \<open>ALL\<close>, and also for 0 and for 4 to 31), and
  the 32 zero bytes otherwise, in particular whenever \<open>ANYONECANPAY\<close> is set; the outputs
  digest is computed over all outputs when the low five bits are neither \<open>SINGLE\<close> nor
  \<open>NONE\<close>, so for base mode \<open>ALL\<close> whether \<open>ANYONECANPAY\<close> is set or not, over the output at
  the input index under \<open>SINGLE\<close> when there is one, and is the 32 zero bytes otherwise.
\<close>

theorem hashForWitnessV0_subdigests:
  assumes "inIndex < length (ins tx)"
    and "0 \<le> sint (version tx)"
    and "list_all (\<lambda>out. out_value out \<noteq> None) (outs tx)"
  shows "hashForWitnessV0 hash256 tx inIndex prevOutScript amount hashType =
     Inr (hash256
       (writeUInt32LE (version tx) @
        (if hashType AND 0x80 = 0
         then hash256 (concat (map (\<lambda>txIn. in_hash txIn @ writeUInt32LE (in_index txIn)) (ins tx)))
         else replicate 32 0x00) @
        (if hashType AND 0x80 = 0 \<and> hashType AND 0x1f \<noteq> SIGHASH_SINGLE \<and>
            hashType AND 0x1f \<noteq> SIGHASH_NONE
         then hash256 (concat (map (\<lambda>txIn. writeUInt32LE (in_sequence txIn)) (ins tx)))
         else replicate 32 0x00) @
        in_hash (ins tx ! inIndex) @
        writeUInt32LE (in_index (ins tx ! inIndex)) @
        writeVarSlice prevOutScript @
        writeUInt64LE amount @
        writeUInt32LE (in_sequence (ins tx ! inIndex)) @
        (if hashType AND 0x1f \<noteq> SIGHASH_SINGLE \<and> hashType AND 0x1f \<noteq> SIGHASH_NONE
         then hash256 (concat (map (\<lambda>out. writeUInt64LE (the (out_value out)) @
                                     writeVarSlice (out_script out)) (outs tx)))
         else if hashType AND 0x1f = SIGHASH_SINGLE \<and> inIndex < length (outs tx)
         then hash256 (writeUInt64LE (the (out_value (outs tx ! inIndex))) @
                       writeVarSlice (out_script (outs tx ! inIndex)))
         else replicate 32 0x00) @
        writeUInt32LE (locktime tx) @
        writeUInt32LE hashType))"
proof -
  note all = writeOutsValueScript_amounts [OF assms(3)]
  have one: "writeOutValueScript (outs tx ! inIndex) =
      Inr (writeUInt64LE (the (out_value (outs tx ! inIndex))) @
           writeVarSlice (out_script (outs tx ! inIndex)))"
    if "inIndex < length (outs tx)"
    using assms(3) that by (intro writeOutValueScript_amount) (simp add: list_all_length)
  have ho: "hashOutputs hash256 tx inIndex hashType =
      Inr (if hashType AND 0x1f \<noteq> SIGHASH_SINGLE \<and> hashType AND 0x1f \<noteq> SIGHASH_NONE
         then hash256 (concat (map (\<lambda>out. writeUInt64LE (the (out_value out)) @
                                     writeVarSlice (out_script out)) (outs tx)))
         else if hashType AND 0x1f = SIGHASH_SINGLE \<and> inIndex < length (outs tx)
         then hash256 (writeUInt64LE (the (out_value (outs tx ! inIndex))) @
                       writeVarSlice (out_script (outs tx ! inIndex)))
         else replicate 32 0x00)"
    using one by (simp add: hashOutputs_def all ZERO_def)
  have hp: "hashPrevouts hash256 tx hashType =
      (if hashType AND 0x80 = 0
       then hash256 (concat (map (\<lambda>txIn. in_hash txIn @ writeUInt32LE (in_index txIn)) (ins tx)))
       else replicate 32 0x00)"
    by (simp add: hashPrevouts_def SIGHASH_ANYONECANPAY_def ZERO_def writeSlice_def)
  have hs: "hashSequence hash256 tx hashType =
      (if hashType AND 0x80 = 0 \<and> hashType AND 0x1f \<noteq> SIGHASH_SINGLE \<and>
          hashType AND 0x1f \<noteq> SIGHASH_NONE
       then hash256 (concat (map (\<lambda>txIn. writeUInt32LE (in_sequence txIn)) (ins tx)))
       else replicate 32 0x00)"
    by (simp add: hashSequence_def SIGHASH_ANYONECANPAY_def ZERO_def)
  from assms(1,2) show ?thesis
    unfolding hashForWitnessV0_def Let_def ho hp hs
    by (simp add: writeSlice_def)
qed

theorem hashForWitnessV0_subdigests_witness:
  "(0 :: nat) < length (ins example_tx) \<and>
   0 \<le> sint (version example_tx) \<and>
   list_all (\<lambda>out. out_value out \<noteq> None) (outs example_tx) \<and>
   (0x81 :: 32 word) AND 0x80 \<noteq> 0 \<and> (0x81 :: 32 word) AND 0x1f = SIGHASH_ALL \<and>
   hashForWitnessV0 (\<lambda>b. b) example_tx 0 [0x51] 1000 0x81 =
     Inr (writeUInt32LE 2 @
          replicate 32 0x00 @
          replicate 32 0x00 @
          replicate 32 0xaa @ writeUInt32LE 0 @
          [0x01, 0x51] @
          writeUInt64LE 1000 @
          writeUInt32LE 0xffffffff @
          ([0xe8, 0x03, 0, 0, 0, 0, 0, 0, 0x01, 0x51] @
           [0xd0, 0x07, 0, 0, 0, 0, 0, 0, 0x02, 0x52, 0x53] @
           [0, 0, 0, 0, 0, 0, 0, 0, 0]) @
          writeUInt32LE 0 @
          writeUInt32LE 0x81)"
proof -
  have i: "(0 :: nat) < length (ins example_tx)"
    by (simp add: example_defs)
  have v: "0 \<le> sint (version example_tx)"
    by (simp add: example_defs)
  have o: "list_all (\<lambda>out. out_value out \<noteq> None) (outs example_tx)"
    by (simp add: example_defs)
  have a: "(0x81 :: 32 word) AND 0x80 \<noteq> 0"
    by simp
  have b: "(0x81 :: 32 word) AND 0x1f = SIGHASH_ALL"
    by (simp add: SIGHASH_ALL_def)
  have c: "concat (map (\<lambda>out. writeUInt64LE (the (out_value out)) @ writeVarSlice (out_script out))
        (outs example_tx)) =
      [0xe8, 0x03, 0, 0, 0, 0, 0, 0, 0x01, 0x51] @
      [0xd0, 0x07, 0, 0, 0, 0, 0, 0, 0x02, 0x52, 0x53] @
      [0, 0, 0, 0, 0, 0, 0, 0, 0]"
    by (simp add: example_defs writeUInt64LE_def writeVarSlice_def
        writeVarInt_def varuint_encode_def writeUInt8_def writeSlice_def)
  have s: "writeVarSlice [0x51] = [0x01, 0x51]"
    by (simp add: writeVarSlice_def writeVarInt_def varuint_encode_def writeUInt8_def
        writeSlice_def)
  have f: "version example_tx = 2" "locktime example_tx = 0"
    "in_hash (ins example_tx ! 0) = replicate 32 0xaa" "in_index (ins example_tx ! 0) = 0"
    "in_sequence (ins example_tx ! 0) = 0xffffffff"
    by (simp_all add: example_defs)
  have m: "(0x81 :: 32 word) AND 0x1f \<noteq> SIGHASH_SINGLE" "(0x81 :: 32 word) AND 0x1f \<noteq> SIGHASH_NONE"
    by (simp_all add: SIGHASH_SINGLE_def SIGHASH_NONE_def)
  from hashForWitnessV0_subdigests [OF i v o, of "\<lambda>b. b" "[0x51]" 1000 "0x81"]
  have "hashForWitnessV0 (\<lambda>b. b) example_tx 0 [0x51] 1000 0x81 =
     Inr (writeUInt32LE 2 @
          replicate 32 0x00 @
          replicate 32 0x00 @
          replicate 32 0xaa @ writeUInt32LE 0 @
          [0x01, 0x51] @
          writeUInt64LE 1000 @
          writeUInt32LE 0xffffffff @
          ([0xe8, 0x03, 0, 0, 0, 0, 0, 0, 0x01, 0x51] @
           [0xd0, 0x07, 0, 0, 0, 0, 0, 0, 0x02, 0x52, 0x53] @
           [0, 0, 0, 0, 0, 0, 0, 0, 0]) @
          writeUInt32LE 0 @
          writeUInt32LE 0x81)"
    unfolding c s f using a m by simp
  with i v o a b show ?thesis
    by blast
qed

text \<open>
  The claim as the spec words it, with base mode \<open>ALL\<close> as the only one under which the
  sequence digest is computed, fails at hash type 0: its low five bits are not \<open>ALL\<close>, and the
  sequence digest is the digest of the two sequences, not \<open>ZERO\<close> (shown with the identity
  in the place of \<open>hash256\<close>, so that the digest slot displays the buffer that is hashed, in
  the sequence digest and in the pre-image that \<open>hashForWitnessV0\<close> returns).
\<close>

theorem hashSequence_base_mode_counterexample:
  "(0 :: 32 word) AND 0x1f \<noteq> SIGHASH_ALL \<and>
   hashSequence (\<lambda>b. b) example_tx 0 = [0xff, 0xff, 0xff, 0xff, 0xfe, 0xff, 0xff, 0xff] \<and>
   hashSequence (\<lambda>b. b) example_tx 0 \<noteq> ZERO \<and>
   hashForWitnessV0 (\<lambda>b. b) example_tx 0 [0x51] 1000 0 =
     Inr (writeUInt32LE 2 @
          (replicate 32 0xaa @ writeUInt32LE 0 @ replicate 32 0xbb @ writeUInt32LE 1) @
          [0xff, 0xff, 0xff, 0xff, 0xfe, 0xff, 0xff, 0xff] @
          replicate 32 0xaa @ writeUInt32LE 0 @
          [0x01, 0x51] @
          writeUInt64LE 1000 @
          writeUInt32LE 0xffffffff @
          ([0xe8, 0x03, 0, 0, 0, 0, 0, 0, 0x01, 0x51] @
           [0xd0, 0x07, 0, 0, 0, 0, 0, 0, 0x02, 0x52, 0x53] @
           [0, 0, 0, 0, 0, 0, 0, 0, 0]) @
          writeUInt32LE 0 @
          writeUInt32LE 0)"
proof -
  have v: "hashSequence (\<lambda>b. b) example_tx 0 = [0xff, 0xff, 0xff, 0xff, 0xfe, 0xff, 0xff, 0xff]"
    by (simp add: hashSequence_def example_defs SIGHASH_SINGLE_def SIGHASH_NONE_def
        SIGHASH_ANYONECANPAY_def writeUInt32LE_def)
  have "length (hashSequence (\<lambda>b. b) example_tx 0) \<noteq> length ZERO"
    by (simp add: v ZERO_def)
  then have n: "hashSequence (\<lambda>b. b) example_tx 0 \<noteq> ZERO"
    by auto
  have m: "(0 :: 32 word) AND 0x1f \<noteq> SIGHASH_ALL"
    by (simp add: SIGHASH_ALL_def)
  have p: "hashPrevouts (\<lambda>b. b) example_tx 0 =
      replicate 32 0xaa @ writeUInt32LE 0 @ replicate 32 0xbb @ writeUInt32LE 1"
    by (simp add: hashPrevouts_def example_defs SIGHASH_ANYONECANPAY_def writeSlice_def)
  have o: "hashOutputs (\<lambda>b. b) example_tx 0 0 =
      Inr ([0xe8, 0x03, 0, 0, 0, 0, 0, 0, 0x01, 0x51] @
           [0xd0, 0x07, 0, 0, 0, 0, 0, 0, 0x02, 0x52, 0x53] @
           [0, 0, 0, 0, 0, 0, 0, 0, 0])"
    by (simp add: hashOutputs_def SIGHASH_SINGLE_def SIGHASH_NONE_def example_defs
        writeOutValueScript_def writeUInt64LE_def writeVarSlice_def
        writeVarInt_def varuint_encode_def writeUInt8_def writeSlice_def)
  have s: "writeVarSlice [0x51] = [0x01, 0x51]"
    by (simp add: writeVarSlice_def writeVarInt_def varuint_encode_def writeUInt8_def
        writeSlice_def)
  have w: "hashForWitnessV0 (\<lambda>b. b) example_tx 0 [0x51] 1000 0 =
     Inr (writeUInt32LE 2 @
          (replicate 32 0xaa @ writeUInt32LE 0 @ replicate 32 0xbb @ writeUInt32LE 1) @
          [0xff, 0xff, 0xff, 0xff, 0xfe, 0xff, 0xff, 0xff] @
          replicate 32 0xaa @ writeUInt32LE 0 @
          [0x01, 0x51] @
          writeUInt64LE 1000 @
          writeUInt32LE 0xffffffff @
          ([0xe8, 0x03, 0, 0, 0, 0, 0, 0, 0x01, 0x51] @
           [0xd0, 0x07, 0, 0, 0, 0, 0, 0, 0x02, 0x52, 0x53] @
           [0, 0, 0, 0, 0, 0, 0, 0, 0]) @
          writeUInt32LE 0 @
          writeUInt32LE 0)"
    unfolding hashForWitnessV0_def Let_def v p o s
    by (simp add: example_defs writeSlice_def)
  from m v n w show ?thesis
    by blast
qed

section \<open>No sentinel in the witness-v0 signature hash\<close>

text \<open>
  C9. \<open>hashForWitnessV0\<close> has no path that returns \<open>ONE\<close> for an input index out of range:
  for every transaction and every input index at or beyond the number of inputs it fails
  instead of returning a digest. On a transaction whose outputs carry amounts and whose
  version is not negative the failure is the read of \<open>input.hash\<close> on the missing input.
\<close>

theorem hashForWitnessV0_out_of_range_fails:
  assumes "inIndex \<ge> length (ins tx)"
  shows "(\<exists>e. hashForWitnessV0 hash256 tx inIndex prevOutScript amount hashType = Inl e) \<and>
         (\<forall>digest. hashForWitnessV0 hash256 tx inIndex prevOutScript amount hashType \<noteq> Inr digest) \<and>
         (list_all (\<lambda>out. out_value out \<noteq> None) (outs tx) \<and> 0 \<le> sint (version tx) \<longrightarrow>
            hashForWitnessV0 hash256 tx inIndex prevOutScript amount hashType = Inl TypeError)"
proof -
  have outs_ok: "\<exists>b. writeOutsValueScript xs = Inr b"
    if "list_all (\<lambda>out. out_value out \<noteq> None) xs" for xs
    using that by (induction xs) (auto simp add: writeOutValueScript_def)
  have one_ok: "\<exists>b. writeOutValueScript (xs ! i) = Inr b"
    if "list_all (\<lambda>out. out_value out \<noteq> None) xs" "i < length xs" for xs i
    using that by (auto simp add: writeOutValueScript_def list_all_length)
  have ho: "\<exists>h. hashOutputs hash256 tx inIndex hashType = Inr h"
    if "list_all (\<lambda>out. out_value out \<noteq> None) (outs tx)"
  proof -
    from outs_ok [OF that] obtain b where b: "writeOutsValueScript (outs tx) = Inr b"
      by blast
    show ?thesis
    proof (cases "inIndex < length (outs tx)")
      case True
      from one_ok [OF that True] obtain c where "writeOutValueScript (outs tx ! inIndex) = Inr c"
        by blast
      then show ?thesis
        by (simp add: hashOutputs_def b)
    next
      case False
      then show ?thesis
        by (simp add: hashOutputs_def b)
    qed
  qed
  have fails: "\<exists>e. hashForWitnessV0 hash256 tx inIndex prevOutScript amount hashType = Inl e"
    using assms by (simp add: hashForWitnessV0_def Let_def split: sum.split)
  then have "\<forall>digest. hashForWitnessV0 hash256 tx inIndex prevOutScript amount hashType \<noteq> Inr digest"
    by auto
  moreover have "hashForWitnessV0 hash256 tx inIndex prevOutScript amount hashType = Inl TypeError"
    if "list_all (\<lambda>out. out_value out \<noteq> None) (outs tx)" "0 \<le> sint (version tx)"
    using ho [OF that(1)] that(2) assms by (auto simp add: hashForWitnessV0_def Let_def)
  ultimately show ?thesis
    using fails by blast
qed

theorem hashForWitnessV0_out_of_range_fails_witness:
  "(2 :: nat) \<ge> length (ins example_tx) \<and>
   hashForWitnessV0 (\<lambda>b. b) example_tx 2 [0x51] 1000 SIGHASH_ALL = Inl TypeError"
proof -
  have h: "(2 :: nat) \<ge> length (ins example_tx)"
    by (simp add: example_defs)
  have v: "list_all (\<lambda>out. out_value out \<noteq> None) (outs example_tx) \<and> 0 \<le> sint (version example_tx)"
    by (simp add: example_defs)
  from hashForWitnessV0_out_of_range_fails [OF h, of "\<lambda>b. b" "[0x51]" 1000 SIGHASH_ALL] v h
  show ?thesis
    by blast
qed


section \<open>Reading back what the writers wrote\<close>

lemma byte_step:
  fixes i :: "'a::len word"
  shows "push_bit k (ucast (ucast (drop_bit k i) :: byte)) OR push_bit (k + 8) (drop_bit (k + 8) i)
       = push_bit k (drop_bit k i)"
proof (rule bit_word_eqI)
  fix n assume n: "n < LENGTH('a)"
  show "bit (push_bit k (ucast (ucast (drop_bit k i) :: byte)) OR push_bit (k + 8) (drop_bit (k + 8) i)) n
      = bit (push_bit k (drop_bit k i)) n"
  proof (cases "n < k + 8")
    case True
    with n show ?thesis by (auto simp add: bit_simps)
  next
    case False
    with n show ?thesis by (auto simp add: bit_simps)
  qed
qed

lemma word16_bytes:
  fixes i :: "16 word"
  shows "ucast (ucast i :: byte) OR push_bit 8 (ucast (ucast (drop_bit 8 i) :: byte)) = i"
proof -
  have s8: "push_bit 8 (ucast (ucast (drop_bit 8 i) :: byte)) = push_bit 8 (drop_bit 8 i)"
    using byte_step [of 8 i] by simp
  have s0: "ucast (ucast i :: byte) OR push_bit 8 (drop_bit 8 i) = i"
    using byte_step [of 0 i] by simp
  show ?thesis
    by (simp only: s8 s0)
qed

lemma word32_bytes:
  fixes i :: "32 word"
  shows "ucast (ucast i :: byte) OR push_bit 8 (ucast (ucast (drop_bit 8 i) :: byte)) OR
    push_bit 16 (ucast (ucast (drop_bit 16 i) :: byte)) OR
    push_bit 24 (ucast (ucast (drop_bit 24 i) :: byte)) = i"
proof -
  have s24: "push_bit 24 (ucast (ucast (drop_bit 24 i) :: byte)) = push_bit 24 (drop_bit 24 i)"
    using byte_step [of 24 i] by simp
  have s16: "push_bit 16 (ucast (ucast (drop_bit 16 i) :: byte)) OR push_bit 24 (drop_bit 24 i)
      = push_bit 16 (drop_bit 16 i)"
    using byte_step [of 16 i] by simp
  have s8: "push_bit 8 (ucast (ucast (drop_bit 8 i) :: byte)) OR push_bit 16 (drop_bit 16 i)
      = push_bit 8 (drop_bit 8 i)"
    using byte_step [of 8 i] by simp
  have s0: "ucast (ucast i :: byte) OR push_bit 8 (drop_bit 8 i) = i"
    using byte_step [of 0 i] by simp
  show ?thesis
    by (simp only: s24 s16 s8 s0)
qed

lemma word64_bytes:
  fixes i :: "64 word"
  shows "ucast (ucast i :: byte) OR push_bit 8 (ucast (ucast (drop_bit 8 i) :: byte)) OR
    push_bit 16 (ucast (ucast (drop_bit 16 i) :: byte)) OR
    push_bit 24 (ucast (ucast (drop_bit 24 i) :: byte)) OR
    push_bit 32 (ucast (ucast (drop_bit 32 i) :: byte)) OR
    push_bit 40 (ucast (ucast (drop_bit 40 i) :: byte)) OR
    push_bit 48 (ucast (ucast (drop_bit 48 i) :: byte)) OR
    push_bit 56 (ucast (ucast (drop_bit 56 i) :: byte)) = i"
proof -
  have s56: "push_bit 56 (ucast (ucast (drop_bit 56 i) :: byte)) = push_bit 56 (drop_bit 56 i)"
    using byte_step [of 56 i] by simp
  have s48: "push_bit 48 (ucast (ucast (drop_bit 48 i) :: byte)) OR push_bit 56 (drop_bit 56 i)
      = push_bit 48 (drop_bit 48 i)"
    using byte_step [of 48 i] by simp
  have s40: "push_bit 40 (ucast (ucast (drop_bit 40 i) :: byte)) OR push_bit 48 (drop_bit 48 i)
      = push_bit 40 (drop_bit 40 i)"
    using byte_step [of 40 i] by simp
  have s32: "push_bit 32 (ucast (ucast (drop_bit 32 i) :: byte)) OR push_bit 40 (drop_bit 40 i)
      = push_bit 32 (drop_bit 32 i)"
    using byte_step [of 32 i] by simp
  have s24: "push_bit 24 (ucast (ucast (drop_bit 24 i) :: byte)) OR push_bit 32 (drop_bit 32 i)
      = push_bit 24 (drop_bit 24 i)"
    using byte_step [of 24 i] by simp
  have s16: "push_bit 16 (ucast (ucast (drop_bit 16 i) :: byte)) OR push_bit 24 (drop_bit 24 i)
      = push_bit 16 (drop_bit 16 i)"
    using byte_step [of 16 i] by simp
  have s8: "push_bit 8 (ucast (ucast (drop_bit 8 i) :: byte)) OR push_bit 16 (drop_bit 16 i)
      = push_bit 8 (drop_bit 8 i)"
    using byte_step [of 8 i] by simp
  have s0: "ucast (ucast i :: byte) OR push_bit 8 (drop_bit 8 i) = i"
    using byte_step [of 0 i] by simp
  show ?thesis
    by (simp only: s56 s48 s40 s32 s24 s16 s8 s0)
qed

lemma readUInt16LE_write [simp]: "readUInt16LE (writeUInt16LE i @ rest) = Inr (i, rest)"
  by (simp add: readUInt16LE_def writeUInt16LE_def word16_bytes)

lemma readUInt32LE_write [simp]: "readUInt32LE (writeUInt32LE i @ rest) = Inr (i, rest)"
  by (simp add: readUInt32LE_def writeUInt32LE_def word32_bytes)

lemma readInt32LE_write [simp]: "readInt32LE (writeInt32LE i @ rest) = Inr (i, rest)"
  by (simp add: readInt32LE_def writeInt32LE_def word32_bytes)

lemma readUInt64LE_write [simp]: "readUInt64LE (writeUInt64LE i @ rest) = Inr (i, rest)"
  by (simp add: readUInt64LE_def writeUInt64LE_def word64_bytes)

lemma readVarInt_write:
  assumes "n < 2 ^ 64"
  shows "readVarInt (writeVarInt n @ rest) = Inr (n, rest)"
proof -
  consider "n < 0xfd" | "0xfd \<le> n" "n \<le> 0xffff" | "0xffff < n" "n \<le> 0xffffffff" | "0xffffffff < n"
    by linarith
  then show ?thesis
  proof cases
    case 1
    then have u: "unat (of_nat n :: byte) = n"
      by (simp add: unat_of_nat)
    then have "(of_nat n :: byte) < 0xfd"
      using 1 by (simp add: word_less_nat_alt)
    then show ?thesis using 1 u
      by (simp add: readVarInt_def writeVarInt_def varuint_decode_def varuint_encode_def
          readUInt8_def writeUInt8_def)
  next
    case 2
    then have "unat (of_nat n :: 16 word) = n"
      by (simp add: unat_of_nat)
    then show ?thesis using 2
      by (simp add: readVarInt_def writeVarInt_def varuint_decode_def varuint_encode_def
          readUInt8_def writeUInt8_def)
  next
    case 3
    then have "unat (of_nat n :: 32 word) = n"
      by (simp add: unat_of_nat)
    then show ?thesis using 3
      by (simp add: readVarInt_def writeVarInt_def varuint_decode_def varuint_encode_def
          readUInt8_def writeUInt8_def)
  next
    case 4
    from assms have "unat (of_nat n :: 64 word) = n"
      by (simp add: unat_of_nat)
    then show ?thesis using 4
      by (simp add: readVarInt_def writeVarInt_def varuint_decode_def varuint_encode_def
          readUInt8_def writeUInt8_def)
  qed
qed

lemma readSlice_append: "readSlice (length s) (s @ rest) = Inr (s, rest)"
  by (simp add: readSlice_def)

lemma readVarSlice_write:
  "length s < 2 ^ 64 \<Longrightarrow> readVarSlice (writeVarSlice s @ rest) = Inr (s, rest)"
  by (simp add: readVarSlice_def writeVarSlice_def writeSlice_def readVarInt_write readSlice_append)

lemma readVarSlices_write:
  "list_all (\<lambda>s. length s < 2 ^ 64) v \<Longrightarrow>
   readVarSlices (length v) (concat (map writeVarSlice v) @ rest) = Inr (v, rest)"
  by (induction v) (simp_all add: readVarSlice_write)

lemma readVector_write:
  "length v < 2 ^ 64 \<Longrightarrow> list_all (\<lambda>s. length s < 2 ^ 64) v \<Longrightarrow>
   readVector (writeVector v @ rest) = Inr (v, rest)"
  by (simp add: readVector_def writeVector_def readVarInt_write readVarSlices_write)

lemma readTxIn_write:
  assumes "wire_txin txIn"
  shows "readTxIn (writeTxIn txIn @ rest) = Inr (txIn\<lparr>in_witness := EMPTY_WITNESS\<rparr>, rest)"
proof -
  from assms have h: "length (in_hash txIn) = 32" and s: "length (in_script txIn) < 2 ^ 64"
    by (simp_all add: wire_txin_def)
  have "readSlice 32 (in_hash txIn @ r) = Inr (in_hash txIn, r)" for r
    using readSlice_append [of "in_hash txIn" r] h by simp
  then show ?thesis
    by (simp add: readTxIn_def writeTxIn_def writeSlice_def readVarSlice_write [OF s])
qed

lemma readTxIns_write:
  "list_all wire_txin txIns \<Longrightarrow>
   readTxIns (length txIns) (concat (map writeTxIn txIns) @ rest) =
     Inr (map (\<lambda>txIn. txIn\<lparr>in_witness := EMPTY_WITNESS\<rparr>) txIns, rest)"
  by (induction txIns) (simp_all add: readTxIn_write)

lemma readTxOut_write:
  assumes "wire_txout txOut"
  shows "\<exists>b. writeTxOut txOut = Inr b \<and> (\<forall>rest. readTxOut (b @ rest) = Inr (txOut, rest))"
proof -
  from assms obtain v where v: "out_value txOut = Some v" and b: "out_valueBuffer txOut = None"
    and s: "length (out_script txOut) < 2 ^ 64"
    by (auto simp add: wire_txout_def)
  have "txOut = \<lparr>out_script = out_script txOut, out_value = Some v, out_valueBuffer = None\<rparr>"
    using v b by simp
  then show ?thesis
    by (simp add: writeTxOut_def readTxOut_def v b readVarSlice_write [OF s])
qed

lemma readTxOuts_write:
  "list_all wire_txout txOuts \<Longrightarrow>
   \<exists>b. writeTxOuts txOuts = Inr b \<and>
       (\<forall>rest. readTxOuts (length txOuts) (b @ rest) = Inr (txOuts, rest))"
proof (induction txOuts)
  case Nil
  then show ?case by simp
next
  case (Cons x xs)
  from Cons.prems readTxOut_write [of x] obtain b where
    b: "writeTxOut x = Inr b" "\<And>rest. readTxOut (b @ rest) = Inr (x, rest)"
    by auto
  from Cons obtain bs where
    bs: "writeTxOuts xs = Inr bs" "\<And>rest. readTxOuts (length xs) (bs @ rest) = Inr (xs, rest)"
    by auto
  show ?case
    by (simp add: b bs)
qed

lemma readWitnesses_write:
  "list_all wire_txin txIns \<Longrightarrow>
   readWitnesses (map (\<lambda>txIn. txIn\<lparr>in_witness := EMPTY_WITNESS\<rparr>) txIns)
     (concat (map (\<lambda>input. writeVector (in_witness input)) txIns) @ rest) = Inr (txIns, rest)"
  by (induction txIns) (simp_all add: wire_txin_def readVector_write)

lemma writeVarInt_first:
  "\<exists>b bs. writeVarInt n = b # bs \<and> (b = 0 \<longleftrightarrow> n = 0) \<and> (b = 1 \<longleftrightarrow> n = 1)"
proof (cases "n < 0xfd")
  case True
  then have u: "unat (of_nat n :: byte) = n"
    by (simp add: unat_of_nat)
  have "(of_nat n :: byte) = 0 \<longleftrightarrow> n = 0"
    using u unat_eq_0 [of "of_nat n :: byte"] by simp
  moreover have "(of_nat n :: byte) = 1 \<longleftrightarrow> n = 1"
  proof
    assume "(of_nat n :: byte) = 1"
    then have "unat (of_nat n :: byte) = unat (1 :: byte)"
      by simp
    with u show "n = 1"
      by simp
  next
    assume "n = 1"
    then show "(of_nat n :: byte) = 1"
      by simp
  qed
  ultimately show ?thesis
    using True by (simp add: writeVarInt_def varuint_encode_def writeUInt8_def)
next
  case False
  then show ?thesis
    by (simp add: writeVarInt_def varuint_encode_def writeUInt8_def)
qed

lemma no_witness_strip:
  "\<not> list_ex (\<lambda>x. length (in_witness x) \<noteq> 0) txIns \<Longrightarrow>
   map (\<lambda>txIn. txIn\<lparr>in_witness := EMPTY_WITNESS\<rparr>) txIns = txIns"
  by (induction txIns) (simp_all add: EMPTY_WITNESS_def)

lemma fromBuffer_toBuffer:
  assumes wire: "wire_tx T"
    and amb: "\<not> (ins T = [] \<and> length (outs T) = 1)"
  shows "\<exists>b. toBuffer T = Inr b \<and> fromBuffer b False = Inr T"
proof -
  from wire have wi: "list_all wire_txin (ins T)" and wo: "list_all wire_txout (outs T)"
    and li: "length (ins T) < 2 ^ 64" and lo: "length (outs T) < 2 ^ 64"
    by (simp_all add: wire_tx_def)
  from readTxOuts_write [OF wo] obtain os where
    os: "writeTxOuts (outs T) = Inr os"
    "\<And>rest. readTxOuts (length (outs T)) (os @ rest) = Inr (outs T, rest)"
    by auto
  have T: "\<lparr>version = version T, locktime = locktime T, ins = ins T, outs = outs T\<rparr> = T"
    by simp
  show ?thesis
  proof (cases "hasWitnesses T")
    case True
    then have ex: "list_ex (\<lambda>x. length (in_witness x) \<noteq> 0) (ins T)"
      by (simp add: hasWitnesses_def)
    have enc: "toBuffer T =
        Inr (writeInt32LE (version T) @ 0 # 1 # (writeVarInt (length (ins T)) @
             concat (map writeTxIn (ins T)) @ writeVarInt (length (outs T)) @ os @
             concat (map (\<lambda>input. writeVector (in_witness input)) (ins T)) @
             writeUInt32LE (locktime T)))"
      using True
      by (simp add: toBuffer_def internal_toBuffer_def os writeUInt8_def
          ADVANCED_TRANSACTION_MARKER_def ADVANCED_TRANSACTION_FLAG_def)
    have dec: "fromBuffer (writeInt32LE (version T) @ 0 # 1 # (writeVarInt (length (ins T)) @
             concat (map writeTxIn (ins T)) @ writeVarInt (length (outs T)) @ os @
             concat (map (\<lambda>input. writeVector (in_witness input)) (ins T)) @
             writeUInt32LE (locktime T))) False = Inr T"
      using ex T
      by (simp add: fromBuffer_def ADVANCED_TRANSACTION_MARKER_def ADVANCED_TRANSACTION_FLAG_def
          readVarInt_write [OF li] readVarInt_write [OF lo] readTxIns_write [OF wi] os
          readWitnesses_write [OF wi]
          readUInt32LE_write [of "locktime T" "[]", simplified])
    from enc dec show ?thesis
      by simp
  next
    case False
    then have nex: "\<not> list_ex (\<lambda>x. length (in_witness x) \<noteq> 0) (ins T)"
      by (simp add: hasWitnesses_def)
    obtain b bs where b: "writeVarInt (length (ins T)) = b # bs" "b = 0 \<longleftrightarrow> length (ins T) = 0"
      using writeVarInt_first [of "length (ins T)"] by auto
    obtain c cs where c: "writeVarInt (length (outs T)) = c # cs" "c = 1 \<longleftrightarrow> length (outs T) = 1"
      using writeVarInt_first [of "length (outs T)"] by auto
    define body where "body = writeVarInt (length (ins T)) @
             concat (map writeTxIn (ins T)) @ writeVarInt (length (outs T)) @ os @
             writeUInt32LE (locktime T)"
    have enc: "toBuffer T = Inr (writeInt32LE (version T) @ body)"
      using False by (simp add: toBuffer_def internal_toBuffer_def os body_def)
    have peek: "\<exists>marker flag r2. body = marker # flag # r2 \<and> \<not> (marker = 0 \<and> flag = 1)"
    proof (cases "ins T = []")
      case True
      with amb have "length (outs T) \<noteq> 1"
        by simp
      with c have "c \<noteq> 1"
        by simp
      moreover from True b have "bs = []"
        by (simp add: writeVarInt_def varuint_encode_def writeUInt8_def)
      ultimately show ?thesis
        using True b c by (simp add: body_def)
    next
      case False
      with b have "b \<noteq> 0"
        by simp
      moreover have "\<exists>x xs. bs @ concat (map writeTxIn (ins T)) @ c # cs @ os @
          writeUInt32LE (locktime T) = x # xs"
        by (simp flip: neq_Nil_conv)
      ultimately show ?thesis
        using b c by (auto simp add: body_def)
    qed
    then obtain marker flag r2 where p: "body = marker # flag # r2" "\<not> (marker = 0 \<and> flag = 1)"
      by blast
    have rest: "readVarInt body = Inr (length (ins T), concat (map writeTxIn (ins T)) @
        writeVarInt (length (outs T)) @ os @ writeUInt32LE (locktime T))"
      unfolding body_def by (rule readVarInt_write [OF li])
    have hw: "(marker = ADVANCED_TRANSACTION_MARKER \<and> flag = ADVANCED_TRANSACTION_FLAG) = False"
      using p(2) by (simp add: ADVANCED_TRANSACTION_MARKER_def ADVANCED_TRANSACTION_FLAG_def)
    have dec: "fromBuffer (writeInt32LE (version T) @ body) False = Inr T"
      using T
      by (simp add: fromBuffer_def p(1) hw rest [unfolded p(1)]
          readVarInt_write [OF lo] readTxIns_write [OF wi] os
          no_witness_strip [OF nex]
          readUInt32LE_write [of "locktime T" "[]", simplified])
    from enc dec show ?thesis
      by simp
  qed
qed

section \<open>Decoding an encoded transaction\<close>

text \<open>
  C2 (as amended). For every transaction on the wire (32-byte hashes, amounts and no
  placeholder on the outputs, counts and lengths below \<open>2^64\<close>) other than those with no
  input and exactly one output, the witness-allowed encoding exists and strict decoding of
  it yields the transaction itself. For every transaction none of whose inputs has a
  non-empty witness, the witness-allowed and the witness-free encodings are the same.
\<close>

theorem decode_encode:
  "(wire_tx T \<and> \<not> (ins T = [] \<and> length (outs T) = 1) \<longrightarrow>
      (\<exists>b. internal_toBuffer T True = Inr b \<and> fromBuffer b False = Inr T)) \<and>
   (\<not> hasWitnesses T \<longrightarrow> internal_toBuffer T True = internal_toBuffer T False)"
proof (intro conjI impI)
  assume "wire_tx T \<and> \<not> (ins T = [] \<and> length (outs T) = 1)"
  then show "\<exists>b. internal_toBuffer T True = Inr b \<and> fromBuffer b False = Inr T"
    using fromBuffer_toBuffer [of T] by (simp add: toBuffer_def)
next
  assume "\<not> hasWitnesses T"
  then show "internal_toBuffer T True = internal_toBuffer T False"
    by (simp add: internal_toBuffer_def)
qed

lemma example_tx_encoding:
  "internal_toBuffer example_tx True =
     Inr ([2, 0, 0, 0, 0, 1, 2] @
          replicate 32 0xaa @ [0, 0, 0, 0, 1, 0x51, 0xff, 0xff, 0xff, 0xff] @
          replicate 32 0xbb @ [1, 0, 0, 0, 0, 0xfe, 0xff, 0xff, 0xff] @
          [3, 0xe8, 0x03, 0, 0, 0, 0, 0, 0, 1, 0x51,
           0xd0, 0x07, 0, 0, 0, 0, 0, 0, 2, 0x52, 0x53,
           0, 0, 0, 0, 0, 0, 0, 0, 0] @
          [1, 2, 1, 2, 0] @ [0, 0, 0, 0])"
  by (simp add: internal_toBuffer_def hasWitnesses_def example_defs writeInt32LE_def
      writeUInt32LE_def writeUInt64LE_def writeUInt8_def writeVarInt_def varuint_encode_def
      writeTxIn_def writeTxOut_def writeVarSlice_def writeVector_def writeSlice_def
      ADVANCED_TRANSACTION_MARKER_def ADVANCED_TRANSACTION_FLAG_def)

theorem decode_encode_witness:
  "wire_tx example_tx \<and> \<not> (ins example_tx = [] \<and> length (outs example_tx) = 1) \<and>
   (\<exists>b. internal_toBuffer example_tx True = Inr b \<and> fromBuffer b False = Inr example_tx) \<and>
   \<not> hasWitnesses example_legacy_tx \<and>
   internal_toBuffer example_legacy_tx True = internal_toBuffer example_legacy_tx False"
proof -
  have w: "wire_tx example_tx"
    by (simp add: wire_tx_def wire_txin_def wire_txout_def example_defs)
  have a: "\<not> (ins example_tx = [] \<and> length (outs example_tx) = 1)"
    by (simp add: example_defs)
  have n: "\<not> hasWitnesses example_legacy_tx"
    by (simp add: hasWitnesses_def example_defs)
  from decode_encode [of example_tx] w a
  have "\<exists>b. internal_toBuffer example_tx True = Inr b \<and> fromBuffer b False = Inr example_tx"
    by blast
  moreover from decode_encode [of example_legacy_tx] n
  have "internal_toBuffer example_legacy_tx True = internal_toBuffer example_legacy_tx False"
    by blast
  ultimately show ?thesis
    using w a n by blast
qed

lemma example_noinput_tx_encoding:
  "internal_toBuffer example_noinput_tx True =
     Inr [1, 0, 0, 0, 0, 1, 0, 0, 0, 0, 0, 0, 0, 0, 0, 0, 0, 0, 0]"
  by (simp add: internal_toBuffer_def hasWitnesses_def example_noinput_tx_def writeInt32LE_def
      writeUInt32LE_def writeUInt64LE_def writeUInt8_def writeVarInt_def varuint_encode_def
      writeTxOut_def writeVarSlice_def writeSlice_def)

lemma example_noinput_tx_decoding:
  "fromBuffer [1, 0, 0, 0, 0, 1, 0, 0, 0, 0, 0, 0, 0, 0, 0, 0, 0, 0, 0] False =
     Inl SuperfluousWitnessData"
  by (simp add: fromBuffer_def readInt32LE_def ADVANCED_TRANSACTION_MARKER_def
      ADVANCED_TRANSACTION_FLAG_def readVarInt_def varuint_decode_def readUInt8_def)

text \<open>
  The claim for every transaction fails on the transaction with no input and one output
  (amount 0, empty script): its encoding has \<open>00 01\<close> after the version, the decoder takes
  them for marker and flag and fails with the superfluous-witness error.
\<close>

theorem decode_encode_counterexample:
  "internal_toBuffer example_noinput_tx True =
     Inr [1, 0, 0, 0, 0, 1, 0, 0, 0, 0, 0, 0, 0, 0, 0, 0, 0, 0, 0] \<and>
   fromBuffer [1, 0, 0, 0, 0, 1, 0, 0, 0, 0, 0, 0, 0, 0, 0, 0, 0, 0, 0] False =
     Inl SuperfluousWitnessData \<and>
   fromBuffer [1, 0, 0, 0, 0, 1, 0, 0, 0, 0, 0, 0, 0, 0, 0, 0, 0, 0, 0] False \<noteq>
     Inr example_noinput_tx"
  by (simp add: example_noinput_tx_encoding example_noinput_tx_decoding)

section \<open>Marker, flag and the transactions without inputs\<close>

lemma fromBuffer_marker_flag:
  assumes "fromBuffer (writeInt32LE v @ 0x00 # 0x01 # rest) noStrict = Inr tx"
  shows "hasWitnesses tx"
  using assms
  by (auto simp add: fromBuffer_def hasWitnesses_def ADVANCED_TRANSACTION_MARKER_def
      ADVANCED_TRANSACTION_FLAG_def Let_def split: sum.splits prod.splits if_splits)

text \<open>
  C3 (as amended). The decoder takes the bytes \<open>00 01\<close> after the version for marker and
  flag whatever follows: a decoding of such a buffer that succeeds is of a transaction with
  a non-empty witness, hence with an input. Consequently no transaction with zero inputs and
  exactly one output is decodable: strict decoding of its encoding fails or returns another
  transaction.
\<close>

theorem zero_inputs_one_output_not_decodable:
  "(fromBuffer (writeInt32LE v @ 0x00 # 0x01 # rest) noStrict = Inr tx \<longrightarrow>
      hasWitnesses tx \<and> ins tx \<noteq> []) \<and>
   (ins T = [] \<and> length (outs T) = 1 \<and> internal_toBuffer T True = Inr b \<longrightarrow>
      fromBuffer b False \<noteq> Inr T)"
proof -
  have accepted: "hasWitnesses tx \<and> ins tx \<noteq> []"
    if "fromBuffer (writeInt32LE v @ 0x00 # 0x01 # rest) noStrict = Inr tx"
  proof -
    from that have "hasWitnesses tx"
      by (rule fromBuffer_marker_flag)
    then show ?thesis
      by (auto simp add: hasWitnesses_def)
  qed
  have undecodable: "fromBuffer b False \<noteq> Inr T"
    if a: "ins T = [] \<and> length (outs T) = 1 \<and> internal_toBuffer T True = Inr b"
  proof -
    from a have i: "ins T = []" and l: "length (outs T) = 1"
      and e: "internal_toBuffer T True = Inr b"
      by simp_all
    from i have nw: "\<not> hasWitnesses T"
      by (simp add: hasWitnesses_def)
    from e nw obtain os where os: "writeTxOuts (outs T) = Inr os"
      by (cases "writeTxOuts (outs T)") (simp_all add: internal_toBuffer_def)
    from e
    have b: "b = writeInt32LE (version T) @ 0x00 # 0x01 # (os @ writeUInt32LE (locktime T))"
      by (simp add: internal_toBuffer_def nw os i l writeVarInt_def varuint_encode_def
          writeUInt8_def)
    show ?thesis
    proof
      assume "fromBuffer b False = Inr T"
      then have "hasWitnesses T"
        unfolding b by (rule fromBuffer_marker_flag)
      with nw show False
        by simp
    qed
  qed
  from accepted undecodable show ?thesis
    by blast
qed

theorem zero_inputs_one_output_not_decodable_witness:
  "ins example_noinput_tx = [] \<and> length (outs example_noinput_tx) = 1 \<and>
   internal_toBuffer example_noinput_tx True =
     Inr [1, 0, 0, 0, 0, 1, 0, 0, 0, 0, 0, 0, 0, 0, 0, 0, 0, 0, 0] \<and>
   fromBuffer [1, 0, 0, 0, 0, 1, 0, 0, 0, 0, 0, 0, 0, 0, 0, 0, 0, 0, 0] False \<noteq>
     Inr example_noinput_tx"
proof -
  have h: "ins example_noinput_tx = [] \<and> length (outs example_noinput_tx) = 1 \<and>
      internal_toBuffer example_noinput_tx True =
        Inr [1, 0, 0, 0, 0, 1, 0, 0, 0, 0, 0, 0, 0, 0, 0, 0, 0, 0, 0]"
    by (simp add: example_noinput_tx_encoding) (simp add: example_noinput_tx_def)
  from zero_inputs_one_output_not_decodable
    [of 0 "[]" False new_Transaction example_noinput_tx
        "[1, 0, 0, 0, 0, 1, 0, 0, 0, 0, 0, 0, 0, 0, 0, 0, 0, 0, 0]"] h
  show ?thesis
    by blast
qed

text \<open>
  The claim for every transaction with zero inputs fails on the empty transaction: its
  encoding has \<open>00 00\<close> after the version, and strict decoding returns it.
\<close>

theorem zero_inputs_decodable_counterexample:
  "ins new_Transaction = [] \<and>
   internal_toBuffer new_Transaction True = Inr [1, 0, 0, 0, 0, 0, 0, 0, 0, 0] \<and>
   fromBuffer [1, 0, 0, 0, 0, 0, 0, 0, 0, 0] False = Inr new_Transaction"
  by (simp add: internal_toBuffer_def new_Transaction_def hasWitnesses_def
      writeInt32LE_def writeUInt32LE_def writeVarInt_def varuint_encode_def writeUInt8_def
      fromBuffer_def readInt32LE_def readUInt32LE_def ADVANCED_TRANSACTION_MARKER_def
      ADVANCED_TRANSACTION_FLAG_def readVarInt_def varuint_decode_def readUInt8_def)


section \<open>What the hashers leave on the heap\<close>

lemma hbind_cases:
  "hbind m f h = (res, h') \<Longrightarrow>
   (\<exists>e. m h = (Inl e, h') \<and> res = Inl e) \<or> (\<exists>x h1. m h = (Inr x, h1) \<and> f x h1 = (res, h'))"
  by (cases "m h"; cases "fst (m h)") (simp_all add: hbind_def)

lemma hbind_elim:
  assumes "hbind m f h = (res, h')"
  obtains e where "m h = (Inl e, h')" "res = Inl e"
        | x h1 where "m h = (Inr x, h1)" "f x h1 = (res, h')"
  using hbind_cases [OF assms] by blast

lemma hload_cases:
  "hload r h = (res, h') \<Longrightarrow>
   h' = h \<and> (res = Inl TypeError \<or> (res = Inr (h ! r) \<and> r < length h))"
  by (cases "r < length h") (auto simp add: hload_def)

lemma getTx_cases:
  "getTx r h = (res, h') \<Longrightarrow>
   h' = h \<and> (res = Inl TypeError \<or>
             (\<exists>v l i a. res = Inr (v, l, i, a) \<and> r < length h \<and> h ! r = TxObj v l i a))"
  by (cases "r < length h"; cases "h ! r")
    (auto simp add: getTx_def hbind_def hload_def hret_def hfail_def)

lemma getArray_cases:
  "getArray r h = (res, h') \<Longrightarrow>
   h' = h \<and> (res = Inl TypeError \<or>
             (\<exists>rs. res = Inr rs \<and> r < length h \<and> h ! r = ArrayObj rs))"
  by (cases "r < length h"; cases "h ! r")
    (auto simp add: getArray_def hbind_def hload_def hret_def hfail_def)

lemma getIn_cases:
  "getIn r h = (res, h') \<Longrightarrow>
   h' = h \<and> (res = Inl TypeError \<or>
             (\<exists>hs i s q w. res = Inr (hs, i, s, q, w) \<and> r < length h \<and> h ! r = InObj hs i s q w))"
  by (cases "r < length h"; cases "h ! r")
    (auto simp add: getIn_def hbind_def hload_def hret_def hfail_def)

lemma getOut_cases:
  "getOut r h = (res, h') \<Longrightarrow>
   h' = h \<and> (res = Inl TypeError \<or>
             (\<exists>out. res = Inr out \<and> r < length h \<and> h ! r = OutObj out))"
  by (cases "r < length h"; cases "h ! r")
    (auto simp add: getOut_def hbind_def hload_def hret_def hfail_def)

lemma ext_refl [simp]: "ext n h h"
  by (simp add: ext_def)

lemma ext_trans: "ext n h h1 \<Longrightarrow> ext n h1 h2 \<Longrightarrow> ext n h h2"
  by (simp add: ext_def)

lemma ext_append: "n \<le> length h \<Longrightarrow> ext n h (h @ [x])"
  by (simp add: ext_def)

lemma ext_update: "n \<le> r \<Longrightarrow> ext n h (h[r := x])"
  by (simp add: ext_def)

lemma at_append: "at h r x \<Longrightarrow> at (h @ [y]) r x"
  by (simp add: at_def nth_append)

lemma at_new: "at (h @ [x]) (length h) x"
  by (simp add: at_def)

lemma at_update_other: "at h r x \<Longrightarrow> r \<noteq> r' \<Longrightarrow> at (h[r' := y]) r x"
  by (simp add: at_def)

lemma at_update_same: "r < length h \<Longrightarrow> at (h[r := y]) r y"
  by (simp add: at_def)

lemma at_fun: "at h r x \<Longrightarrow> at h r y \<Longrightarrow> x = y"
  by (simp add: at_def)

lemma safeI:
  assumes "\<And>h res h'. n \<le> length h \<Longrightarrow> P h \<Longrightarrow> m h = (res, h') \<Longrightarrow> ext n h h'"
    and "\<And>h x h'. n \<le> length h \<Longrightarrow> P h \<Longrightarrow> m h = (Inr x, h') \<Longrightarrow> Q x h'"
  shows "safe n P m Q"
  using assms unfolding safe_def by blast

lemma safeD:
  assumes "safe n P m Q" "n \<le> length h" "P h" "m h = (res, h')"
  shows "ext n h h'" and "\<And>x. res = Inr x \<Longrightarrow> Q x h'"
  using assms unfolding safe_def by blast+

lemma safe_hret: "(\<And>h. P h \<Longrightarrow> Q x h) \<Longrightarrow> safe n P (hret x) Q"
  by (rule safeI) (auto simp add: hret_def)

lemma safe_hfail: "safe n P (hfail e) Q"
  by (rule safeI) (auto simp add: hfail_def)

lemma safe_hbind:
  assumes m: "safe n P m R" and f: "\<And>x. safe n (R x) (f x) Q"
  shows "safe n P (hbind m f) Q"
proof (rule safeI)
  fix h res h' assume n: "n \<le> length h" and P: "P h" and run: "hbind m f h = (res, h')"
  from hbind_cases [OF run] show "ext n h h'"
  proof (elim disjE exE conjE)
    fix e assume "m h = (Inl e, h')"
    from safeD(1) [OF m n P this] show ?thesis .
  next
    fix x h1 assume 1: "m h = (Inr x, h1)" and 2: "f x h1 = (res, h')"
    from safeD [OF m n P 1] have e1: "ext n h h1" and R: "R x h1"
      by simp_all
    from e1 n have n1: "n \<le> length h1"
      by (simp add: ext_def)
    from safeD(1) [OF f n1 R 2] e1 show ?thesis
      by (blast intro: ext_trans)
  qed
next
  fix h x h' assume n: "n \<le> length h" and P: "P h" and run: "hbind m f h = (Inr x, h')"
  from hbind_cases [OF run] show "Q x h'"
  proof (elim disjE exE conjE)
    fix e assume "Inr x = Inl e"
    then show ?thesis by simp
  next
    fix y h1 assume 1: "m h = (Inr y, h1)" and 2: "f y h1 = (Inr x, h')"
    from safeD [OF m n P 1] have e1: "ext n h h1" and R: "R y h1"
      by simp_all
    from e1 n have n1: "n \<le> length h1"
      by (simp add: ext_def)
    from safeD(2) [OF f n1 R 2] show ?thesis
      by simp
  qed
qed

lemma safe_weaken:
  assumes "safe n P' m Q'" "\<And>h. P h \<Longrightarrow> P' h" "\<And>x h. Q' x h \<Longrightarrow> Q x h"
  shows "safe n P m Q"
  using assms unfolding safe_def by blast

lemma safe_if:
  assumes "c \<Longrightarrow> safe n P m1 Q" "\<not> c \<Longrightarrow> safe n P m2 Q"
  shows "safe n P (if c then m1 else m2) Q"
  using assms by simp

lemma safe_getTx: "safe n P (getTx r) (\<lambda>(v, l, i, a) h. P h \<and> at h r (TxObj v l i a))"
  by (rule safeI) (auto dest!: getTx_cases simp add: at_def)

lemma safe_getArray: "safe n P (getArray r) (\<lambda>rs h. P h \<and> at h r (ArrayObj rs))"
  by (rule safeI) (auto dest!: getArray_cases simp add: at_def)

lemma safe_getIn: "safe n P (getIn r) (\<lambda>(hs, i, s, q, w) h. P h \<and> at h r (InObj hs i s q w))"
  by (rule safeI) (auto dest!: getIn_cases simp add: at_def)

lemma safe_getOut: "safe n P (getOut r) (\<lambda>out h. P h \<and> at h r (OutObj out))"
  by (rule safeI) (auto dest!: getOut_cases simp add: at_def)

lemma safe_halloc:
  assumes "\<And>h. n \<le> length h \<Longrightarrow> P h \<Longrightarrow> Q (length h) (h @ [x])"
  shows "safe n P (halloc x) Q"
  using assms by (intro safeI) (auto simp add: halloc_def ext_append)

lemma safe_hstore:
  assumes "n \<le> r" and "\<And>h. P h \<Longrightarrow> r < length h \<Longrightarrow> Q () (h[r := x])"
  shows "safe n P (hstore r x) Q"
  using assms by (intro safeI) (auto simp add: hstore_def ext_update split: if_splits)

lemma tmp_inv_fresh: "tmp_inv n h t \<Longrightarrow> n \<le> t"
  by (auto simp add: tmp_inv_def)

lemma tmp_inv_ins:
  "tmp_inv n h t \<Longrightarrow> at h t (TxObj v l i a) \<Longrightarrow> at h i (ArrayObj rs) \<Longrightarrow> \<forall>r\<in>set rs. n \<le> r"
  by (auto simp add: tmp_inv_def at_def)

lemma tmp_inv_outs: "tmp_inv n h t \<Longrightarrow> at h t (TxObj v l i a) \<Longrightarrow> n \<le> a"
  by (auto simp add: tmp_inv_def at_def)

lemma tmp_inv_update_in:
  assumes "tmp_inv n h t" "at h r (InObj hs i s q w)"
  shows "tmp_inv n (h[r := InObj hs' i' s' q' w']) t"
proof -
  from assms(1) obtain v l ia oa rs es where inv:
    "n \<le> t" "at h t (TxObj v l ia oa)" "n \<le> ia" "n \<le> oa" "ia \<noteq> oa"
    "at h ia (ArrayObj rs)" "at h oa (ArrayObj es)" "\<forall>r\<in>set rs. n \<le> r"
    unfolding tmp_inv_def by blast
  from assms(2) inv(2,6,7) have d: "t \<noteq> r" "ia \<noteq> r" "oa \<noteq> r"
    by (auto simp add: at_def)
  from inv d show ?thesis
    unfolding tmp_inv_def by (blast intro: at_update_other)
qed

lemma tmp_inv_update_outs_array:
  assumes "tmp_inv n h t" "at h t (TxObj v l i a)"
  shows "tmp_inv n (h[a := ArrayObj es']) t"
proof -
  from assms(1) obtain v' l' ia oa rs es where inv:
    "n \<le> t" "at h t (TxObj v' l' ia oa)" "n \<le> ia" "n \<le> oa" "ia \<noteq> oa"
    "at h ia (ArrayObj rs)" "at h oa (ArrayObj es)" "\<forall>r\<in>set rs. n \<le> r"
    unfolding tmp_inv_def by blast
  from at_fun [OF assms(2) inv(2)] have eq: "v = v'" "l = l'" "i = ia" "a = oa"
    by simp_all
  from inv(2,7) have d: "t \<noteq> oa"
    by (auto simp add: at_def)
  have "at (h[oa := ArrayObj es']) oa (ArrayObj es')"
    using inv(7) by (simp add: at_def)
  moreover have "at (h[oa := ArrayObj es']) t (TxObj v' l' ia oa)"
    using inv(2) d by (rule at_update_other)
  moreover have "at (h[oa := ArrayObj es']) ia (ArrayObj rs)"
    using inv(6) inv(5) by (rule at_update_other)
  ultimately show ?thesis
    unfolding tmp_inv_def eq using inv(1,3,4,5,8) by blast
qed

lemma tmp_inv_new_outs:
  assumes "tmp_inv n h t" "at h t (TxObj v l i a)" "at h e (ArrayObj es')" "n \<le> e" "e \<noteq> i"
  shows "tmp_inv n (h[t := TxObj v l i e]) t"
proof -
  from assms(1) obtain v' l' ia oa rs es where inv:
    "n \<le> t" "at h t (TxObj v' l' ia oa)" "n \<le> ia" "n \<le> oa" "ia \<noteq> oa"
    "at h ia (ArrayObj rs)" "at h oa (ArrayObj es)" "\<forall>r\<in>set rs. n \<le> r"
    unfolding tmp_inv_def by blast
  from at_fun [OF assms(2) inv(2)] have eq: "v = v'" "l = l'" "i = ia" "a = oa"
    by simp_all
  from inv(2,6) assms(3) have d: "ia \<noteq> t" "e \<noteq> t"
    by (auto simp add: at_def)
  have "at (h[t := TxObj v l i e]) t (TxObj v l i e)"
    using inv(2) by (simp add: at_def)
  moreover have "at (h[t := TxObj v l i e]) ia (ArrayObj rs)"
    using inv(6) d(1) by (rule at_update_other)
  moreover have "at (h[t := TxObj v l i e]) e (ArrayObj es')"
    using assms(3) d(2) by (rule at_update_other)
  ultimately show ?thesis
    unfolding tmp_inv_def using inv(1,3,8) assms(4,5) eq(3) by blast
qed

lemma tmp_inv_new_ins:
  assumes "tmp_inv n h t" "at h t (TxObj v l i a)" "at h e (ArrayObj rs')" "n \<le> e" "e \<noteq> a"
    "\<forall>r\<in>set rs'. n \<le> r"
  shows "tmp_inv n (h[t := TxObj v l e a]) t"
proof -
  from assms(1) obtain v' l' ia oa rs es where inv:
    "n \<le> t" "at h t (TxObj v' l' ia oa)" "n \<le> ia" "n \<le> oa" "ia \<noteq> oa"
    "at h ia (ArrayObj rs)" "at h oa (ArrayObj es)" "\<forall>r\<in>set rs. n \<le> r"
    unfolding tmp_inv_def by blast
  from at_fun [OF assms(2) inv(2)] have eq: "v = v'" "l = l'" "i = ia" "a = oa"
    by simp_all
  from inv(2,7) assms(3) have d: "oa \<noteq> t" "e \<noteq> t"
    by (auto simp add: at_def)
  have "at (h[t := TxObj v l e a]) t (TxObj v l e a)"
    using inv(2) by (simp add: at_def)
  moreover have "at (h[t := TxObj v l e a]) oa (ArrayObj es)"
    using inv(7) d(1) by (rule at_update_other)
  moreover have "at (h[t := TxObj v l e a]) e (ArrayObj rs')"
    using assms(3) d(2) by (rule at_update_other)
  ultimately show ?thesis
    unfolding tmp_inv_def using inv(1,4) assms(4,5,6) eq(4) by blast
qed

lemma tmp_inv_append: "tmp_inv n h t \<Longrightarrow> tmp_inv n (h @ [x]) t"
  unfolding tmp_inv_def by (blast intro: at_append)

lemma safe_setSequence:
  assumes "n \<le> r"
  shows "safe n (\<lambda>h. tmp_inv n h t) (setSequence r q) (\<lambda>_ h. tmp_inv n h t)"
  unfolding setSequence_def
  apply (rule safe_hbind [OF safe_getIn])
  apply (clarsimp)
  apply (rule safe_hstore [OF assms])
  apply (auto intro: tmp_inv_update_in)
  done

lemma safe_setScript:
  assumes "n \<le> r"
  shows "safe n (\<lambda>h. tmp_inv n h t) (setScript r s) (\<lambda>_ h. tmp_inv n h t)"
  unfolding setScript_def
  apply (rule safe_hbind [OF safe_getIn])
  apply (clarsimp)
  apply (rule safe_hstore [OF assms])
  apply (auto intro: tmp_inv_update_in)
  done

lemma safe_forEach:
  assumes "\<And>r i. n \<le> r \<Longrightarrow> safe n P (f r i) (\<lambda>_. P)"
  shows "\<forall>r\<in>set rs. n \<le> r \<Longrightarrow> safe n P (forEach f j rs) (\<lambda>_. P)"
proof (induction rs arbitrary: j)
  case Nil
  show ?case by (simp add: safe_hret)
next
  case (Cons r rs)
  show ?case
    apply simp
    apply (rule safe_hbind [where R = "\<lambda>_. P"])
    using Cons.prems apply (simp add: assms)
    using Cons by simp
qed

lemma safe_forRange:
  assumes "\<And>i. safe n P (f i) (\<lambda>_. P)"
  shows "safe n P (forRange f is) (\<lambda>_. P)"
proof (induction "is")
  case Nil
  show ?case by (simp add: safe_hret)
next
  case (Cons i "is")
  show ?case
    apply simp
    apply (rule safe_hbind [where R = "\<lambda>_. P"])
    apply (rule assms)
    apply (rule Cons)
    done
qed

lemma safe_assume:
  assumes "\<And>h. P h \<Longrightarrow> C" "C \<Longrightarrow> safe n P m Q"
  shows "safe n P m Q"
  using assms unfolding safe_def by blast

lemma safe_hbind_getTx:
  assumes "\<And>v l i a. safe n (\<lambda>h. P h \<and> at h r (TxObj v l i a)) (f (v, l, i, a)) Q"
  shows "safe n P (hbind (getTx r) f) Q"
  by (rule safe_hbind [OF safe_getTx]) (auto intro: assms)

lemma safe_hbind_getIn:
  assumes "\<And>hs i s q w. safe n (\<lambda>h. P h \<and> at h r (InObj hs i s q w)) (f (hs, i, s, q, w)) Q"
  shows "safe n P (hbind (getIn r) f) Q"
  by (rule safe_hbind [OF safe_getIn]) (auto intro: assms)

lemma safe_hbind_getArray:
  assumes "\<And>rs. safe n (\<lambda>h. P h \<and> at h r (ArrayObj rs)) (f rs) Q"
  shows "safe n P (hbind (getArray r) f) Q"
  by (rule safe_hbind [OF safe_getArray]) (rule assms)

lemma safe_ignoreSequences:
  "safe n (\<lambda>h. tmp_inv n h t) (ignoreSequences_heap t k) (\<lambda>_ h. tmp_inv n h t)"
  unfolding ignoreSequences_heap_def
proof (rule safe_hbind_getTx, simp only: prod.case, rule safe_hbind_getArray)
  fix v l i a rs
  let ?P = "\<lambda>h. (tmp_inv n h t \<and> at h t (TxObj v l i a)) \<and> at h i (ArrayObj rs)"
  let ?f = "\<lambda>input i. if i = k then hret () else setSequence input 0"
  show "safe n ?P (forEach ?f 0 rs) (\<lambda>_ h. tmp_inv n h t)"
  proof (rule safe_assume [where C = "\<forall>r\<in>set rs. n \<le> r"])
    show "\<forall>r\<in>set rs. n \<le> r" if "?P h" for h
      using that by (blast dest: tmp_inv_ins)
  next
    assume fresh: "\<forall>r\<in>set rs. n \<le> r"
    have step: "safe n (\<lambda>h. tmp_inv n h t) (?f r j) (\<lambda>_ h. tmp_inv n h t)" if "n \<le> r" for r j
      using that by (simp add: safe_hret safe_setSequence)
    from safe_forEach [of n "\<lambda>h. tmp_inv n h t" ?f rs 0, OF step fresh]
    show "safe n ?P (forEach ?f 0 rs) (\<lambda>_ h. tmp_inv n h t)"
      by (rule safe_weaken) simp_all
  qed
qed

lemma safe_setElements_outs:
  "safe n (\<lambda>h. tmp_inv n h t \<and> at h t (TxObj v l i a)) (setElements a es)
     (\<lambda>_ h. tmp_inv n h t)"
  unfolding setElements_def
proof (rule safe_hbind_getArray)
  fix rs
  let ?P = "\<lambda>h. (tmp_inv n h t \<and> at h t (TxObj v l i a)) \<and> at h a (ArrayObj rs)"
  show "safe n ?P (hstore a (ArrayObj es)) (\<lambda>_ h. tmp_inv n h t)"
  proof (rule safe_assume [where C = "n \<le> a"])
    show "n \<le> a" if "?P h" for h
      using that by (blast dest: tmp_inv_outs)
  next
    assume "n \<le> a"
    then show "safe n ?P (hstore a (ArrayObj es)) (\<lambda>_ h. tmp_inv n h t)"
      by (rule safe_hstore) (blast intro: tmp_inv_update_outs_array)
  qed
qed

lemma safe_blankOutputs:
  "safe n (\<lambda>h. tmp_inv n h t) (blankOutputs_heap blank t k) (\<lambda>_ h. tmp_inv n h t)"
  unfolding blankOutputs_heap_def
proof (rule safe_forRange, rule safe_hbind_getTx, simp only: prod.case, rule safe_hbind_getArray)
  fix i v l ia a elems
  show "safe n (\<lambda>h. (tmp_inv n h t \<and> at h t (TxObj v l ia a)) \<and> at h a (ArrayObj elems))
      (setElements a (elems[i := blank])) (\<lambda>_ h. tmp_inv n h t)"
    by (rule safe_weaken [OF safe_setElements_outs [where v = v and l = l and i = ia]]) simp_all
qed

lemma safe_outputRule:
  "safe n (\<lambda>h. tmp_inv n h t) (outputRule_heap blank this t k hashType) (\<lambda>_ h. tmp_inv n h t)"
proof -
  let ?I = "\<lambda>h. tmp_inv n h t"
  have none: "safe n ?I
      (hbind (halloc (ArrayObj [])) (\<lambda>empty.
       hbind (setOuts t empty) (\<lambda>_.
       hbind (ignoreSequences_heap t k) (\<lambda>_. hret True)))) (\<lambda>_. ?I)"
  proof (rule safe_hbind [where R = "\<lambda>e h. ?I h \<and> at h e (ArrayObj []) \<and> n \<le> e \<and>
        (\<forall>v l i a. at h t (TxObj v l i a) \<longrightarrow> i \<noteq> e)"])
    show "safe n ?I (halloc (ArrayObj [])) (\<lambda>e h. ?I h \<and> at h e (ArrayObj []) \<and> n \<le> e \<and>
        (\<forall>v l i a. at h t (TxObj v l i a) \<longrightarrow> i \<noteq> e))"
    proof (rule safe_halloc, intro conjI allI impI)
      fix h v l i a
      assume n: "n \<le> length h" and inv: "tmp_inv n h t"
      show "tmp_inv n (h @ [ArrayObj []]) t"
        using inv by (rule tmp_inv_append)
      show "at (h @ [ArrayObj []]) (length h) (ArrayObj [])"
        by (rule at_new)
      show "n \<le> length h"
        by (rule n)
      assume "at (h @ [ArrayObj []]) t (TxObj v l i a)"
      with inv show "i \<noteq> length h"
        by (auto simp add: tmp_inv_def at_def nth_append)
    qed
  next
    fix e
    let ?P = "\<lambda>h. ?I h \<and> at h e (ArrayObj []) \<and> n \<le> e \<and>
        (\<forall>v l i a. at h t (TxObj v l i a) \<longrightarrow> i \<noteq> e)"
    have set: "safe n ?P (setOuts t e) (\<lambda>_. ?I)"
      unfolding setOuts_def
    proof (rule safe_hbind_getTx, simp only: prod.case)
      fix v l i a
      let ?P' = "\<lambda>h. (?I h \<and> at h e (ArrayObj []) \<and> n \<le> e \<and>
        (\<forall>v l i a. at h t (TxObj v l i a) \<longrightarrow> i \<noteq> e)) \<and> at h t (TxObj v l i a)"
      show "safe n ?P' (hstore t (TxObj v l i e)) (\<lambda>_. ?I)"
      proof (rule safe_assume [where C = "n \<le> t"])
        show "n \<le> t" if "?P' h" for h
          using that by (blast dest: tmp_inv_fresh)
      next
        assume "n \<le> t"
        then show "safe n ?P' (hstore t (TxObj v l i e)) (\<lambda>_. ?I)"
        proof (rule safe_hstore)
          fix h assume p: "?P' h"
          then have "e \<noteq> i"
            by blast
          with p show "tmp_inv n (h[t := TxObj v l i e]) t"
            by (blast intro: tmp_inv_new_outs)
        qed
      qed
    qed
    show "safe n ?P (hbind (setOuts t e) (\<lambda>_. hbind (ignoreSequences_heap t k) (\<lambda>_. hret True))) (\<lambda>_. ?I)"
      by (rule safe_hbind [OF set], rule safe_hbind [OF safe_ignoreSequences], rule safe_hret)
  qed
  have single: "safe n ?I
      (hbind (getTx this) (\<lambda>(_, _, _, thisOuts).
        hbind (getArray thisOuts) (\<lambda>txOuts.
        if k \<ge> length txOuts then hret False
        else
          hbind (getTx t) (\<lambda>(_, _, _, tmpOuts).
          hbind (getArray tmpOuts) (\<lambda>elems.
          hbind (setElements tmpOuts (take (k + 1) elems)) (\<lambda>_.
          hbind (blankOutputs_heap blank t k) (\<lambda>_.
          hbind (ignoreSequences_heap t k) (\<lambda>_.
          hret True)))))))) (\<lambda>_. ?I)"
  proof (rule safe_hbind_getTx, simp only: prod.case, rule safe_hbind_getArray, rule safe_if)
    fix v l i a txOuts
    show "safe n (\<lambda>h. (?I h \<and> at h this (TxObj v l i a)) \<and> at h a (ArrayObj txOuts)) (hret False) (\<lambda>_. ?I)"
      by (rule safe_hret) simp
  next
    fix v l i a txOuts
    let ?P = "\<lambda>h. (?I h \<and> at h this (TxObj v l i a)) \<and> at h a (ArrayObj txOuts)"
    have rest: "safe n (\<lambda>h. ?I h \<and> at h t (TxObj v' l' i' a'))
          (hbind (getArray a') (\<lambda>elems.
           hbind (setElements a' (take (k + 1) elems)) (\<lambda>_.
           hbind (blankOutputs_heap blank t k) (\<lambda>_.
           hbind (ignoreSequences_heap t k) (\<lambda>_.
           hret True))))) (\<lambda>_. ?I)" for v' l' i' a'
    proof (rule safe_hbind_getArray)
      fix elems
      have "safe n (\<lambda>h. ?I h \<and> at h t (TxObj v' l' i' a'))
          (hbind (setElements a' (take (k + 1) elems)) (\<lambda>_.
           hbind (blankOutputs_heap blank t k) (\<lambda>_.
           hbind (ignoreSequences_heap t k) (\<lambda>_.
           hret True)))) (\<lambda>_. ?I)"
        by (rule safe_hbind [OF safe_setElements_outs], rule safe_hbind [OF safe_blankOutputs],
            rule safe_hbind [OF safe_ignoreSequences], rule safe_hret)
      then show "safe n (\<lambda>h. (?I h \<and> at h t (TxObj v' l' i' a')) \<and> at h a' (ArrayObj elems))
          (hbind (setElements a' (take (k + 1) elems)) (\<lambda>_.
           hbind (blankOutputs_heap blank t k) (\<lambda>_.
           hbind (ignoreSequences_heap t k) (\<lambda>_.
           hret True)))) (\<lambda>_. ?I)"
        by (rule safe_weaken) simp_all
    qed
    have "safe n ?I
          (hbind (getTx t) (\<lambda>(_, _, _, tmpOuts).
           hbind (getArray tmpOuts) (\<lambda>elems.
           hbind (setElements tmpOuts (take (k + 1) elems)) (\<lambda>_.
           hbind (blankOutputs_heap blank t k) (\<lambda>_.
           hbind (ignoreSequences_heap t k) (\<lambda>_.
           hret True)))))) (\<lambda>_. ?I)"
      by (rule safe_hbind_getTx, simp only: prod.case) (rule rest)
    then show "safe n ?P
          (hbind (getTx t) (\<lambda>(_, _, _, tmpOuts).
           hbind (getArray tmpOuts) (\<lambda>elems.
           hbind (setElements tmpOuts (take (k + 1) elems)) (\<lambda>_.
           hbind (blankOutputs_heap blank t k) (\<lambda>_.
           hbind (ignoreSequences_heap t k) (\<lambda>_.
           hret True)))))) (\<lambda>_. ?I)"
      by (rule safe_weaken) simp_all
  qed
  show ?thesis
    unfolding outputRule_heap_def
    by (intro safe_if none single safe_hret) simp
qed

lemma safe_inputRule:
  "safe n (\<lambda>h. tmp_inv n h t) (inputRule_heap t k script hashType) (\<lambda>_ h. True)"
proof -
  let ?I = "\<lambda>h. tmp_inv n h t"
  have acp: "safe n ?I
      (hbind (getTx t) (\<lambda>(_, _, tmpIns, _).
        hbind (getArray tmpIns) (\<lambda>inputs.
        if k < length inputs then
          hbind (halloc (ArrayObj [inputs ! k])) (\<lambda>single.
          hbind (setIns t single) (\<lambda>_.
          hbind (getTx t) (\<lambda>(_, _, tmpIns', _).
          hbind (getArray tmpIns') (\<lambda>inputs'.
          case inputs' of [] \<Rightarrow> hfail TypeError | first # _ \<Rightarrow> setScript first script))))
        else hfail TypeError))) (\<lambda>_ h. True)"
  proof (rule safe_hbind_getTx, simp only: prod.case, rule safe_hbind_getArray, rule safe_if)
    fix v l i a and inputs :: "ref list"
    show "safe n (\<lambda>h. (?I h \<and> at h t (TxObj v l i a)) \<and> at h i (ArrayObj inputs))
        (hfail TypeError) (\<lambda>_ h. True)"
      by (rule safe_hfail)
  next
    fix v l i a and inputs :: "ref list"
    assume k: "k < length inputs"
    let ?P = "\<lambda>h. (?I h \<and> at h t (TxObj v l i a)) \<and> at h i (ArrayObj inputs)"
    let ?R = "\<lambda>e h. ?I h \<and> at h t (TxObj v l i a) \<and> at h e (ArrayObj [inputs ! k]) \<and>
        n \<le> e \<and> e \<noteq> a \<and> n \<le> inputs ! k"
    have alloc: "safe n ?P (halloc (ArrayObj [inputs ! k])) ?R"
    proof (rule safe_halloc, intro conjI)
      fix h assume n: "n \<le> length h" and p: "?P h"
      from p show "tmp_inv n (h @ [ArrayObj [inputs ! k]]) t"
        by (blast intro: tmp_inv_append)
      from p show "at (h @ [ArrayObj [inputs ! k]]) t (TxObj v l i a)"
        by (blast intro: at_append)
      show "at (h @ [ArrayObj [inputs ! k]]) (length h) (ArrayObj [inputs ! k])"
        by (rule at_new)
      show "n \<le> length h"
        by (rule n)
      from p show "length h \<noteq> a"
        by (auto simp add: tmp_inv_def at_def)
      from p have "\<forall>r\<in>set inputs. n \<le> r"
        by (blast dest: tmp_inv_ins)
      with k show "n \<le> inputs ! k"
        by simp
    qed
    have rest: "safe n (?R e)
        (hbind (setIns t e) (\<lambda>_.
          hbind (getTx t) (\<lambda>(_, _, tmpIns', _).
          hbind (getArray tmpIns') (\<lambda>inputs'.
          case inputs' of [] \<Rightarrow> hfail TypeError | first # _ \<Rightarrow> setScript first script))))
        (\<lambda>_ h. True)" for e
    proof (rule safe_hbind [where R = "\<lambda>_. ?I"])
      show "safe n (?R e) (setIns t e) (\<lambda>_. ?I)"
        unfolding setIns_def
      proof (rule safe_hbind_getTx, simp only: prod.case)
        fix v' l' i' a'
        let ?P' = "\<lambda>h. ?R e h \<and> at h t (TxObj v' l' i' a')"
        show "safe n ?P' (hstore t (TxObj v' l' e a')) (\<lambda>_. ?I)"
        proof (rule safe_assume [where C = "n \<le> t"])
          show "n \<le> t" if "?P' h" for h
            using that by (blast dest: tmp_inv_fresh)
        next
          assume "n \<le> t"
          then show "safe n ?P' (hstore t (TxObj v' l' e a')) (\<lambda>_. ?I)"
          proof (rule safe_hstore)
            fix h assume p: "?P' h"
            then have eq: "a' = a"
              by (auto dest: at_fun)
            from p have "\<forall>r\<in>set [inputs ! k]. n \<le> r"
              by simp
            with p show "tmp_inv n (h[t := TxObj v' l' e a']) t"
              unfolding eq by (blast intro: tmp_inv_new_ins)
          qed
        qed
      qed
    next
      fix u :: unit
      show "safe n ?I
          (hbind (getTx t) (\<lambda>(_, _, tmpIns', _).
            hbind (getArray tmpIns') (\<lambda>inputs'.
            case inputs' of [] \<Rightarrow> hfail TypeError | first # _ \<Rightarrow> setScript first script)))
          (\<lambda>_ h. True)"
      proof (rule safe_hbind_getTx, simp only: prod.case, rule safe_hbind_getArray)
        fix v' l' i' a' and inputs' :: "ref list"
        let ?P' = "\<lambda>h. (?I h \<and> at h t (TxObj v' l' i' a')) \<and> at h i' (ArrayObj inputs')"
        show "safe n ?P' (case inputs' of [] \<Rightarrow> hfail TypeError | first # _ \<Rightarrow> setScript first script)
            (\<lambda>_ h. True)"
        proof (rule safe_assume [where C = "\<forall>r\<in>set inputs'. n \<le> r"])
          show "\<forall>r\<in>set inputs'. n \<le> r" if "?P' h" for h
            using that by (blast dest: tmp_inv_ins)
        next
          assume fresh: "\<forall>r\<in>set inputs'. n \<le> r"
          show "safe n ?P' (case inputs' of [] \<Rightarrow> hfail TypeError | first # _ \<Rightarrow> setScript first script)
              (\<lambda>_ h. True)"
          proof (cases inputs')
            case Nil
            then show ?thesis by (simp add: safe_hfail)
          next
            case (Cons first others)
            with fresh have "n \<le> first"
              by simp
            from safe_setScript [OF this, of t script] show ?thesis
              unfolding Cons list.case by (rule safe_weaken) simp_all
          qed
        qed
      qed
    qed
    show "safe n ?P
        (hbind (halloc (ArrayObj [inputs ! k])) (\<lambda>single.
          hbind (setIns t single) (\<lambda>_.
          hbind (getTx t) (\<lambda>(_, _, tmpIns', _).
          hbind (getArray tmpIns') (\<lambda>inputs'.
          case inputs' of [] \<Rightarrow> hfail TypeError | first # _ \<Rightarrow> setScript first script)))))
        (\<lambda>_ h. True)"
      by (rule safe_hbind [OF alloc]) (rule rest)
  qed
  have all: "safe n ?I
      (hbind (getTx t) (\<lambda>(_, _, tmpIns, _).
        hbind (getArray tmpIns) (\<lambda>inputs.
        hbind (forEach (\<lambda>input _. setScript input EMPTY_SCRIPT) 0 inputs) (\<lambda>_.
        hbind (getTx t) (\<lambda>(_, _, tmpIns', _).
        hbind (getArray tmpIns') (\<lambda>inputs'.
        if k < length inputs' then setScript (inputs' ! k) script
        else hfail TypeError)))))) (\<lambda>_ h. True)"
  proof (rule safe_hbind_getTx, simp only: prod.case, rule safe_hbind_getArray)
    fix v l i a and inputs :: "ref list"
    let ?P = "\<lambda>h. (?I h \<and> at h t (TxObj v l i a)) \<and> at h i (ArrayObj inputs)"
    have loop: "safe n ?P (forEach (\<lambda>input _. setScript input EMPTY_SCRIPT) 0 inputs) (\<lambda>_. ?I)"
    proof (rule safe_assume [where C = "\<forall>r\<in>set inputs. n \<le> r"])
      show "\<forall>r\<in>set inputs. n \<le> r" if "?P h" for h
        using that by (blast dest: tmp_inv_ins)
    next
      assume fresh: "\<forall>r\<in>set inputs. n \<le> r"
      have step: "safe n ?I ((\<lambda>input _. setScript input EMPTY_SCRIPT) r j) (\<lambda>_. ?I)"
        if "n \<le> r" for r and j :: nat
        using that by (simp add: safe_setScript)
      from safe_forEach [of n ?I "\<lambda>input _. setScript input EMPTY_SCRIPT" inputs 0, OF step fresh]
      show "safe n ?P (forEach (\<lambda>input _. setScript input EMPTY_SCRIPT) 0 inputs) (\<lambda>_. ?I)"
        by (rule safe_weaken) simp_all
    qed
    have own: "safe n ?I
        (hbind (getTx t) (\<lambda>(_, _, tmpIns', _).
          hbind (getArray tmpIns') (\<lambda>inputs'.
          if k < length inputs' then setScript (inputs' ! k) script
          else hfail TypeError))) (\<lambda>_ h. True)"
    proof (rule safe_hbind_getTx, simp only: prod.case, rule safe_hbind_getArray, rule safe_if)
      fix v' l' i' a' and inputs' :: "ref list"
      show "safe n (\<lambda>h. (?I h \<and> at h t (TxObj v' l' i' a')) \<and> at h i' (ArrayObj inputs'))
          (hfail TypeError) (\<lambda>_ h. True)"
        by (rule safe_hfail)
    next
      fix v' l' i' a' and inputs' :: "ref list"
      assume k: "k < length inputs'"
      let ?P' = "\<lambda>h. (?I h \<and> at h t (TxObj v' l' i' a')) \<and> at h i' (ArrayObj inputs')"
      show "safe n ?P' (setScript (inputs' ! k) script) (\<lambda>_ h. True)"
      proof (rule safe_assume [where C = "\<forall>r\<in>set inputs'. n \<le> r"])
        show "\<forall>r\<in>set inputs'. n \<le> r" if "?P' h" for h
          using that by (blast dest: tmp_inv_ins)
      next
        assume "\<forall>r\<in>set inputs'. n \<le> r"
        with k have "n \<le> inputs' ! k"
          by simp
        from safe_setScript [OF this, of t script]
        show "safe n ?P' (setScript (inputs' ! k) script) (\<lambda>_ h. True)"
          by (rule safe_weaken) simp_all
      qed
    qed
    show "safe n ?P
        (hbind (forEach (\<lambda>input _. setScript input EMPTY_SCRIPT) 0 inputs) (\<lambda>_.
          hbind (getTx t) (\<lambda>(_, _, tmpIns', _).
          hbind (getArray tmpIns') (\<lambda>inputs'.
          if k < length inputs' then setScript (inputs' ! k) script
          else hfail TypeError)))) (\<lambda>_ h. True)"
      by (rule safe_hbind [OF loop]) (rule own)
  qed
  show ?thesis
    unfolding inputRule_heap_def by (intro safe_if acp all)
qed

lemma safe_serialize: "safe n P (serialize_heap hash256 t hashType) (\<lambda>_ h. True)"
  by (rule safeI) (auto simp add: serialize_heap_def split: option.splits sum.splits if_splits)

lemma safe_read_getTx:
  assumes "\<And>v l i a. safe n P (f (v, l, i, a)) Q"
  shows "safe n P (hbind (getTx r) f) Q"
  by (rule safe_hbind_getTx, rule safe_weaken [OF assms]) simp_all

lemma safe_read_getArray:
  assumes "\<And>rs. safe n P (f rs) Q"
  shows "safe n P (hbind (getArray r) f) Q"
  by (rule safe_hbind_getArray, rule safe_weaken [OF assms]) simp_all

lemma fresh_tx_append: "fresh_tx n t h \<Longrightarrow> fresh_tx n t (h @ [x])"
  unfolding fresh_tx_def by (blast intro: at_append)

lemma fresh_ins_append: "fresh_ins n t ia h \<Longrightarrow> fresh_ins n t ia (h @ [x])"
  unfolding fresh_ins_def by (blast intro: at_append)

lemma safe_new_Transaction: "safe n (\<lambda>h. True) new_Transaction_heap (fresh_tx n)"
  unfolding new_Transaction_heap_def
  by (rule safe_hbind [where R = "\<lambda>_ h. True"], rule safe_halloc, simp,
      rule safe_hbind [where R = "\<lambda>_ h. True"], rule safe_halloc, simp,
      rule safe_halloc) (auto simp add: fresh_tx_def at_def)

lemma safe_setVersion: "safe n (fresh_tx n t) (setVersion t v) (\<lambda>_. fresh_tx n t)"
  unfolding setVersion_def
proof (rule safe_hbind_getTx, simp only: prod.case)
  fix v' l i a
  let ?P = "\<lambda>h. fresh_tx n t h \<and> at h t (TxObj v' l i a)"
  show "safe n ?P (hstore t (TxObj v l i a)) (\<lambda>_. fresh_tx n t)"
  proof (rule safe_assume [where C = "n \<le> t"])
    show "n \<le> t" if "?P h" for h
      using that by (simp add: fresh_tx_def)
  next
    assume "n \<le> t"
    then show "safe n ?P (hstore t (TxObj v l i a)) (\<lambda>_. fresh_tx n t)"
      by (rule safe_hstore) (auto simp add: fresh_tx_def at_def)
  qed
qed

lemma safe_setLocktime: "safe n (fresh_tx n t) (setLocktime t l) (\<lambda>_. fresh_tx n t)"
  unfolding setLocktime_def
proof (rule safe_hbind_getTx, simp only: prod.case)
  fix v l' i a
  let ?P = "\<lambda>h. fresh_tx n t h \<and> at h t (TxObj v l' i a)"
  show "safe n ?P (hstore t (TxObj v l i a)) (\<lambda>_. fresh_tx n t)"
  proof (rule safe_assume [where C = "n \<le> t"])
    show "n \<le> t" if "?P h" for h
      using that by (simp add: fresh_tx_def)
  next
    assume "n \<le> t"
    then show "safe n ?P (hstore t (TxObj v l i a)) (\<lambda>_. fresh_tx n t)"
      by (rule safe_hstore) (auto simp add: fresh_tx_def at_def)
  qed
qed

lemma safe_mapM:
  assumes "\<And>r. safe n P (f r) (\<lambda>y h. P h \<and> n \<le> y)"
  shows "safe n P (mapM f rs) (\<lambda>ys h. P h \<and> (\<forall>y\<in>set ys. n \<le> y))"
proof (induction rs)
  case Nil
  show ?case by (simp add: safe_hret)
next
  case (Cons r rs)
  show ?case
    unfolding mapM.simps
  proof (rule safe_hbind [OF assms])
    fix y
    show "safe n (\<lambda>h. P h \<and> n \<le> y)
        (hbind (mapM f rs) (\<lambda>ys. hret (y # ys))) (\<lambda>ys h. P h \<and> (\<forall>y\<in>set ys. n \<le> y))"
    proof (rule safe_assume [where C = "n \<le> y"])
      show "n \<le> y" if "P h \<and> n \<le> y" for h
        using that by simp
    next
      assume y: "n \<le> y"
      have "safe n P (hbind (mapM f rs) (\<lambda>ys. hret (y # ys)))
          (\<lambda>ys h. P h \<and> (\<forall>y\<in>set ys. n \<le> y))"
        by (rule safe_hbind [OF Cons.IH], rule safe_hret) (simp add: y)
      then show "safe n (\<lambda>h. P h \<and> n \<le> y)
          (hbind (mapM f rs) (\<lambda>ys. hret (y # ys))) (\<lambda>ys h. P h \<and> (\<forall>y\<in>set ys. n \<le> y))"
        by (rule safe_weaken) simp_all
    qed
  qed
qed

lemma safe_copy_in:
  assumes "\<And>h x. P h \<Longrightarrow> P (h @ [x])"
  shows "safe n P (hbind (getIn r) (\<lambda>(h, i, s, q, w). halloc (InObj h i s q w)))
      (\<lambda>y h. P h \<and> n \<le> y)"
  by (rule safe_hbind_getIn, simp only: prod.case, rule safe_halloc) (simp add: assms)

lemma safe_copy_out:
  assumes "\<And>h x. P h \<Longrightarrow> P (h @ [x])"
  shows "safe n P (hbind (getOut r) (\<lambda>out. halloc (OutObj (g out)))) (\<lambda>y h. P h \<and> n \<le> y)"
  by (rule safe_hbind [OF safe_getOut], rule safe_halloc) (simp add: assms)

lemma safe_clone: "safe n (\<lambda>h. True) (clone_heap this) (\<lambda>t h. tmp_inv n h t)"
  unfolding clone_heap_def
proof (rule safe_hbind [OF safe_new_Transaction])
  fix t
  let ?copyIn = "\<lambda>txIn. hbind (getIn txIn) (\<lambda>(h, i, s, q, w). halloc (InObj h i s q w))"
  let ?copyOut = "\<lambda>txOut. hbind (getOut txOut) (\<lambda>out.
      halloc (OutObj \<lparr>out_script = out_script out, out_value = out_value out,
                       out_valueBuffer = None\<rparr>))"
  have outs_part: "safe n (fresh_ins n t ia)
      (hbind (getTx this) (\<lambda>(_, _, _, thisOuts).
       hbind (getArray thisOuts) (\<lambda>txOuts.
       hbind (mapM ?copyOut txOuts) (\<lambda>newOuts.
       hbind (halloc (ArrayObj newOuts)) (\<lambda>outsArray.
       hbind (setOuts t outsArray) (\<lambda>_.
       hret t)))))) (\<lambda>t h. tmp_inv n h t)" for ia
  proof (rule safe_read_getTx, simp only: prod.case, rule safe_read_getArray)
    fix thisOuts :: ref and txOuts :: "ref list"
    have copy: "safe n (fresh_ins n t ia) (mapM ?copyOut txOuts)
        (\<lambda>ys h. fresh_ins n t ia h \<and> (\<forall>y\<in>set ys. n \<le> y))"
      by (rule safe_mapM, rule safe_copy_out) (rule fresh_ins_append)
    show "safe n (fresh_ins n t ia)
       (hbind (mapM ?copyOut txOuts) (\<lambda>newOuts.
        hbind (halloc (ArrayObj newOuts)) (\<lambda>outsArray.
        hbind (setOuts t outsArray) (\<lambda>_.
        hret t)))) (\<lambda>t h. tmp_inv n h t)"
    proof (rule safe_hbind [OF copy])
      fix newOuts :: "ref list"
      let ?R = "\<lambda>oa h. fresh_ins n t ia h \<and> at h oa (ArrayObj newOuts) \<and> n \<le> oa \<and> oa \<noteq> ia"
      have alloc: "safe n (\<lambda>h. fresh_ins n t ia h \<and> (\<forall>y\<in>set newOuts. n \<le> y))
          (halloc (ArrayObj newOuts)) ?R"
      proof (rule safe_halloc, intro conjI)
        fix h assume n: "n \<le> length h" and p: "fresh_ins n t ia h \<and> (\<forall>y\<in>set newOuts. n \<le> y)"
        from p show "fresh_ins n t ia (h @ [ArrayObj newOuts])"
          by (blast intro: fresh_ins_append)
        show "at (h @ [ArrayObj newOuts]) (length h) (ArrayObj newOuts)"
          by (rule at_new)
        show "n \<le> length h"
          by (rule n)
        from p show "length h \<noteq> ia"
          by (auto simp add: fresh_ins_def at_def)
      qed
      have set: "safe n (?R oa) (setOuts t oa) (\<lambda>_ h. tmp_inv n h t)" for oa
        unfolding setOuts_def
      proof (rule safe_hbind_getTx, simp only: prod.case)
        fix v l i a
        let ?P = "\<lambda>h. ?R oa h \<and> at h t (TxObj v l i a)"
        show "safe n ?P (hstore t (TxObj v l i oa)) (\<lambda>_ h. tmp_inv n h t)"
        proof (rule safe_assume [where C = "n \<le> t"])
          show "n \<le> t" if "?P h" for h
            using that by (simp add: fresh_ins_def)
        next
          assume t: "n \<le> t"
          then show "safe n ?P (hstore t (TxObj v l i oa)) (\<lambda>_ h. tmp_inv n h t)"
          proof (rule safe_hstore)
            fix h assume p: "?P h" and len: "t < length h"
            from p obtain rs where rs: "at h ia (ArrayObj rs)" "\<forall>r\<in>set rs. n \<le> r" "n \<le> ia"
              and i: "i = ia"
              by (auto simp add: fresh_ins_def dest: at_fun)
            from p have oa: "at h oa (ArrayObj newOuts)" "n \<le> oa" "oa \<noteq> ia"
              by simp_all
            from p rs(1) oa(1) have d: "ia \<noteq> t" "oa \<noteq> t"
              by (auto simp add: at_def)
            have "at (h[t := TxObj v l i oa]) t (TxObj v l ia oa)"
              using len i by (simp add: at_def)
            moreover have "at (h[t := TxObj v l i oa]) ia (ArrayObj rs)"
              using rs(1) d(1) by (rule at_update_other)
            moreover have "at (h[t := TxObj v l i oa]) oa (ArrayObj newOuts)"
              using oa(1) d(2) by (rule at_update_other)
            ultimately show "tmp_inv n (h[t := TxObj v l i oa]) t"
              unfolding tmp_inv_def using t rs(2,3) oa(2,3) by blast
          qed
        qed
      qed
      show "safe n (\<lambda>h. fresh_ins n t ia h \<and> (\<forall>y\<in>set newOuts. n \<le> y))
          (hbind (halloc (ArrayObj newOuts)) (\<lambda>outsArray.
           hbind (setOuts t outsArray) (\<lambda>_. hret t))) (\<lambda>t h. tmp_inv n h t)"
        by (rule safe_hbind [OF alloc], rule safe_hbind [OF set], rule safe_hret)
    qed
  qed
  have ins_part: "safe n (fresh_tx n t)
      (hbind (getTx this) (\<lambda>(_, _, thisIns, _).
       hbind (getArray thisIns) (\<lambda>txIns.
       hbind (mapM ?copyIn txIns) (\<lambda>newIns.
       hbind (halloc (ArrayObj newIns)) (\<lambda>insArray.
       hbind (setIns t insArray) (\<lambda>_.
       hbind (getTx this) (\<lambda>(_, _, _, thisOuts).
       hbind (getArray thisOuts) (\<lambda>txOuts.
       hbind (mapM ?copyOut txOuts) (\<lambda>newOuts.
       hbind (halloc (ArrayObj newOuts)) (\<lambda>outsArray.
       hbind (setOuts t outsArray) (\<lambda>_.
       hret t))))))))))) (\<lambda>t h. tmp_inv n h t)"
  proof (rule safe_read_getTx, simp only: prod.case, rule safe_read_getArray)
    fix thisIns :: ref and txIns :: "ref list"
    have copy: "safe n (fresh_tx n t) (mapM ?copyIn txIns)
        (\<lambda>ys h. fresh_tx n t h \<and> (\<forall>y\<in>set ys. n \<le> y))"
      by (rule safe_mapM, rule safe_copy_in) (rule fresh_tx_append)
    show "safe n (fresh_tx n t)
       (hbind (mapM ?copyIn txIns) (\<lambda>newIns.
        hbind (halloc (ArrayObj newIns)) (\<lambda>insArray.
        hbind (setIns t insArray) (\<lambda>_.
        hbind (getTx this) (\<lambda>(_, _, _, thisOuts).
        hbind (getArray thisOuts) (\<lambda>txOuts.
        hbind (mapM ?copyOut txOuts) (\<lambda>newOuts.
        hbind (halloc (ArrayObj newOuts)) (\<lambda>outsArray.
        hbind (setOuts t outsArray) (\<lambda>_.
        hret t))))))))) (\<lambda>t h. tmp_inv n h t)"
    proof (rule safe_hbind [OF copy])
      fix newIns :: "ref list"
      let ?R = "\<lambda>ia h. fresh_tx n t h \<and> at h ia (ArrayObj newIns) \<and> n \<le> ia \<and>
          (\<forall>y\<in>set newIns. n \<le> y)"
      have alloc: "safe n (\<lambda>h. fresh_tx n t h \<and> (\<forall>y\<in>set newIns. n \<le> y))
          (halloc (ArrayObj newIns)) ?R"
        by (rule safe_halloc) (simp add: fresh_tx_append at_new)
      have set: "safe n (?R ia) (setIns t ia) (\<lambda>_. fresh_ins n t ia)" for ia
        unfolding setIns_def
      proof (rule safe_hbind_getTx, simp only: prod.case)
        fix v l i a
        let ?P = "\<lambda>h. ?R ia h \<and> at h t (TxObj v l i a)"
        show "safe n ?P (hstore t (TxObj v l ia a)) (\<lambda>_. fresh_ins n t ia)"
        proof (rule safe_assume [where C = "n \<le> t"])
          show "n \<le> t" if "?P h" for h
            using that by (simp add: fresh_tx_def)
        next
          assume t: "n \<le> t"
          then show "safe n ?P (hstore t (TxObj v l ia a)) (\<lambda>_. fresh_ins n t ia)"
          proof (rule safe_hstore)
            fix h assume p: "?P h" and len: "t < length h"
            from p have ia: "at h ia (ArrayObj newIns)" "n \<le> ia" "\<forall>y\<in>set newIns. n \<le> y"
              by simp_all
            from p ia(1) have d: "ia \<noteq> t"
              by (auto simp add: at_def)
            have "at (h[t := TxObj v l ia a]) t (TxObj v l ia a)"
              using len by (simp add: at_def)
            moreover have "at (h[t := TxObj v l ia a]) ia (ArrayObj newIns)"
              using ia(1) d by (rule at_update_other)
            ultimately show "fresh_ins n t ia (h[t := TxObj v l ia a])"
              unfolding fresh_ins_def using t ia(2,3) by blast
          qed
        qed
      qed
      show "safe n (\<lambda>h. fresh_tx n t h \<and> (\<forall>y\<in>set newIns. n \<le> y))
         (hbind (halloc (ArrayObj newIns)) (\<lambda>insArray.
          hbind (setIns t insArray) (\<lambda>_.
          hbind (getTx this) (\<lambda>(_, _, _, thisOuts).
          hbind (getArray thisOuts) (\<lambda>txOuts.
          hbind (mapM ?copyOut txOuts) (\<lambda>newOuts.
          hbind (halloc (ArrayObj newOuts)) (\<lambda>outsArray.
          hbind (setOuts t outsArray) (\<lambda>_.
          hret t)))))))) (\<lambda>t h. tmp_inv n h t)"
        by (rule safe_hbind [OF alloc], rule safe_hbind [OF set], rule outs_part)
    qed
  qed
  show "safe n (fresh_tx n t)
     (hbind (getTx this) (\<lambda>(v, _, _, _).
      hbind (setVersion t v) (\<lambda>_.
      hbind (getTx this) (\<lambda>(_, l, _, _).
      hbind (setLocktime t l) (\<lambda>_.
      hbind (getTx this) (\<lambda>(_, _, thisIns, _).
      hbind (getArray thisIns) (\<lambda>txIns.
      hbind (mapM ?copyIn txIns) (\<lambda>newIns.
      hbind (halloc (ArrayObj newIns)) (\<lambda>insArray.
      hbind (setIns t insArray) (\<lambda>_.
      hbind (getTx this) (\<lambda>(_, _, _, thisOuts).
      hbind (getArray thisOuts) (\<lambda>txOuts.
      hbind (mapM ?copyOut txOuts) (\<lambda>newOuts.
      hbind (halloc (ArrayObj newOuts)) (\<lambda>outsArray.
      hbind (setOuts t outsArray) (\<lambda>_.
      hret t))))))))))))))) (\<lambda>t h. tmp_inv n h t)"
    by (rule safe_read_getTx, simp only: prod.case, rule safe_hbind [OF safe_setVersion],
        rule safe_read_getTx, simp only: prod.case, rule safe_hbind [OF safe_setLocktime],
        rule ins_part)
qed

theorem hashForSignature_heap_safe:
  "safe n (\<lambda>h. True)
     (hashForSignature_heap hash256 decompile compile blank this inIndex prevOutScript hashType)
     (\<lambda>_ h. True)"
  unfolding hashForSignature_heap_def
proof (rule safe_read_getTx, simp only: prod.case, rule safe_read_getArray, rule safe_if)
  fix txIns :: "ref list"
  show "safe n (\<lambda>h. True) (hret ONE) (\<lambda>_ h. True)"
    by (rule safe_hret) simp
next
  have built: "safe n (\<lambda>h. True)
     (hbind (clone_heap this) (\<lambda>txTmp.
      hbind (outputRule_heap blank this txTmp inIndex hashType) (\<lambda>proceed.
      if \<not> proceed then hret ONE
      else hbind (inputRule_heap txTmp inIndex script hashType)
             (\<lambda>_. serialize_heap hash256 txTmp hashType)))) (\<lambda>_ h. True)" for script
  proof (rule safe_hbind [OF safe_clone], rule safe_hbind [OF safe_outputRule], rule safe_if)
    fix txTmp
    show "safe n (\<lambda>h. tmp_inv n h txTmp) (hret ONE) (\<lambda>_ h. True)"
      by (rule safe_hret) simp
    show "safe n (\<lambda>h. tmp_inv n h txTmp)
        (hbind (inputRule_heap txTmp inIndex script hashType)
             (\<lambda>_. serialize_heap hash256 txTmp hashType)) (\<lambda>_ h. True)"
      by (rule safe_hbind [OF safe_inputRule], rule safe_serialize)
  qed
  show "safe n (\<lambda>h. True)
     (case ourScript decompile compile prevOutScript of
        Inl e \<Rightarrow> hfail e
      | Inr script \<Rightarrow>
          hbind (clone_heap this) (\<lambda>txTmp.
          hbind (outputRule_heap blank this txTmp inIndex hashType) (\<lambda>proceed.
          if \<not> proceed then hret ONE
          else hbind (inputRule_heap txTmp inIndex script hashType)
                 (\<lambda>_. serialize_heap hash256 txTmp hashType)))) (\<lambda>_ h. True)"
  proof (cases "ourScript decompile compile prevOutScript")
    case (Inl e)
    then show ?thesis
      by (simp add: safe_hfail)
  next
    case (Inr script)
    with built [of script] show ?thesis
      by simp
  qed
qed

lemma hashForSignature_heap_frame:
  assumes "hashForSignature_heap hash256 decompile compile blank this inIndex prevOutScript hashType h
     = (res, h')"
  shows "length h \<le> length h' \<and> take (length h) h' = h"
  using safeD(1) [OF hashForSignature_heap_safe _ _ assms, of "length h"]
  by (simp add: ext_def)

lemma those_map_mono:
  assumes "those (map f rs) = Some xs" "\<And>r x. r \<in> set rs \<Longrightarrow> f r = Some x \<Longrightarrow> g r = Some x"
  shows "those (map g rs) = Some xs"
  using assms
proof (induction rs arbitrary: xs)
  case Nil
  then show ?case by simp
next
  case (Cons r rs)
  from Cons.prems(1) obtain x ys where x: "f r = Some x" and ys: "those (map f rs) = Some ys"
    and xs: "xs = x # ys"
    by (auto split: option.splits)
  from Cons.prems(2) [of r x] x have "g r = Some x"
    by simp
  moreover from Cons.IH [OF ys] Cons.prems(2) have "those (map g rs) = Some ys"
    by simp
  ultimately show ?case
    by (simp add: xs)
qed

lemma read_in_append: "read_in h r = Some x \<Longrightarrow> read_in (h @ e) r = Some x"
  by (auto simp add: read_in_def nth_append split: if_splits obj.splits)

lemma read_out_append: "read_out h r = Some x \<Longrightarrow> read_out (h @ e) r = Some x"
  by (auto simp add: read_out_def nth_append split: if_splits obj.splits)

lemma read_array_append: "read_array h r = Some x \<Longrightarrow> read_array (h @ e) r = Some x"
  by (auto simp add: read_array_def nth_append split: if_splits obj.splits)

lemma read_tx_append:
  assumes "read_tx h t = Some T"
  shows "read_tx (h @ e) t = Some T"
proof -
  from assms obtain v l ia oa irs ors "is" os where
    t: "t < length h" "h ! t = TxObj v l ia oa"
    and a: "read_array h ia = Some irs" "read_array h oa = Some ors"
    and i: "those (map (read_in h) irs) = Some is"
    and o: "those (map (read_out h) ors) = Some os"
    and T: "T = \<lparr>version = v, locktime = l, ins = is, outs = os\<rparr>"
    by (auto simp add: read_tx_def split: if_splits obj.splits option.splits)
  from i have i': "those (map (read_in (h @ e)) irs) = Some is"
    by (rule those_map_mono) (rule read_in_append)
  from o have o': "those (map (read_out (h @ e)) ors) = Some os"
    by (rule those_map_mono) (rule read_out_append)
  from t a [THEN read_array_append, of e] i' o' T show ?thesis
    by (simp add: read_tx_def nth_append)
qed

lemma read_tx_frame:
  assumes "read_tx h t = Some T" "length h \<le> length h'" "take (length h) h' = h"
  shows "read_tx h' t = Some T"
proof -
  from assms(3) have "h' = h @ drop (length h) h'"
    by (metis append_take_drop_id)
  with read_tx_append [OF assms(1), of "drop (length h) h'"] show ?thesis
    by simp
qed


text \<open>
  C10. Neither signature hasher mutates the transaction it is called on. Let \<open>this\<close> be a
  transaction on the heap, read off as \<open>T\<close> (version, locktime, the inputs with hash, index,
  script, sequence and witness, the outputs). After \<open>hashForSignature\<close>, whatever it
  returns or throws, every object of the heap before the call is unchanged (the call only
  allocates, and assigns to objects it allocated: the clone), so \<open>this\<close> still reads as
  \<open>T\<close>; \<open>hashForWitnessV0\<close> leaves the heap as it was.
\<close>

theorem hashers_keep_transaction:
  assumes "read_tx h this = Some T"
  shows "take (length h)
           (snd (hashForSignature_heap hash256 decompile compile blank this inIndex prevOutScript
                   hashType h)) = h \<and>
         read_tx (snd (hashForSignature_heap hash256 decompile compile blank this inIndex
                         prevOutScript hashType h)) this = Some T \<and>
         snd (hashForWitnessV0_heap hash256 this inIndex prevOutScript amount hashType h) = h \<and>
         read_tx (snd (hashForWitnessV0_heap hash256 this inIndex prevOutScript amount hashType h))
           this = Some T"
proof -
  obtain res h' where run:
    "hashForSignature_heap hash256 decompile compile blank this inIndex prevOutScript hashType h
       = (res, h')"
    by (cases "hashForSignature_heap hash256 decompile compile blank this inIndex prevOutScript
        hashType h") blast
  from hashForSignature_heap_frame [OF run]
  have frame: "length h \<le> length h'" "take (length h) h' = h"
    by simp_all
  from read_tx_frame [OF assms frame] have kept: "read_tx h' this = Some T" .
  have w: "snd (hashForWitnessV0_heap hash256 this inIndex prevOutScript amount hashType h) = h"
    by (simp add: hashForWitnessV0_heap_def split: option.split sum.split)
  from frame(2) kept w assms show ?thesis
    by (simp add: run)
qed


lemma example_heap_tx: "read_tx example_heap 10 = Some example_tx"
  by (simp add: read_tx_def read_array_def read_in_def read_out_def example_heap_def example_defs)

text \<open>
  On the example heap the hasher over the heap returns what the hasher over the
  transaction value returns, for the base modes \<open>ALL\<close>, \<open>NONE\<close> and \<open>SINGLE\<close>, with
  \<open>ANYONECANPAY\<close>, on the first guard, on a script that does not decompile and on a hash
  type from \<open>2^31\<close> on (the identity stands for \<open>hash256\<close>, so the results compared are the
  buffers that are hashed).
\<close>

lemma example_heap_agrees:
  "fst (hashForSignature_heap (\<lambda>b. b) (\<lambda>s. Some []) (\<lambda>c. [0x51]) 0 10 1 [] 0x01 example_heap) =
     hashForSignature (\<lambda>b. b) (\<lambda>s. Some []) (\<lambda>c. [0x51]) example_tx 1 [] 0x01"
  "fst (hashForSignature_heap (\<lambda>b. b) (\<lambda>s. Some []) (\<lambda>c. [0x51]) 0 10 0 [] 0x02 example_heap) =
     hashForSignature (\<lambda>b. b) (\<lambda>s. Some []) (\<lambda>c. [0x51]) example_tx 0 [] 0x02"
  "fst (hashForSignature_heap (\<lambda>b. b) (\<lambda>s. Some []) (\<lambda>c. [0x51]) 0 10 1 [] 0x03 example_heap) =
     hashForSignature (\<lambda>b. b) (\<lambda>s. Some []) (\<lambda>c. [0x51]) example_tx 1 [] 0x03"
  "fst (hashForSignature_heap (\<lambda>b. b) (\<lambda>s. Some []) (\<lambda>c. [0x51]) 0 10 1 [] 0x83 example_heap) =
     hashForSignature (\<lambda>b. b) (\<lambda>s. Some []) (\<lambda>c. [0x51]) example_tx 1 [] 0x83"
  "fst (hashForSignature_heap (\<lambda>b. b) (\<lambda>s. Some []) (\<lambda>c. [0x51]) 0 10 2 [] 0x01 example_heap) =
     hashForSignature (\<lambda>b. b) (\<lambda>s. Some []) (\<lambda>c. [0x51]) example_tx 2 [] 0x01"
  "fst (hashForSignature_heap (\<lambda>b. b) (\<lambda>s. None) (\<lambda>c. [0x51]) 0 10 1 [0x02, 0x01] 0x03
          example_heap) =
     hashForSignature (\<lambda>b. b) (\<lambda>s. None) (\<lambda>c. [0x51]) example_tx 1 [0x02, 0x01] 0x03"
  "fst (hashForSignature_heap (\<lambda>b. b) (\<lambda>s. Some []) (\<lambda>c. [0x51]) 0 10 1 [] 0x80000001
          example_heap) =
     hashForSignature (\<lambda>b. b) (\<lambda>s. Some []) (\<lambda>c. [0x51]) example_tx 1 [] 0x80000001"
  by code_simp+

theorem hashers_keep_transaction_witness:
  "read_tx example_heap 10 = Some example_tx \<and>
   take (length example_heap)
     (snd (hashForSignature_heap (\<lambda>b. b) (\<lambda>s. Some []) (\<lambda>c. [0x51]) 0 10 1 [] 0x83
             example_heap))
     = example_heap \<and>
   read_tx (snd (hashForSignature_heap (\<lambda>b. b) (\<lambda>s. Some []) (\<lambda>c. [0x51]) 0 10 1 [] 0x83
                   example_heap)) 10 = Some example_tx \<and>
   snd (hashForWitnessV0_heap (\<lambda>b. b) 10 1 [] 2000 0x83 example_heap) = example_heap"
  using hashers_keep_transaction [OF example_heap_tx,
      of "\<lambda>b. b" "\<lambda>s. Some []" "\<lambda>c. [0x51]" 0 1 "[]" "0x83" 2000]
    example_heap_tx
  by simp

section \<open>The program on the heap computes the function on values\<close>

text \<open>
  The heap model of \<open>hashForSignature\<close> runs the source's statements on objects; the
  function \<open>hashForSignature\<close> of the legacy section computes on values. This section shows
  that they agree: every mutation of the temporary transaction on the heap is the update of
  the value that the function makes.
\<close>

subsection \<open>Rules for total correctness\<close>

lemma totalI:
  assumes "\<And>h. n \<le> length h \<Longrightarrow> P h \<Longrightarrow> \<exists>x h'. m h = (Inr x, h') \<and> ext n h h' \<and> Q x h'"
  shows "total n P m Q"
  using assms unfolding total_def by blast

lemma totalD:
  assumes "total n P m Q" "n \<le> length h" "P h"
  obtains x h' where "m h = (Inr x, h')" "ext n h h'" "Q x h'"
  using assms unfolding total_def by blast

lemma total_hret: "(\<And>h. P h \<Longrightarrow> Q x h) \<Longrightarrow> total n P (hret x) Q"
  by (rule totalI) (simp add: hret_def)

lemma total_hbind:
  assumes m: "total n P m R" and f: "\<And>x. total n (R x) (f x) Q"
  shows "total n P (hbind m f) Q"
proof (rule totalI)
  fix h assume n: "n \<le> length h" and P: "P h"
  from totalD [OF m n P] obtain x h1 where 1: "m h = (Inr x, h1)" "ext n h h1" "R x h1"
    by blast
  from 1(2) n have n1: "n \<le> length h1"
    by (simp add: ext_def)
  from totalD [OF f n1 1(3)] obtain y h2 where 2: "f x h1 = (Inr y, h2)" "ext n h1 h2" "Q y h2"
    by blast
  from 1 2 have "hbind m f h = (Inr y, h2)"
    by (simp add: hbind_def)
  moreover from 1(2) 2(2) have "ext n h h2"
    by (rule ext_trans)
  ultimately show "\<exists>x h'. hbind m f h = (Inr x, h') \<and> ext n h h' \<and> Q x h'"
    using 2(3) by blast
qed

lemma total_weaken:
  assumes "total n P' m Q'" "\<And>h. P h \<Longrightarrow> P' h" "\<And>x h. Q' x h \<Longrightarrow> Q x h"
  shows "total n P m Q"
  using assms unfolding total_def by blast

lemma total_pre:
  assumes "total n P' m Q" "\<And>h. P h \<Longrightarrow> P' h"
  shows "total n P m Q"
  using assms unfolding total_def by blast

lemma total_post:
  assumes "total n P m Q'" "\<And>x h. Q' x h \<Longrightarrow> Q x h"
  shows "total n P m Q"
  using assms unfolding total_def by blast

lemma total_assume:
  assumes "\<And>h. P h \<Longrightarrow> C" "C \<Longrightarrow> total n P m Q"
  shows "total n P m Q"
  using assms unfolding total_def by blast

lemma total_keep:
  assumes "total n P m Q" "\<And>h h'. K h \<Longrightarrow> n \<le> length h \<Longrightarrow> ext n h h' \<Longrightarrow> K h'"
  shows "total n (\<lambda>h. P h \<and> K h) m (\<lambda>x h. Q x h \<and> K h)"
  using assms unfolding total_def by blast

lemma total_getTx:
  assumes "\<And>h. P h \<Longrightarrow> at h r (TxObj v l i a)" "total n P (f (v, l, i, a)) Q"
  shows "total n P (hbind (getTx r) f) Q"
proof (rule total_hbind [where R = "\<lambda>x h. x = (v, l, i, a) \<and> P h"])
  show "total n P (getTx r) (\<lambda>x h. x = (v, l, i, a) \<and> P h)"
    using assms(1)
    by (intro totalI) (auto simp add: getTx_def hbind_def hload_def hret_def at_def)
next
  fix x
  show "total n (\<lambda>h. x = (v, l, i, a) \<and> P h) (f x) Q"
    by (rule total_assume [where C = "x = (v, l, i, a)"]) (auto intro: total_pre [OF assms(2)])
qed

lemma total_getArray:
  assumes "\<And>h. P h \<Longrightarrow> at h r (ArrayObj rs)" "total n P (f rs) Q"
  shows "total n P (hbind (getArray r) f) Q"
proof (rule total_hbind [where R = "\<lambda>x h. x = rs \<and> P h"])
  show "total n P (getArray r) (\<lambda>x h. x = rs \<and> P h)"
    using assms(1)
    by (intro totalI) (auto simp add: getArray_def hbind_def hload_def hret_def at_def)
next
  fix x
  show "total n (\<lambda>h. x = rs \<and> P h) (f x) Q"
    by (rule total_assume [where C = "x = rs"]) (auto intro: total_pre [OF assms(2)])
qed

lemma total_getIn:
  assumes "\<And>h. P h \<Longrightarrow> at h r (InObj hs i s q w)" "total n P (f (hs, i, s, q, w)) Q"
  shows "total n P (hbind (getIn r) f) Q"
proof (rule total_hbind [where R = "\<lambda>x h. x = (hs, i, s, q, w) \<and> P h"])
  show "total n P (getIn r) (\<lambda>x h. x = (hs, i, s, q, w) \<and> P h)"
    using assms(1)
    by (intro totalI) (auto simp add: getIn_def hbind_def hload_def hret_def at_def)
next
  fix x
  show "total n (\<lambda>h. x = (hs, i, s, q, w) \<and> P h) (f x) Q"
    by (rule total_assume [where C = "x = (hs, i, s, q, w)"]) (auto intro: total_pre [OF assms(2)])
qed

lemma total_halloc:
  assumes "\<And>h. n \<le> length h \<Longrightarrow> P h \<Longrightarrow> Q (length h) (h @ [x])"
  shows "total n P (halloc x) Q"
  using assms by (intro totalI) (simp add: halloc_def ext_append)

lemma total_hstore:
  assumes "n \<le> r" "\<And>h. P h \<Longrightarrow> r < length h \<and> Q () (h[r := x])"
  shows "total n P (hstore r x) Q"
  using assms by (intro totalI) (simp add: hstore_def ext_update)

subsection \<open>Reading the temporary transaction after a store\<close>

lemma those_map_Some_iff:
  "those (map f rs) = Some xs \<longleftrightarrow>
   length xs = length rs \<and> (\<forall>j<length rs. f (rs ! j) = Some (xs ! j))"
proof (induction rs arbitrary: xs)
  case Nil
  show ?case by auto
next
  case (Cons r rs)
  show ?case
  proof (cases "f r")
    case None
    then show ?thesis
      by (auto simp add: nth_Cons split: nat.splits)
  next
    case (Some x)
    show ?thesis
    proof (cases xs)
      case Nil
      then show ?thesis
        by (simp add: Some split: option.splits)
    next
      case (Cons y ys)
      show ?thesis
        unfolding Cons
        by (auto simp add: Some Cons.IH [of ys] nth_Cons less_Suc_eq_0_disj split: option.splits nat.splits)
    qed
  qed
qed

lemma read_in_Some:
  "read_in h r = Some x \<longleftrightarrow>
   (\<exists>w. at h r (InObj (in_hash x) (in_index x) (in_script x) (in_sequence x) w) \<and>
        at h w (WitnessObj (in_witness x)))"
  by (cases x) (auto simp add: read_in_def at_def split: obj.splits)

lemma read_out_Some: "read_out h r = Some x \<longleftrightarrow> at h r (OutObj x)"
  by (auto simp add: read_out_def at_def split: obj.splits)

lemma at_update:
  "at (h[r := y]) r' x \<longleftrightarrow> r' < length h \<and> (if r' = r then x = y else h ! r' = x)"
  by (auto simp add: at_def)

lemma read_in_update_other:
  assumes "read_in h r' = Some x" "at h r (InObj hs i s q w)" "r' \<noteq> r"
  shows "read_in (h[r := InObj hs' i' s' q' w']) r' = Some x"
proof -
  from assms(1) obtain w0 where
    a: "at h r' (InObj (in_hash x) (in_index x) (in_script x) (in_sequence x) w0)"
      "at h w0 (WitnessObj (in_witness x))"
    unfolding read_in_Some by blast
  from a(2) assms(2) have "w0 \<noteq> r"
    by (auto simp add: at_def)
  with a assms(3) show ?thesis
    unfolding read_in_Some by (auto simp add: at_update at_def)
qed

lemma read_in_update_same:
  assumes "read_in h r = Some x" "at h r (InObj hs i s q w)"
  shows "read_in (h[r := InObj hs' i' s' q' w]) r =
     Some \<lparr>in_hash = hs', in_index = i', in_script = s', in_sequence = q', in_witness = in_witness x\<rparr>"
proof -
  from assms(1) obtain w0 where
    a: "at h r (InObj (in_hash x) (in_index x) (in_script x) (in_sequence x) w0)"
      "at h w0 (WitnessObj (in_witness x))"
    unfolding read_in_Some by blast
  from a(1) assms(2) have w: "w0 = w"
    by (auto simp add: at_def)
  from a(2) assms(2) have "w0 \<noteq> r"
    by (auto simp add: at_def)
  with a w show ?thesis
    unfolding read_in_Some by (auto simp add: at_update at_def)
qed

lemma read_out_update_in:
  assumes "read_out h e = Some x" "at h r (InObj hs i s q w)"
  shows "read_out (h[r := InObj hs' i' s' q' w']) e = Some x"
proof -
  from assms have "e \<noteq> r"
    unfolding read_out_Some by (auto simp add: at_def)
  with assms show ?thesis
    unfolding read_out_Some by (auto simp add: at_def)
qed

lemma read_in_update_struct:
  assumes "read_in h r' = Some x" "at h r y" "(\<exists>v l i a. y = TxObj v l i a) \<or> (\<exists>rs. y = ArrayObj rs)"
  shows "read_in (h[r := z]) r' = Some x"
proof -
  from assms(1) obtain w0 where
    a: "at h r' (InObj (in_hash x) (in_index x) (in_script x) (in_sequence x) w0)"
      "at h w0 (WitnessObj (in_witness x))"
    unfolding read_in_Some by blast
  from a assms(2,3) have "w0 \<noteq> r" "r' \<noteq> r"
    by (auto simp add: at_def)
  with a show ?thesis
    unfolding read_in_Some by (auto simp add: at_update at_def)
qed

lemma read_out_update_struct:
  assumes "read_out h e = Some x" "at h r y" "(\<exists>v l i a. y = TxObj v l i a) \<or> (\<exists>rs. y = ArrayObj rs)"
  shows "read_out (h[r := z]) e = Some x"
proof -
  from assms have "e \<noteq> r"
    unfolding read_out_Some by (auto simp add: at_def)
  with assms show ?thesis
    unfolding read_out_Some by (auto simp add: at_def)
qed

lemma tmp_at_update_in:
  assumes inv: "tmp_at n t ia oa rs es X h" and j: "j < length rs"
    and r: "at h (rs ! j) (InObj hs i s q w)"
  shows "tmp_at n t ia oa rs es
     (X\<lparr>ins := (ins X)[j := \<lparr>in_hash = hs', in_index = i', in_script = s', in_sequence = q',
                               in_witness = in_witness (ins X ! j)\<rparr>]\<rparr>)
     (h[rs ! j := InObj hs' i' s' q' w])"
proof -
  let ?h = "h[rs ! j := InObj hs' i' s' q' w]"
  let ?x = "\<lparr>in_hash = hs', in_index = i', in_script = s', in_sequence = q',
      in_witness = in_witness (ins X ! j)\<rparr>"
  from inv have s: "n \<le> t" "at h t (TxObj (version X) (locktime X) ia oa)" "n \<le> ia" "n \<le> oa"
    "ia \<noteq> oa" "at h ia (ArrayObj rs)" "at h oa (ArrayObj es)" "\<forall>r\<in>set rs. n \<le> r" "distinct rs"
    and i: "length (ins X) = length rs" "\<And>k. k < length rs \<Longrightarrow> read_in h (rs ! k) = Some (ins X ! k)"
    and o: "length (outs X) = length es" "\<And>k. k < length es \<Longrightarrow> read_out h (es ! k) = Some (outs X ! k)"
    unfolding tmp_at_def those_map_Some_iff by simp_all
  from r s(2,6,7) have d: "t \<noteq> rs ! j" "ia \<noteq> rs ! j" "oa \<noteq> rs ! j"
    by (auto simp add: at_def)
  have ins': "read_in ?h (rs ! k) = Some ((ins X)[j := ?x] ! k)" if k: "k < length rs" for k
  proof (cases "k = j")
    case True
    from read_in_update_same [OF i(2) [OF j] r, of hs' i' s' q'] show ?thesis
      using True j i(1) by simp
  next
    case False
    with s(9) k j have "rs ! k \<noteq> rs ! j"
      by (simp add: nth_eq_iff_index_eq)
    from read_in_update_other [OF i(2) [OF k] r this, of hs' i' s' q' w] show ?thesis
      using False by simp
  qed
  have outs': "read_out ?h (es ! k) = Some (outs X ! k)" if k: "k < length es" for k
    using read_out_update_in [OF o(2) [OF k] r] .
  show ?thesis
    unfolding tmp_at_def those_map_Some_iff
    using s d i(1) o(1) ins' outs' by (auto simp add: at_update at_def)
qed

subsection \<open>The loops over the inputs\<close>

lemma total_obtain:
  assumes "\<And>h. P h \<Longrightarrow> \<exists>y. R y h" "\<And>y. total n (\<lambda>h. P h \<and> R y h) m Q"
  shows "total n P m Q"
  using assms unfolding total_def by blast

lemma tmp_at_in:
  assumes "tmp_at n t ia oa rs es X h" "j < length rs"
  shows "\<exists>w. at h (rs ! j) (InObj (in_hash (ins X ! j)) (in_index (ins X ! j))
            (in_script (ins X ! j)) (in_sequence (ins X ! j)) w)"
  using assms unfolding tmp_at_def those_map_Some_iff read_in_Some by blast

lemma tmp_at_fresh: "tmp_at n t ia oa rs es X h \<Longrightarrow> \<forall>r\<in>set rs. n \<le> r"
  by (simp add: tmp_at_def)

lemma tmp_at_length: "tmp_at n t ia oa rs es X h \<Longrightarrow> length (ins X) = length rs"
  by (simp add: tmp_at_def those_map_Some_iff)

lemma tmp_at_tx: "tmp_at n t ia oa rs es X h \<Longrightarrow> at h t (TxObj (version X) (locktime X) ia oa)"
  by (simp add: tmp_at_def)

lemma tmp_at_ins: "tmp_at n t ia oa rs es X h \<Longrightarrow> at h ia (ArrayObj rs)"
  by (simp add: tmp_at_def)

lemma tmp_at_outs: "tmp_at n t ia oa rs es X h \<Longrightarrow> at h oa (ArrayObj es)"
  by (simp add: tmp_at_def)

lemma total_setSequence:
  assumes j: "j < length rs"
  shows "total n (tmp_at n t ia oa rs es X) (setSequence (rs ! j) q)
     (\<lambda>_. tmp_at n t ia oa rs es (X\<lparr>ins := (ins X)[j := (ins X ! j)\<lparr>in_sequence := q\<rparr>]\<rparr>))"
proof (rule total_obtain [OF tmp_at_in [OF _ j]], assumption)
  fix w
  let ?x = "ins X ! j"
  let ?P = "\<lambda>h. tmp_at n t ia oa rs es X h \<and>
      at h (rs ! j) (InObj (in_hash ?x) (in_index ?x) (in_script ?x) (in_sequence ?x) w)"
  have eq: "\<lparr>in_hash = in_hash ?x, in_index = in_index ?x, in_script = in_script ?x,
      in_sequence = q, in_witness = in_witness ?x\<rparr> = ?x\<lparr>in_sequence := q\<rparr>"
    by simp
  show "total n ?P (setSequence (rs ! j) q)
     (\<lambda>_. tmp_at n t ia oa rs es (X\<lparr>ins := (ins X)[j := ?x\<lparr>in_sequence := q\<rparr>]\<rparr>))"
    unfolding setSequence_def
  proof (rule total_getIn [where P = ?P], erule conjunct2, simp only: prod.case,
      rule total_assume [where C = "n \<le> rs ! j"])
    show "n \<le> rs ! j" if "?P h" for h
      using that j by (auto dest: tmp_at_fresh)
  next
    assume "n \<le> rs ! j"
    then show "total n ?P
        (hstore (rs ! j) (InObj (in_hash ?x) (in_index ?x) (in_script ?x) q w))
        (\<lambda>_. tmp_at n t ia oa rs es (X\<lparr>ins := (ins X)[j := ?x\<lparr>in_sequence := q\<rparr>]\<rparr>))"
    proof (rule total_hstore)
      fix h assume p: "?P h"
      then have "rs ! j < length h"
        by (simp add: at_def)
      moreover from p tmp_at_update_in [OF _ j, of n t ia oa es X h "in_hash ?x" "in_index ?x"
          "in_script ?x" "in_sequence ?x" w "in_hash ?x" "in_index ?x" "in_script ?x" q]
      have "tmp_at n t ia oa rs es (X\<lparr>ins := (ins X)[j := ?x\<lparr>in_sequence := q\<rparr>]\<rparr>)
          (h[rs ! j := InObj (in_hash ?x) (in_index ?x) (in_script ?x) q w])"
        unfolding eq by blast
      ultimately show "rs ! j < length h \<and>
          tmp_at n t ia oa rs es (X\<lparr>ins := (ins X)[j := ?x\<lparr>in_sequence := q\<rparr>]\<rparr>)
            (h[rs ! j := InObj (in_hash ?x) (in_index ?x) (in_script ?x) q w])"
        by blast
    qed
  qed
qed

lemma total_setScript:
  assumes j: "j < length rs"
  shows "total n (tmp_at n t ia oa rs es X) (setScript (rs ! j) s)
     (\<lambda>_. tmp_at n t ia oa rs es (X\<lparr>ins := (ins X)[j := (ins X ! j)\<lparr>in_script := s\<rparr>]\<rparr>))"
proof (rule total_obtain [OF tmp_at_in [OF _ j]], assumption)
  fix w
  let ?x = "ins X ! j"
  let ?P = "\<lambda>h. tmp_at n t ia oa rs es X h \<and>
      at h (rs ! j) (InObj (in_hash ?x) (in_index ?x) (in_script ?x) (in_sequence ?x) w)"
  have eq: "\<lparr>in_hash = in_hash ?x, in_index = in_index ?x, in_script = s,
      in_sequence = in_sequence ?x, in_witness = in_witness ?x\<rparr> = ?x\<lparr>in_script := s\<rparr>"
    by simp
  show "total n ?P (setScript (rs ! j) s)
     (\<lambda>_. tmp_at n t ia oa rs es (X\<lparr>ins := (ins X)[j := ?x\<lparr>in_script := s\<rparr>]\<rparr>))"
    unfolding setScript_def
  proof (rule total_getIn [where P = ?P], erule conjunct2, simp only: prod.case,
      rule total_assume [where C = "n \<le> rs ! j"])
    show "n \<le> rs ! j" if "?P h" for h
      using that j by (auto dest: tmp_at_fresh)
  next
    assume "n \<le> rs ! j"
    then show "total n ?P
        (hstore (rs ! j) (InObj (in_hash ?x) (in_index ?x) s (in_sequence ?x) w))
        (\<lambda>_. tmp_at n t ia oa rs es (X\<lparr>ins := (ins X)[j := ?x\<lparr>in_script := s\<rparr>]\<rparr>))"
    proof (rule total_hstore)
      fix h assume p: "?P h"
      then have "rs ! j < length h"
        by (simp add: at_def)
      moreover from p tmp_at_update_in [OF _ j, of n t ia oa es X h "in_hash ?x" "in_index ?x"
          "in_script ?x" "in_sequence ?x" w "in_hash ?x" "in_index ?x" s "in_sequence ?x"]
      have "tmp_at n t ia oa rs es (X\<lparr>ins := (ins X)[j := ?x\<lparr>in_script := s\<rparr>]\<rparr>)
          (h[rs ! j := InObj (in_hash ?x) (in_index ?x) s (in_sequence ?x) w])"
        unfolding eq by blast
      ultimately show "rs ! j < length h \<and>
          tmp_at n t ia oa rs es (X\<lparr>ins := (ins X)[j := ?x\<lparr>in_script := s\<rparr>]\<rparr>)
            (h[rs ! j := InObj (in_hash ?x) (in_index ?x) s (in_sequence ?x) w])"
        by blast
    qed
  qed
qed

lemma length_upd_from [simp]: "length (upd_from j g xs) = length xs"
  by (simp add: upd_from_def)

lemma nth_upd_from:
  "i < length xs \<Longrightarrow> upd_from j g xs ! i = (if j \<le> i then g i (xs ! i) else xs ! i)"
  by (simp add: upd_from_def nth_enumerate_eq)

lemma upd_from_all: "length xs \<le> j \<Longrightarrow> upd_from j g xs = xs"
  by (rule nth_equalityI) (simp_all add: nth_upd_from)

lemma upd_from_step:
  "j < length xs \<Longrightarrow> upd_from (Suc j) g (xs[j := g j (xs ! j)]) = upd_from j g xs"
proof (rule nth_equalityI)
  show "length (upd_from (Suc j) g (xs[j := g j (xs ! j)])) = length (upd_from j g xs)"
    by simp
next
  fix i assume "j < length xs" and "i < length (upd_from (Suc j) g (xs[j := g j (xs ! j)]))"
  then have i: "i < length xs"
    by simp
  consider "i < j" | "i = j" | "j < i"
    by linarith
  then show "upd_from (Suc j) g (xs[j := g j (xs ! j)]) ! i = upd_from j g xs ! i"
    using i by cases (simp_all add: nth_upd_from)
qed

lemma total_forEach_ins:
  assumes step: "\<And>j X. j < length rs \<Longrightarrow>
      total n (tmp_at n t ia oa rs es X) (f (rs ! j) j)
        (\<lambda>_. tmp_at n t ia oa rs es (X\<lparr>ins := (ins X)[j := g j (ins X ! j)]\<rparr>))"
  shows "j \<le> length rs \<Longrightarrow>
     total n (tmp_at n t ia oa rs es X) (forEach f j (drop j rs))
       (\<lambda>_. tmp_at n t ia oa rs es (X\<lparr>ins := upd_from j g (ins X)\<rparr>))"
proof (induction "length rs - j" arbitrary: j X)
  case 0
  then have "drop j rs = []"
    by simp
  moreover have "total n (tmp_at n t ia oa rs es X) (hret ())
       (\<lambda>_. tmp_at n t ia oa rs es (X\<lparr>ins := upd_from j g (ins X)\<rparr>))"
  proof (rule total_assume [where C = "length (ins X) = length rs"])
    show "length (ins X) = length rs" if "tmp_at n t ia oa rs es X h" for h
      using that by (rule tmp_at_length)
  next
    assume "length (ins X) = length rs"
    with 0 have "upd_from j g (ins X) = ins X"
      by (simp add: upd_from_all)
    then show ?thesis
      by (simp add: total_hret)
  qed
  ultimately show ?case
    by simp
next
  case (Suc m)
  then have j: "j < length rs"
    by simp
  then have d: "drop j rs = rs ! j # drop (Suc j) rs"
    by (simp add: Cons_nth_drop_Suc)
  let ?X1 = "X\<lparr>ins := (ins X)[j := g j (ins X ! j)]\<rparr>"
  from Suc(2) j have m: "m = length rs - Suc j" and sj: "Suc j \<le> length rs"
    by simp_all
  have rest: "total n (tmp_at n t ia oa rs es ?X1) (forEach f (Suc j) (drop (Suc j) rs))
       (\<lambda>_. tmp_at n t ia oa rs es (X\<lparr>ins := upd_from j g (ins X)\<rparr>))"
  proof (rule total_assume [where C = "length (ins X) = length rs"])
    show "length (ins X) = length rs" if "tmp_at n t ia oa rs es ?X1 h" for h
      using tmp_at_length [OF that] by simp
  next
    assume "length (ins X) = length rs"
    with j have "upd_from (Suc j) g (ins ?X1) = upd_from j g (ins X)"
      by (simp add: upd_from_step)
    with Suc(1) [OF m sj, of ?X1] show ?thesis
      by simp
  qed
  show ?case
    unfolding d forEach.simps
    by (rule total_hbind [OF step [OF j]]) (rule rest)
qed

lemma ignoreSequences_upd_from:
  "ignoreSequences k xs = upd_from 0 (\<lambda>i x. if i = k then x else x\<lparr>in_sequence := 0\<rparr>) xs"
  by (simp add: ignoreSequences_def upd_from_def)

lemma total_ignoreSequences:
  "total n (tmp_at n t ia oa rs es X) (ignoreSequences_heap t k)
     (\<lambda>_. tmp_at n t ia oa rs es (X\<lparr>ins := ignoreSequences k (ins X)\<rparr>))"
  unfolding ignoreSequences_heap_def
proof (rule total_getTx [OF tmp_at_tx], assumption, simp only: prod.case,
    rule total_getArray [OF tmp_at_ins], assumption)
  let ?f = "\<lambda>input i. if i = k then hret () else setSequence input 0"
  let ?g = "\<lambda>i x. if i = k then x else x\<lparr>in_sequence := 0\<rparr>"
  have step: "total n (tmp_at n t ia oa rs es X) (?f (rs ! j) j)
        (\<lambda>_. tmp_at n t ia oa rs es (X\<lparr>ins := (ins X)[j := ?g j (ins X ! j)]\<rparr>))"
    if "j < length rs" for j X
  proof (cases "j = k")
    case True
    then show ?thesis
      by (simp add: total_hret)
  next
    case False
    with total_setSequence [OF that, of n t ia oa es X 0] show ?thesis
      by simp
  qed
  from total_forEach_ins [of rs n t ia oa es ?f ?g 0 X, OF step]
  show "total n (tmp_at n t ia oa rs es X) (forEach ?f 0 rs)
     (\<lambda>_. tmp_at n t ia oa rs es (X\<lparr>ins := ignoreSequences k (ins X)\<rparr>))"
    by (simp add: ignoreSequences_upd_from)
qed

subsection \<open>The output rule\<close>

lemma old_ext: "old h0 h \<Longrightarrow> ext (length h0) h h' \<Longrightarrow> old h0 h'"
  by (simp add: old_def ext_def)

lemma old_at: "old h0 h \<Longrightarrow> at h0 r x \<Longrightarrow> at h r x"
  unfolding old_def at_def by (metis nth_take order_less_le_trans)

lemma old_append: "old h0 h \<Longrightarrow> \<exists>e. h = h0 @ e"
  unfolding old_def by (metis append_take_drop_id)

lemma old_read_in: "old h0 h \<Longrightarrow> read_in h0 r = Some x \<Longrightarrow> read_in h r = Some x"
  using old_append read_in_append by blast

lemma old_read_out: "old h0 h \<Longrightarrow> read_out h0 r = Some x \<Longrightarrow> read_out h r = Some x"
  using old_append read_out_append by blast

lemma total_old:
  assumes "total (length h0) P m Q"
  shows "total (length h0) (\<lambda>h. P h \<and> old h0 h) m (\<lambda>x h. Q x h \<and> old h0 h)"
  by (rule total_keep [OF assms]) (rule old_ext)

lemma tmp_at_append: "tmp_at n t ia oa rs es X h \<Longrightarrow> tmp_at n t ia oa rs es X (h @ [x])"
  unfolding tmp_at_def
  by (auto intro: at_append those_map_mono [where f = "read_in h"]
      those_map_mono [where f = "read_out h"] read_in_append read_out_append)

lemma tmp_at_update_outs:
  assumes inv: "tmp_at n t ia oa rs es X h" and os: "those (map (read_out h) es') = Some os'"
  shows "tmp_at n t ia oa rs es' (X\<lparr>outs := os'\<rparr>) (h[oa := ArrayObj es'])"
proof -
  from inv have s: "n \<le> t" "at h t (TxObj (version X) (locktime X) ia oa)" "n \<le> ia" "n \<le> oa"
    "ia \<noteq> oa" "at h ia (ArrayObj rs)" "at h oa (ArrayObj es)" "\<forall>r\<in>set rs. n \<le> r" "distinct rs"
    and i: "those (map (read_in h) rs) = Some (ins X)"
    unfolding tmp_at_def by simp_all
  from s(2,7) have d: "t \<noteq> oa"
    by (auto simp add: at_def)
  have i': "those (map (read_in (h[oa := ArrayObj es'])) rs) = Some (ins X)"
    using i by (rule those_map_mono) (rule read_in_update_struct [OF _ s(7)], auto)
  have o': "those (map (read_out (h[oa := ArrayObj es'])) es') = Some os'"
    using os by (rule those_map_mono) (rule read_out_update_struct [OF _ s(7)], auto)
  show ?thesis
    unfolding tmp_at_def using s d i' o' by (auto simp add: at_update at_def)
qed

lemma tmp_at_new_outs:
  assumes inv: "tmp_at n t ia oa rs es X h" and e: "at h e (ArrayObj [])" "n \<le> e" "e \<noteq> ia"
  shows "tmp_at n t ia e rs [] (X\<lparr>outs := []\<rparr>) (h[t := TxObj (version X) (locktime X) ia e])"
proof -
  from inv have s: "n \<le> t" "at h t (TxObj (version X) (locktime X) ia oa)" "n \<le> ia"
    "at h ia (ArrayObj rs)" "\<forall>r\<in>set rs. n \<le> r" "distinct rs"
    and i: "those (map (read_in h) rs) = Some (ins X)"
    unfolding tmp_at_def by simp_all
  from s(2,4) e(1) have d: "t \<noteq> ia" "t \<noteq> e"
    by (auto simp add: at_def)
  have i': "those (map (read_in (h[t := TxObj (version X) (locktime X) ia e])) rs) = Some (ins X)"
    using i by (rule those_map_mono) (rule read_in_update_struct [OF _ s(2)], auto)
  show ?thesis
    unfolding tmp_at_def using s d e i' by (auto simp add: at_update at_def)
qed

lemma those_take:
  "those (map f xs) = Some ys \<Longrightarrow> those (map f (take m xs)) = Some (take m ys)"
  unfolding those_map_Some_iff by auto

lemma those_list_update:
  "those (map f xs) = Some ys \<Longrightarrow> f b = Some y \<Longrightarrow>
   those (map f (xs[i := b])) = Some (ys[i := y])"
  unfolding those_map_Some_iff
proof (intro conjI allI impI)
  assume a: "length ys = length xs \<and> (\<forall>j<length xs. f (xs ! j) = Some (ys ! j))" and b: "f b = Some y"
  from a show "length (ys[i := y]) = length (xs[i := b])"
    by simp
  fix j assume "j < length (xs[i := b])"
  with a b show "f (xs[i := b] ! j) = Some (ys[i := y] ! j)"
    by (cases "i = j") simp_all
qed

lemma total_setElements_outs:
  assumes "\<And>h. P h \<Longrightarrow> tmp_at n t ia oa rs es X h \<and> those (map (read_out h) es') = Some os'"
    and "\<And>h. P h \<Longrightarrow> tmp_at n t ia oa rs es' (X\<lparr>outs := os'\<rparr>) (h[oa := ArrayObj es']) \<Longrightarrow>
       Q () (h[oa := ArrayObj es'])"
  shows "total n P (setElements oa es') Q"
  unfolding setElements_def
proof (rule total_getArray [where rs = es])
  show "at h oa (ArrayObj es)" if "P h" for h
    using assms(1) [OF that] by (blast dest: tmp_at_outs)
  show "total n P (hstore oa (ArrayObj es')) Q"
  proof (rule total_assume [where C = "n \<le> oa"])
    show "n \<le> oa" if "P h" for h
      using assms(1) [OF that] by (simp add: tmp_at_def)
  next
    assume "n \<le> oa"
    then show "total n P (hstore oa (ArrayObj es')) Q"
    proof (rule total_hstore)
      fix h assume p: "P h"
      from assms(1) [OF p] have inv: "tmp_at n t ia oa rs es X h"
        and os: "those (map (read_out h) es') = Some os'"
        by simp_all
      from inv have "oa < length h"
        by (simp add: tmp_at_def at_def)
      with assms(2) [OF p tmp_at_update_outs [OF inv os]]
      show "oa < length h \<and> Q () (h[oa := ArrayObj es'])"
        by simp
    qed
  qed
qed

lemma total_blankOutputs:
  "total n (\<lambda>h. tmp_at n t ia oa rs es X h \<and> at h blank (OutObj BLANK_OUTPUT))
     (forRange (\<lambda>i.
        hbind (getTx t) (\<lambda>(_, _, _, tmpOuts).
        hbind (getArray tmpOuts) (\<lambda>elems.
        setElements tmpOuts (elems[i := blank])))) js)
     (\<lambda>_ h. tmp_at n t ia oa rs (foldl (\<lambda>e i. e[i := blank]) es js)
              (X\<lparr>outs := foldl (\<lambda>os i. os[i := BLANK_OUTPUT]) (outs X) js\<rparr>) h \<and>
            at h blank (OutObj BLANK_OUTPUT))"
proof (induction js arbitrary: es X)
  case Nil
  show ?case
    by (simp add: total_hret)
next
  case (Cons i js)
  let ?P = "\<lambda>h. tmp_at n t ia oa rs es X h \<and> at h blank (OutObj BLANK_OUTPUT)"
  let ?es1 = "es[i := blank]"
  let ?X1 = "X\<lparr>outs := (outs X)[i := BLANK_OUTPUT]\<rparr>"
  let ?R = "\<lambda>h. tmp_at n t ia oa rs ?es1 ?X1 h \<and> at h blank (OutObj BLANK_OUTPUT)"
  have step: "total n ?P
      (hbind (getTx t) (\<lambda>(_, _, _, tmpOuts).
        hbind (getArray tmpOuts) (\<lambda>elems.
        setElements tmpOuts (elems[i := blank])))) (\<lambda>_. ?R)"
  proof (rule total_getTx [where P = ?P], erule conjunct1 [THEN tmp_at_tx], simp only: prod.case,
      rule total_getArray [where P = ?P], erule conjunct1 [THEN tmp_at_outs],
      rule total_setElements_outs [where t = t and ia = ia and rs = rs and es = es and X = X
        and os' = "(outs X)[i := BLANK_OUTPUT]"])
    fix h assume p: "?P h"
    then have "those (map (read_out h) es) = Some (outs X)" "read_out h blank = Some BLANK_OUTPUT"
      by (simp_all add: tmp_at_def read_out_Some)
    then have "those (map (read_out h) ?es1) = Some ((outs X)[i := BLANK_OUTPUT])"
      by (rule those_list_update)
    with p show "tmp_at n t ia oa rs es X h \<and>
        those (map (read_out h) ?es1) = Some ((outs X)[i := BLANK_OUTPUT])"
      by simp
  next
    fix h assume p: "?P h" and q: "tmp_at n t ia oa rs ?es1 ?X1 (h[oa := ArrayObj ?es1])"
    from p have "blank \<noteq> oa"
      by (auto simp add: tmp_at_def at_def)
    with p q show "?R (h[oa := ArrayObj ?es1])"
      by (simp add: at_update at_def)
  qed
  from Cons.IH [of ?es1 ?X1] show ?case
    unfolding forRange.simps by (simp add: total_hbind [OF step])
qed

lemma total_allocEmpty:
  "total n (tmp_at n t ia oa rs es X) (halloc (ArrayObj []))
     (\<lambda>e h. tmp_at n t ia oa rs es X h \<and> at h e (ArrayObj []) \<and> n \<le> e \<and> e \<noteq> ia)"
proof (rule total_halloc)
  fix h :: heap assume n: "n \<le> length h" and inv: "tmp_at n t ia oa rs es X h"
  from inv have "ia < length h"
    by (simp add: tmp_at_def at_def)
  with n inv show "tmp_at n t ia oa rs es X (h @ [ArrayObj []]) \<and>
      at (h @ [ArrayObj []]) (length h) (ArrayObj []) \<and> n \<le> length h \<and> length h \<noteq> ia"
    by (simp add: tmp_at_append at_def)
qed

lemma total_setOuts:
  "total n (\<lambda>h. tmp_at n t ia oa rs es X h \<and> at h e (ArrayObj []) \<and> n \<le> e \<and> e \<noteq> ia)
     (setOuts t e) (\<lambda>_. tmp_at n t ia e rs [] (X\<lparr>outs := []\<rparr>))"
  (is "total n ?P _ _")
  unfolding setOuts_def
proof (rule total_getTx [where P = ?P], erule conjunct1 [THEN tmp_at_tx], simp only: prod.case,
    rule total_assume [where C = "n \<le> t"])
  show "n \<le> t" if "?P h" for h
    using that by (simp add: tmp_at_def)
next
  assume "n \<le> t"
  then show "total n ?P (hstore t (TxObj (version X) (locktime X) ia e))
      (\<lambda>_. tmp_at n t ia e rs [] (X\<lparr>outs := []\<rparr>))"
  proof (rule total_hstore)
    fix h assume p: "?P h"
    then have "t < length h"
      by (simp add: tmp_at_def at_def)
    moreover from p have q: "tmp_at n t ia oa rs es X h" "at h e (ArrayObj [])" "n \<le> e" "e \<noteq> ia"
      by simp_all
    have "tmp_at n t ia e rs [] (X\<lparr>outs := []\<rparr>)
        (h[t := TxObj (version X) (locktime X) ia e])"
      using q by (rule tmp_at_new_outs)
    ultimately show "t < length h \<and>
        tmp_at n t ia e rs [] (X\<lparr>outs := []\<rparr>) (h[t := TxObj (version X) (locktime X) ia e])"
      by blast
  qed
qed

lemma total_truncateOuts:
  "total n (tmp_at n t ia oa rs es X) (setElements oa (take m es))
     (\<lambda>_. tmp_at n t ia oa rs (take m es) (X\<lparr>outs := take m (outs X)\<rparr>))"
proof (rule total_setElements_outs [where t = t and ia = ia and rs = rs and es = es and X = X
      and os' = "take m (outs X)"])
  fix h assume p: "tmp_at n t ia oa rs es X h"
  then have "those (map (read_out h) es) = Some (outs X)"
    by (simp add: tmp_at_def)
  then have "those (map (read_out h) (take m es)) = Some (take m (outs X))"
    by (rule those_take)
  with p show "tmp_at n t ia oa rs es X h \<and>
      those (map (read_out h) (take m es)) = Some (take m (outs X))"
    by simp
qed

lemma total_outputRule:
  assumes orig: "at h0 this (TxObj v l ti to)" "at h0 to (ArrayObj ors)"
    and blank: "at h0 blank (OutObj BLANK_OUTPUT)"
  shows "total (length h0) (\<lambda>h. tmp_at (length h0) t ia oa rs es X h \<and> old h0 h)
     (outputRule_heap blank this t k hashType)
     (\<lambda>proceed h. old h0 h \<and>
        (case (if hashType AND 0x1f = SIGHASH_NONE then
                 Some (X\<lparr>outs := [], ins := ignoreSequences k (ins X)\<rparr>)
               else if hashType AND 0x1f = SIGHASH_SINGLE then
                 (if k \<ge> length ors then None
                  else Some (X\<lparr>outs := foldl (\<lambda>os i. os[i := BLANK_OUTPUT])
                                          (take (k + 1) (outs X)) [0..<k],
                               ins := ignoreSequences k (ins X)\<rparr>))
               else Some X) of
           None \<Rightarrow> \<not> proceed
         | Some X' \<Rightarrow> proceed \<and> (\<exists>oa' es'. tmp_at (length h0) t ia oa' rs es' X' h)))"
proof -
  let ?n = "length h0"
  let ?I = "\<lambda>oa es X h. tmp_at ?n t ia oa rs es X h \<and> old h0 h"
  have ign: "total ?n (?I oa' es' Y) (ignoreSequences_heap t k)
      (\<lambda>_. ?I oa' es' (Y\<lparr>ins := ignoreSequences k (ins Y)\<rparr>))" for oa' es' Y
    by (rule total_old [OF total_ignoreSequences])
  consider (none) "hashType AND 0x1f = SIGHASH_NONE"
    | (single) "hashType AND 0x1f \<noteq> SIGHASH_NONE" "hashType AND 0x1f = SIGHASH_SINGLE"
    | (all) "hashType AND 0x1f \<noteq> SIGHASH_NONE" "hashType AND 0x1f \<noteq> SIGHASH_SINGLE"
    by blast
  then show ?thesis
  proof cases
    case none
    have "total ?n (?I oa es X)
       (hbind (halloc (ArrayObj [])) (\<lambda>empty.
        hbind (setOuts t empty) (\<lambda>_.
        hbind (ignoreSequences_heap t k) (\<lambda>_.
        hret True))))
       (\<lambda>proceed h. old h0 h \<and> proceed \<and> (\<exists>oa' es'. tmp_at ?n t ia oa' rs es'
           (X\<lparr>outs := [], ins := ignoreSequences k (ins X)\<rparr>) h))"
    proof (rule total_hbind [OF total_old [OF total_allocEmpty]],
        rule total_hbind [OF total_old [OF total_setOuts]],
        rule total_hbind [OF ign], rule total_hret)
      fix e h
      assume "?I e [] (X\<lparr>outs := [], ins := ignoreSequences k (ins (X\<lparr>outs := []\<rparr>))\<rparr>) h"
      then show "old h0 h \<and> True \<and> (\<exists>oa' es'. tmp_at ?n t ia oa' rs es'
           (X\<lparr>outs := [], ins := ignoreSequences k (ins X)\<rparr>) h)"
        by auto
    qed
    with none show ?thesis
      by (simp add: outputRule_heap_def)
  next
    case single
    let ?P = "?I oa es X"
    have a1: "at h this (TxObj v l ti to)" and a2: "at h to (ArrayObj ors)" if "?P h" for h
      using that orig by (auto intro: old_at)
    show ?thesis
    proof (cases "k \<ge> length ors")
      case True
      have "total ?n ?P
         (hbind (getTx this) (\<lambda>(_, _, _, thisOuts).
          hbind (getArray thisOuts) (\<lambda>txOuts.
          if k \<ge> length txOuts then hret False
          else
            hbind (getTx t) (\<lambda>(_, _, _, tmpOuts).
            hbind (getArray tmpOuts) (\<lambda>elems.
            hbind (setElements tmpOuts (take (k + 1) elems)) (\<lambda>_.
            hbind (blankOutputs_heap blank t k) (\<lambda>_.
            hbind (ignoreSequences_heap t k) (\<lambda>_.
            hret True))))))))
         (\<lambda>proceed h. old h0 h \<and> \<not> proceed)"
        by (rule total_getTx [where P = ?P], erule a1, simp only: prod.case,
            rule total_getArray [where P = ?P], erule a2, simp only: True if_True,
            rule total_hret, simp)
      with single True show ?thesis
        by (simp add: outputRule_heap_def)
    next
      case False
      let ?X1 = "X\<lparr>outs := take (k + 1) (outs X)\<rparr>"
      let ?e1 = "take (k + 1) es"
      let ?X2 = "?X1\<lparr>outs := foldl (\<lambda>os i. os[i := BLANK_OUTPUT]) (outs ?X1) [0..<k]\<rparr>"
      let ?e2 = "foldl (\<lambda>e i. e[i := blank]) ?e1 [0..<k]"
      have trunc: "total ?n ?P (setElements oa (take (k + 1) es)) (\<lambda>_. ?I oa ?e1 ?X1)"
        by (rule total_old [OF total_truncateOuts])
      have blk: "total ?n (?I oa ?e1 ?X1) (blankOutputs_heap blank t k) (\<lambda>_. ?I oa ?e2 ?X2)"
        unfolding blankOutputs_heap_def
        by (rule total_weaken [OF total_old [OF total_blankOutputs
                [where n = ?n and t = t and ia = ia and oa = oa and rs = rs and es = ?e1
                  and X = ?X1 and blank = blank and js = "[0..<k]"]]])
          (insert blank, auto intro: old_at)
      have "total ?n ?P
         (hbind (getTx this) (\<lambda>(_, _, _, thisOuts).
          hbind (getArray thisOuts) (\<lambda>txOuts.
          if k \<ge> length txOuts then hret False
          else
            hbind (getTx t) (\<lambda>(_, _, _, tmpOuts).
            hbind (getArray tmpOuts) (\<lambda>elems.
            hbind (setElements tmpOuts (take (k + 1) elems)) (\<lambda>_.
            hbind (blankOutputs_heap blank t k) (\<lambda>_.
            hbind (ignoreSequences_heap t k) (\<lambda>_.
            hret True))))))))
         (\<lambda>proceed h. old h0 h \<and> proceed \<and> (\<exists>oa' es'. tmp_at ?n t ia oa' rs es'
             (X\<lparr>outs := foldl (\<lambda>os i. os[i := BLANK_OUTPUT]) (take (k + 1) (outs X)) [0..<k],
                ins := ignoreSequences k (ins X)\<rparr>) h))"
      proof (rule total_getTx [where P = ?P], erule a1, simp only: prod.case,
            rule total_getArray [where P = ?P], erule a2, simp only: False if_False,
            rule total_getTx [where P = ?P], erule conjunct1 [THEN tmp_at_tx],
            simp only: prod.case,
            rule total_getArray [where P = ?P], erule conjunct1 [THEN tmp_at_outs],
            rule total_hbind [OF trunc], rule total_hbind [OF blk], rule total_hbind [OF ign],
            rule total_hret)
        fix h
        assume "?I oa ?e2 (?X2\<lparr>ins := ignoreSequences k (ins ?X2)\<rparr>) h"
        then show "old h0 h \<and> True \<and> (\<exists>oa' es'. tmp_at ?n t ia oa' rs es'
             (X\<lparr>outs := foldl (\<lambda>os i. os[i := BLANK_OUTPUT]) (take (k + 1) (outs X)) [0..<k],
                ins := ignoreSequences k (ins X)\<rparr>) h)"
          by auto
      qed
      with single False show ?thesis
        by (simp add: outputRule_heap_def)
    qed
  next
    case all
    then show ?thesis
      by (auto simp add: outputRule_heap_def intro: total_hret)
  qed
qed

subsection \<open>The input rule\<close>

lemma tmp_at_new_ins:
  assumes inv: "tmp_at n t ia oa rs es X h" and s: "at h s (ArrayObj [rs ! k])" "n \<le> s" "s \<noteq> oa"
    and k: "k < length rs"
  shows "tmp_at n t s oa [rs ! k] es (X\<lparr>ins := [ins X ! k]\<rparr>)
     (h[t := TxObj (version X) (locktime X) s oa])"
proof -
  from inv have a: "n \<le> t" "at h t (TxObj (version X) (locktime X) ia oa)" "n \<le> oa"
    "at h oa (ArrayObj es)" "\<forall>r\<in>set rs. n \<le> r"
    and i: "those (map (read_in h) rs) = Some (ins X)"
    and o: "those (map (read_out h) es) = Some (outs X)"
    unfolding tmp_at_def by simp_all
  from a(2,4) s(1) have d: "t \<noteq> oa" "t \<noteq> s"
    by (auto simp add: at_def)
  from i k have "read_in h (rs ! k) = Some (ins X ! k)"
    unfolding those_map_Some_iff by simp
  then have "read_in (h[t := TxObj (version X) (locktime X) s oa]) (rs ! k) = Some (ins X ! k)"
    by (rule read_in_update_struct [OF _ a(2)]) auto
  then have i': "those (map (read_in (h[t := TxObj (version X) (locktime X) s oa])) [rs ! k]) =
      Some [ins X ! k]"
    by simp
  have o': "those (map (read_out (h[t := TxObj (version X) (locktime X) s oa])) es) = Some (outs X)"
    using o by (rule those_map_mono) (rule read_out_update_struct [OF _ a(2)], auto)
  from a(5) k have "n \<le> rs ! k"
    by simp
  then show ?thesis
    unfolding tmp_at_def using a d s i' o' by (auto simp add: at_update at_def)
qed

lemma total_allocSingle:
  "total n (tmp_at n t ia oa rs es X) (halloc (ArrayObj [r]))
     (\<lambda>s h. tmp_at n t ia oa rs es X h \<and> at h s (ArrayObj [r]) \<and> n \<le> s \<and> s \<noteq> oa)"
proof (rule total_halloc)
  fix h :: heap assume n: "n \<le> length h" and inv: "tmp_at n t ia oa rs es X h"
  from inv have "oa < length h"
    by (simp add: tmp_at_def at_def)
  with n inv show "tmp_at n t ia oa rs es X (h @ [ArrayObj [r]]) \<and>
      at (h @ [ArrayObj [r]]) (length h) (ArrayObj [r]) \<and> n \<le> length h \<and> length h \<noteq> oa"
    by (simp add: tmp_at_append at_def)
qed

lemma total_setIns:
  assumes k: "k < length rs"
  shows "total n (\<lambda>h. tmp_at n t ia oa rs es X h \<and> at h s (ArrayObj [rs ! k]) \<and> n \<le> s \<and> s \<noteq> oa)
     (setIns t s) (\<lambda>_. tmp_at n t s oa [rs ! k] es (X\<lparr>ins := [ins X ! k]\<rparr>))"
  (is "total n ?P _ _")
  unfolding setIns_def
proof (rule total_getTx [where P = ?P], erule conjunct1 [THEN tmp_at_tx], simp only: prod.case,
    rule total_assume [where C = "n \<le> t"])
  show "n \<le> t" if "?P h" for h
    using that by (simp add: tmp_at_def)
next
  assume "n \<le> t"
  then show "total n ?P (hstore t (TxObj (version X) (locktime X) s oa))
      (\<lambda>_. tmp_at n t s oa [rs ! k] es (X\<lparr>ins := [ins X ! k]\<rparr>))"
  proof (rule total_hstore)
    fix h assume p: "?P h"
    then have l: "t < length h"
      by (simp add: tmp_at_def at_def)
    from p have q: "tmp_at n t ia oa rs es X h" "at h s (ArrayObj [rs ! k])" "n \<le> s" "s \<noteq> oa"
      by simp_all
    have "tmp_at n t s oa [rs ! k] es (X\<lparr>ins := [ins X ! k]\<rparr>)
        (h[t := TxObj (version X) (locktime X) s oa])"
      using q k by (rule tmp_at_new_ins)
    with l show "t < length h \<and>
        tmp_at n t s oa [rs ! k] es (X\<lparr>ins := [ins X ! k]\<rparr>)
          (h[t := TxObj (version X) (locktime X) s oa])"
      by blast
  qed
qed

lemma upd_from_0_map: "upd_from 0 (\<lambda>_. f) xs = map f xs"
  by (rule nth_equalityI) (simp_all add: nth_upd_from)

lemma total_inputRule:
  assumes k: "k < length rs"
  shows "total n (tmp_at n t ia oa rs es X) (inputRule_heap t k script hashType)
     (\<lambda>_ h. \<exists>ia' rs'. tmp_at n t ia' oa rs' es
        (if hashType AND SIGHASH_ANYONECANPAY \<noteq> 0 then
           X\<lparr>ins := [(ins X ! k)\<lparr>in_script := script\<rparr>]\<rparr>
         else
           let blanked = map (\<lambda>input. input\<lparr>in_script := EMPTY_SCRIPT\<rparr>) (ins X)
           in X\<lparr>ins := blanked[k := (blanked ! k)\<lparr>in_script := script\<rparr>]\<rparr>) h)"
proof (cases "hashType AND SIGHASH_ANYONECANPAY \<noteq> 0")
  case True
  let ?P = "tmp_at n t ia oa rs es X"
  let ?X1 = "X\<lparr>ins := [ins X ! k]\<rparr>"
  have last: "total n (tmp_at n t s oa [rs ! k] es ?X1) (setScript (rs ! k) script)
      (\<lambda>_. tmp_at n t s oa [rs ! k] es (X\<lparr>ins := [(ins X ! k)\<lparr>in_script := script\<rparr>]\<rparr>))" for s
    using total_setScript [of 0 "[rs ! k]" n t s oa es ?X1 script] by simp
  have "total n ?P
     (hbind (getTx t) (\<lambda>(_, _, tmpIns, _).
      hbind (getArray tmpIns) (\<lambda>inputs.
      if k < length inputs then
        hbind (halloc (ArrayObj [inputs ! k])) (\<lambda>single.
        hbind (setIns t single) (\<lambda>_.
        hbind (getTx t) (\<lambda>(_, _, tmpIns', _).
        hbind (getArray tmpIns') (\<lambda>inputs'.
        case inputs' of [] \<Rightarrow> hfail TypeError | first # _ \<Rightarrow> setScript first script))))
      else hfail TypeError)))
     (\<lambda>_ h. \<exists>ia' rs'. tmp_at n t ia' oa rs' es
        (X\<lparr>ins := [(ins X ! k)\<lparr>in_script := script\<rparr>]\<rparr>) h)"
  proof (rule total_getTx [OF tmp_at_tx], assumption, simp only: prod.case,
      rule total_getArray [OF tmp_at_ins], assumption, simp only: k if_True,
      rule total_hbind [OF total_allocSingle], rule total_hbind [OF total_setIns [OF k]],
      rule total_getTx [OF tmp_at_tx], assumption, simp only: prod.case,
      rule total_getArray [OF tmp_at_ins], assumption, simp only: list.case,
      rule total_post [OF last])
    fix s h
    assume "tmp_at n t s oa [rs ! k] es (X\<lparr>ins := [(ins X ! k)\<lparr>in_script := script\<rparr>]\<rparr>) h"
    then show "\<exists>ia' rs'. tmp_at n t ia' oa rs' es
        (X\<lparr>ins := [(ins X ! k)\<lparr>in_script := script\<rparr>]\<rparr>) h"
      by blast
  qed
  with True show ?thesis
    by (simp add: inputRule_heap_def)
next
  case False
  let ?P = "tmp_at n t ia oa rs es X"
  let ?b = "map (\<lambda>input. input\<lparr>in_script := EMPTY_SCRIPT\<rparr>) (ins X)"
  let ?X1 = "X\<lparr>ins := ?b\<rparr>"
  have step: "total n (tmp_at n t ia oa rs es Y) (setScript (rs ! j) EMPTY_SCRIPT)
        (\<lambda>_. tmp_at n t ia oa rs es (Y\<lparr>ins := (ins Y)[j := (ins Y ! j)\<lparr>in_script := EMPTY_SCRIPT\<rparr>]\<rparr>))"
    if "j < length rs" for j Y
    by (rule total_setScript [OF that])
  have loop: "total n ?P (forEach (\<lambda>input _. setScript input EMPTY_SCRIPT) 0 rs)
      (\<lambda>_. tmp_at n t ia oa rs es ?X1)"
    using total_forEach_ins [of rs n t ia oa es "\<lambda>input _. setScript input EMPTY_SCRIPT"
        "\<lambda>_ x. x\<lparr>in_script := EMPTY_SCRIPT\<rparr>" 0 X, OF step]
    by (simp add: upd_from_0_map)
  have last: "total n (tmp_at n t ia oa rs es ?X1) (setScript (rs ! k) script)
      (\<lambda>_. tmp_at n t ia oa rs es (X\<lparr>ins := ?b[k := (?b ! k)\<lparr>in_script := script\<rparr>]\<rparr>))"
    using total_setScript [OF k, of n t ia oa es ?X1 script] by simp
  have "total n ?P
     (hbind (getTx t) (\<lambda>(_, _, tmpIns, _).
      hbind (getArray tmpIns) (\<lambda>inputs.
      hbind (forEach (\<lambda>input _. setScript input EMPTY_SCRIPT) 0 inputs) (\<lambda>_.
      hbind (getTx t) (\<lambda>(_, _, tmpIns', _).
      hbind (getArray tmpIns') (\<lambda>inputs'.
      if k < length inputs' then setScript (inputs' ! k) script
      else hfail TypeError))))))
     (\<lambda>_ h. \<exists>ia' rs'. tmp_at n t ia' oa rs' es
        (X\<lparr>ins := ?b[k := (?b ! k)\<lparr>in_script := script\<rparr>]\<rparr>) h)"
  proof (rule total_getTx [OF tmp_at_tx], assumption, simp only: prod.case,
      rule total_getArray [OF tmp_at_ins], assumption,
      rule total_hbind [OF loop],
      rule total_getTx [OF tmp_at_tx], assumption, simp only: prod.case,
      rule total_getArray [OF tmp_at_ins], assumption, simp only: k if_True,
      rule total_post [OF last])
    fix h
    assume "tmp_at n t ia oa rs es (X\<lparr>ins := ?b[k := (?b ! k)\<lparr>in_script := script\<rparr>]\<rparr>) h"
    then show "\<exists>ia' rs'. tmp_at n t ia' oa rs' es
        (X\<lparr>ins := ?b[k := (?b ! k)\<lparr>in_script := script\<rparr>]\<rparr>) h"
      by blast
  qed
  with False show ?thesis
    by (simp add: inputRule_heap_def Let_def)
qed

subsection \<open>The clone\<close>

lemma total_getOut:
  assumes "\<And>h. P h \<Longrightarrow> at h r (OutObj out)" "total n P (f out) Q"
  shows "total n P (hbind (getOut r) f) Q"
proof (rule total_hbind [where R = "\<lambda>x h. x = out \<and> P h"])
  show "total n P (getOut r) (\<lambda>x h. x = out \<and> P h)"
    using assms(1)
    by (intro totalI) (auto simp add: getOut_def hbind_def hload_def hret_def at_def)
next
  fix x
  show "total n (\<lambda>h. x = out \<and> P h) (f x) Q"
    by (rule total_assume [where C = "x = out"]) (auto intro: total_pre [OF assms(2)])
qed

lemma old_snoc: "old h0 h \<Longrightarrow> old h0 (h @ [x])"
  by (simp add: old_def)

lemma total_mapM:
  assumes f: "\<And>x J m. x \<in> set xs \<Longrightarrow> (\<And>h x. J h \<Longrightarrow> J (h @ [x])) \<Longrightarrow>
      total n (\<lambda>h. old h0 h \<and> J h \<and> m \<le> length h) (f x)
        (\<lambda>y h. old h0 h \<and> J h \<and> m \<le> y \<and> y + 1 \<le> length h \<and> R x y h)"
    and R: "\<And>x y h z. R x y h \<Longrightarrow> R x y (h @ [z])"
  shows "(\<And>h x. J h \<Longrightarrow> J (h @ [x])) \<Longrightarrow>
     total n (\<lambda>h. old h0 h \<and> J h \<and> m \<le> length h) (mapM f xs)
       (\<lambda>ys h. old h0 h \<and> J h \<and> m \<le> length h \<and> length ys = length xs \<and>
          (\<forall>r\<in>set ys. m \<le> r \<and> r < length h) \<and> distinct ys \<and>
          (\<forall>j<length xs. R (xs ! j) (ys ! j) h))"
  using f
proof (induction xs arbitrary: J m)
  case Nil
  show ?case
    by (simp add: total_hret)
next
  case (Cons x xs)
  have head: "total n (\<lambda>h. old h0 h \<and> J h \<and> m \<le> length h) (f x)
      (\<lambda>y h. old h0 h \<and> J h \<and> m \<le> y \<and> y + 1 \<le> length h \<and> R x y h)"
    by (rule Cons.prems(2)) (simp_all add: Cons.prems(1))
  have tail: "total n (\<lambda>h. old h0 h \<and> (J h \<and> R x y h \<and> m \<le> y) \<and> y + 1 \<le> length h) (mapM f xs)
       (\<lambda>ys h. old h0 h \<and> (J h \<and> R x y h \<and> m \<le> y) \<and> y + 1 \<le> length h \<and> length ys = length xs \<and>
          (\<forall>r\<in>set ys. y + 1 \<le> r \<and> r < length h) \<and> distinct ys \<and>
          (\<forall>j<length xs. R (xs ! j) (ys ! j) h))" for y
  proof (rule Cons.IH)
    show "J (h @ [z]) \<and> R x y (h @ [z]) \<and> m \<le> y" if "J h \<and> R x y h \<and> m \<le> y" for h z
      using that by (simp add: Cons.prems(1) R)
  next
    fix x' J' m'
    assume "x' \<in> set xs" and "\<And>(h :: heap) x. J' h \<Longrightarrow> J' (h @ [x])"
    then show "total n (\<lambda>h. old h0 h \<and> J' h \<and> m' \<le> length h) (f x')
        (\<lambda>y h. old h0 h \<and> J' h \<and> m' \<le> y \<and> y + 1 \<le> length h \<and> R x' y h)"
      by (intro Cons.prems(2)) simp_all
  qed
  show ?case
    unfolding mapM.simps
  proof (rule total_hbind [OF total_post [OF head]])
    fix y h
    assume "old h0 h \<and> J h \<and> m \<le> y \<and> y + 1 \<le> length h \<and> R x y h"
    then show "old h0 h \<and> (J h \<and> R x y h \<and> m \<le> y) \<and> y + 1 \<le> length h"
      by simp
  next
    fix y
    show "total n (\<lambda>h. old h0 h \<and> (J h \<and> R x y h \<and> m \<le> y) \<and> y + 1 \<le> length h)
        (hbind (mapM f xs) (\<lambda>ys. hret (y # ys)))
        (\<lambda>ys h. old h0 h \<and> J h \<and> m \<le> length h \<and> length ys = length (x # xs) \<and>
          (\<forall>r\<in>set ys. m \<le> r \<and> r < length h) \<and> distinct ys \<and>
          (\<forall>j<length (x # xs). R ((x # xs) ! j) (ys ! j) h))"
    proof (rule total_hbind [OF tail], rule total_hret)
      fix ys h
      assume a: "old h0 h \<and> (J h \<and> R x y h \<and> m \<le> y) \<and> y + 1 \<le> length h \<and> length ys = length xs \<and>
          (\<forall>r\<in>set ys. y + 1 \<le> r \<and> r < length h) \<and> distinct ys \<and>
          (\<forall>j<length xs. R (xs ! j) (ys ! j) h)"
      then have "y \<notin> set ys"
        by auto
      moreover have "R ((x # xs) ! j) ((y # ys) ! j) h" if "j < length (x # xs)" for j
        using that a by (cases j) simp_all
      moreover from a have "\<forall>r\<in>set (y # ys). m \<le> r \<and> r < length h"
        by auto
      ultimately show "old h0 h \<and> J h \<and> m \<le> length h \<and> length (y # ys) = length (x # xs) \<and>
          (\<forall>r\<in>set (y # ys). m \<le> r \<and> r < length h) \<and> distinct (y # ys) \<and>
          (\<forall>j<length (x # xs). R ((x # xs) ! j) ((y # ys) ! j) h)"
        using a by simp
    qed
  qed
qed

lemma same_in_snoc: "same_in h0 x y h \<Longrightarrow> same_in h0 x y (h @ [z])"
  unfolding same_in_def by (blast intro: read_in_append)

lemma same_out_snoc: "same_out h0 x y h \<Longrightarrow> same_out h0 x y (h @ [z])"
  unfolding same_out_def by (blast intro: read_out_append)

lemma total_copyIn:
  assumes v: "read_in h0 x = Some v" and J: "\<And>h z. J h \<Longrightarrow> J (h @ [z])"
  shows "total n (\<lambda>h. old h0 h \<and> J h \<and> m \<le> length h)
      (hbind (getIn x) (\<lambda>(hs, i, s, q, w). halloc (InObj hs i s q w)))
      (\<lambda>y h. old h0 h \<and> J h \<and> m \<le> y \<and> y + 1 \<le> length h \<and> same_in h0 x y h)"
proof -
  from v obtain w where x: "at h0 x (InObj (in_hash v) (in_index v) (in_script v) (in_sequence v) w)"
    and w: "at h0 w (WitnessObj (in_witness v))"
    unfolding read_in_Some by blast
  let ?P = "\<lambda>h. old h0 h \<and> J h \<and> m \<le> length h"
  let ?o = "InObj (in_hash v) (in_index v) (in_script v) (in_sequence v) w"
  show ?thesis
  proof (rule total_getIn [where P = ?P], erule conjunct1 [THEN old_at], rule x,
      simp only: prod.case, rule total_halloc)
    fix h assume p: "?P h"
    then have "at h w (WitnessObj (in_witness v))"
      using w by (blast intro: old_at)
    then have "at (h @ [?o]) w (WitnessObj (in_witness v))"
      by (rule at_append)
    moreover have "at (h @ [?o]) (length h) ?o"
      by (simp add: at_def)
    ultimately have "read_in (h @ [?o]) (length h) = Some v"
      unfolding read_in_Some by blast
    with v have "same_in h0 x (length h) (h @ [?o])"
      by (simp add: same_in_def)
    with p show "old h0 (h @ [?o]) \<and> J (h @ [?o]) \<and> m \<le> length h \<and>
        length h + 1 \<le> length (h @ [?o]) \<and> same_in h0 x (length h) (h @ [?o])"
      by (simp add: old_snoc J)
  qed
qed

lemma total_copyOut:
  assumes v: "read_out h0 x = Some v" and J: "\<And>h z. J h \<Longrightarrow> J (h @ [z])"
  shows "total n (\<lambda>h. old h0 h \<and> J h \<and> m \<le> length h)
      (hbind (getOut x) (\<lambda>out.
         halloc (OutObj \<lparr>out_script = out_script out, out_value = out_value out,
                          out_valueBuffer = None\<rparr>)))
      (\<lambda>y h. old h0 h \<and> J h \<and> m \<le> y \<and> y + 1 \<le> length h \<and> same_out h0 x y h)"
proof -
  from v have x: "at h0 x (OutObj v)"
    unfolding read_out_Some .
  let ?P = "\<lambda>h. old h0 h \<and> J h \<and> m \<le> length h"
  let ?o = "OutObj \<lparr>out_script = out_script v, out_value = out_value v, out_valueBuffer = None\<rparr>"
  show ?thesis
  proof (rule total_getOut [where P = ?P], erule conjunct1 [THEN old_at], rule x,
      rule total_halloc)
    fix h assume p: "?P h"
    have "at (h @ [?o]) (length h) ?o"
      by (simp add: at_def)
    then have "read_out (h @ [?o]) (length h) =
        Some \<lparr>out_script = out_script v, out_value = out_value v, out_valueBuffer = None\<rparr>"
      unfolding read_out_Some .
    with v have "same_out h0 x (length h) (h @ [?o])"
      unfolding same_out_def by blast
    with p show "old h0 (h @ [?o]) \<and> J (h @ [?o]) \<and> m \<le> length h \<and>
        length h + 1 \<le> length (h @ [?o]) \<and> same_out h0 x (length h) (h @ [?o])"
      by (simp add: old_snoc J)
  qed
qed

lemma total_ex2:
  assumes "\<And>a b. total n (P a b) m Q"
  shows "total n (\<lambda>h. \<exists>a b. P a b h) m Q"
  using assms unfolding total_def by blast

lemma tmp_at_set_ins:
  assumes inv: "tmp_at n t ia oa rs es X h" and s: "at h s (ArrayObj rs')" "n \<le> s" "s \<noteq> oa"
    and rs': "\<forall>r\<in>set rs'. n \<le> r" "distinct rs'" "those (map (read_in h) rs') = Some is'"
  shows "tmp_at n t s oa rs' es (X\<lparr>ins := is'\<rparr>) (h[t := TxObj (version X) (locktime X) s oa])"
proof -
  from inv have a: "n \<le> t" "at h t (TxObj (version X) (locktime X) ia oa)" "n \<le> oa"
    "at h oa (ArrayObj es)"
    and o: "those (map (read_out h) es) = Some (outs X)"
    unfolding tmp_at_def by simp_all
  from a(2,4) s(1) have d: "t \<noteq> oa" "t \<noteq> s"
    by (auto simp add: at_def)
  have i': "those (map (read_in (h[t := TxObj (version X) (locktime X) s oa])) rs') = Some is'"
    using rs'(3) by (rule those_map_mono) (rule read_in_update_struct [OF _ a(2)], auto)
  have o': "those (map (read_out (h[t := TxObj (version X) (locktime X) s oa])) es) = Some (outs X)"
    using o by (rule those_map_mono) (rule read_out_update_struct [OF _ a(2)], auto)
  show ?thesis
    unfolding tmp_at_def using a d s rs'(1,2) i' o' by (auto simp add: at_update at_def)
qed

lemma tmp_at_set_outs:
  assumes inv: "tmp_at n t ia oa rs es X h" and e: "at h e (ArrayObj es')" "n \<le> e" "e \<noteq> ia"
    and es': "those (map (read_out h) es') = Some os'"
  shows "tmp_at n t ia e rs es' (X\<lparr>outs := os'\<rparr>) (h[t := TxObj (version X) (locktime X) ia e])"
proof -
  from inv have s: "n \<le> t" "at h t (TxObj (version X) (locktime X) ia oa)" "n \<le> ia"
    "at h ia (ArrayObj rs)" "\<forall>r\<in>set rs. n \<le> r" "distinct rs"
    and i: "those (map (read_in h) rs) = Some (ins X)"
    unfolding tmp_at_def by simp_all
  from s(2,4) e(1) have d: "t \<noteq> ia" "t \<noteq> e"
    by (auto simp add: at_def)
  have i': "those (map (read_in (h[t := TxObj (version X) (locktime X) ia e])) rs) = Some (ins X)"
    using i by (rule those_map_mono) (rule read_in_update_struct [OF _ s(2)], auto)
  have o': "those (map (read_out (h[t := TxObj (version X) (locktime X) ia e])) es') = Some os'"
    using es' by (rule those_map_mono) (rule read_out_update_struct [OF _ s(2)], auto)
  show ?thesis
    unfolding tmp_at_def using s d e i' o' by (auto simp add: at_update at_def)
qed

lemma tmp_at_set_header:
  assumes inv: "tmp_at n t ia oa rs es X h"
  shows "tmp_at n t ia oa rs es (X\<lparr>version := v, locktime := l\<rparr>) (h[t := TxObj v l ia oa])"
proof -
  from inv have s: "n \<le> t" "at h t (TxObj (version X) (locktime X) ia oa)" "n \<le> ia" "n \<le> oa"
    "ia \<noteq> oa" "at h ia (ArrayObj rs)" "at h oa (ArrayObj es)" "\<forall>r\<in>set rs. n \<le> r" "distinct rs"
    and i: "those (map (read_in h) rs) = Some (ins X)"
    and o: "those (map (read_out h) es) = Some (outs X)"
    unfolding tmp_at_def by simp_all
  from s(2,6,7) have d: "t \<noteq> ia" "t \<noteq> oa"
    by (auto simp add: at_def)
  have i': "those (map (read_in (h[t := TxObj v l ia oa])) rs) = Some (ins X)"
    using i by (rule those_map_mono) (rule read_in_update_struct [OF _ s(2)], auto)
  have o': "those (map (read_out (h[t := TxObj v l ia oa])) es) = Some (outs X)"
    using o by (rule those_map_mono) (rule read_out_update_struct [OF _ s(2)], auto)
  show ?thesis
    unfolding tmp_at_def using s d i' o' by (auto simp add: at_update at_def)
qed

lemma total_setVersion:
  "total n (tmp_at n t ia oa rs es X) (setVersion t v)
     (\<lambda>_. tmp_at n t ia oa rs es (X\<lparr>version := v\<rparr>))"
  (is "total n ?P _ _")
  unfolding setVersion_def
proof (rule total_getTx [OF tmp_at_tx], assumption, simp only: prod.case,
    rule total_assume [where C = "n \<le> t"])
  show "n \<le> t" if "?P h" for h
    using that by (simp add: tmp_at_def)
next
  assume "n \<le> t"
  then show "total n ?P (hstore t (TxObj v (locktime X) ia oa))
      (\<lambda>_. tmp_at n t ia oa rs es (X\<lparr>version := v\<rparr>))"
  proof (rule total_hstore)
    fix h assume p: "?P h"
    then have "t < length h"
      by (simp add: tmp_at_def at_def)
    with tmp_at_set_header [OF p, where v = v and l = "locktime X"]
    show "t < length h \<and> tmp_at n t ia oa rs es (X\<lparr>version := v\<rparr>) (h[t := TxObj v (locktime X) ia oa])"
      by simp
  qed
qed

lemma total_setLocktime:
  "total n (tmp_at n t ia oa rs es X) (setLocktime t l)
     (\<lambda>_. tmp_at n t ia oa rs es (X\<lparr>locktime := l\<rparr>))"
  (is "total n ?P _ _")
  unfolding setLocktime_def
proof (rule total_getTx [OF tmp_at_tx], assumption, simp only: prod.case,
    rule total_assume [where C = "n \<le> t"])
  show "n \<le> t" if "?P h" for h
    using that by (simp add: tmp_at_def)
next
  assume "n \<le> t"
  then show "total n ?P (hstore t (TxObj (version X) l ia oa))
      (\<lambda>_. tmp_at n t ia oa rs es (X\<lparr>locktime := l\<rparr>))"
  proof (rule total_hstore)
    fix h assume p: "?P h"
    then have "t < length h"
      by (simp add: tmp_at_def at_def)
    with tmp_at_set_header [OF p, where v = "version X" and l = l]
    show "t < length h \<and> tmp_at n t ia oa rs es (X\<lparr>locktime := l\<rparr>) (h[t := TxObj (version X) l ia oa])"
      by simp
  qed
qed

lemma total_new_Transaction:
  "total n (old h0) new_Transaction_heap
     (\<lambda>t h. \<exists>ia oa. tmp_at n t ia oa [] [] new_Transaction h \<and> old h0 h)"
  unfolding new_Transaction_heap_def
proof (rule totalI)
  fix h :: heap assume n: "n \<le> length h" and o: "old h0 h"
  let ?h1 = "h @ [ArrayObj []]"
  let ?h2 = "?h1 @ [ArrayObj []]"
  let ?t = "TxObj 1 0 (length h) (Suc (length h))"
  let ?h3 = "?h2 @ [?t]"
  have r: "hbind (halloc (ArrayObj [])) (\<lambda>i. hbind (halloc (ArrayObj [])) (\<lambda>a. halloc (TxObj 1 0 i a))) h
      = (Inr (Suc (Suc (length h))), ?h3)"
    by (simp add: hbind_def halloc_def)
  have e: "ext n h ?h3"
    using n by (simp add: ext_def)
  have "tmp_at n (Suc (Suc (length h))) (length h) (Suc (length h)) [] [] new_Transaction ?h3"
    using n by (simp add: tmp_at_def at_def new_Transaction_def nth_append)
  moreover from o have "old h0 ?h3"
    by (intro old_snoc)
  ultimately show "\<exists>x h'. hbind (halloc (ArrayObj [])) (\<lambda>i. hbind (halloc (ArrayObj []))
      (\<lambda>a. halloc (TxObj 1 0 i a))) h = (Inr x, h') \<and> ext n h h' \<and>
      (\<exists>ia oa. tmp_at n x ia oa [] [] new_Transaction h' \<and> old h0 h')"
    using r e by blast
qed

lemma total_allocIns:
  "total n (\<lambda>h. tmp_at n t ia oa rs es X h \<and> (\<forall>r\<in>set rs'. n \<le> r) \<and> distinct rs' \<and>
       those (map (read_in h) rs') = Some is')
     (hbind (halloc (ArrayObj rs')) (\<lambda>s. setIns t s))
     (\<lambda>_ h. \<exists>s. tmp_at n t s oa rs' es (X\<lparr>ins := is'\<rparr>) h)"
  (is "total n ?P _ _")
proof (rule total_hbind [where R = "\<lambda>s h. tmp_at n t ia oa rs es X h \<and> (\<forall>r\<in>set rs'. n \<le> r) \<and>
    distinct rs' \<and> those (map (read_in h) rs') = Some is' \<and> at h s (ArrayObj rs') \<and> n \<le> s \<and> s \<noteq> oa"])
  show "total n ?P (halloc (ArrayObj rs'))
     (\<lambda>s h. tmp_at n t ia oa rs es X h \<and> (\<forall>r\<in>set rs'. n \<le> r) \<and>
        distinct rs' \<and> those (map (read_in h) rs') = Some is' \<and> at h s (ArrayObj rs') \<and> n \<le> s \<and> s \<noteq> oa)"
  proof (rule total_halloc)
    fix h :: heap assume n: "n \<le> length h" and p: "?P h"
    from p have "oa < length h"
      by (simp add: tmp_at_def at_def)
    moreover from p have "those (map (read_in (h @ [ArrayObj rs'])) rs') = Some is'"
      by (auto intro: those_map_mono [where f = "read_in h"] read_in_append)
    ultimately show "tmp_at n t ia oa rs es X (h @ [ArrayObj rs']) \<and> (\<forall>r\<in>set rs'. n \<le> r) \<and>
        distinct rs' \<and> those (map (read_in (h @ [ArrayObj rs'])) rs') = Some is' \<and>
        at (h @ [ArrayObj rs']) (length h) (ArrayObj rs') \<and> n \<le> length h \<and> length h \<noteq> oa"
      using n p by (simp add: tmp_at_append at_def)
  qed
next
  fix s
  let ?R = "\<lambda>h. tmp_at n t ia oa rs es X h \<and> (\<forall>r\<in>set rs'. n \<le> r) \<and>
        distinct rs' \<and> those (map (read_in h) rs') = Some is' \<and> at h s (ArrayObj rs') \<and> n \<le> s \<and> s \<noteq> oa"
  show "total n ?R (setIns t s) (\<lambda>_ h. \<exists>s. tmp_at n t s oa rs' es (X\<lparr>ins := is'\<rparr>) h)"
    unfolding setIns_def
  proof (rule total_getTx [where P = ?R], erule conjunct1 [THEN tmp_at_tx], simp only: prod.case,
      rule total_assume [where C = "n \<le> t"])
    show "n \<le> t" if "?R h" for h
      using that by (simp add: tmp_at_def)
  next
    assume "n \<le> t"
    then show "total n ?R (hstore t (TxObj (version X) (locktime X) s oa))
        (\<lambda>_ h. \<exists>s. tmp_at n t s oa rs' es (X\<lparr>ins := is'\<rparr>) h)"
    proof (rule total_hstore)
      fix h assume p: "?R h"
      then have l: "t < length h"
        by (simp add: tmp_at_def at_def)
      from p have q: "tmp_at n t ia oa rs es X h" "at h s (ArrayObj rs')" "n \<le> s" "s \<noteq> oa"
        "\<forall>r\<in>set rs'. n \<le> r" "distinct rs'" "those (map (read_in h) rs') = Some is'"
        by simp_all
      have "tmp_at n t s oa rs' es (X\<lparr>ins := is'\<rparr>) (h[t := TxObj (version X) (locktime X) s oa])"
        using q by (rule tmp_at_set_ins)
      with l show "t < length h \<and>
          (\<exists>s'. tmp_at n t s' oa rs' es (X\<lparr>ins := is'\<rparr>) (h[t := TxObj (version X) (locktime X) s oa]))"
        by blast
    qed
  qed
qed

lemma total_allocOuts:
  "total n (\<lambda>h. tmp_at n t ia oa rs es X h \<and> those (map (read_out h) es') = Some os')
     (hbind (halloc (ArrayObj es')) (\<lambda>e. setOuts t e))
     (\<lambda>_ h. \<exists>e. tmp_at n t ia e rs es' (X\<lparr>outs := os'\<rparr>) h)"
  (is "total n ?P _ _")
proof (rule total_hbind [where R = "\<lambda>e h. tmp_at n t ia oa rs es X h \<and>
    those (map (read_out h) es') = Some os' \<and> at h e (ArrayObj es') \<and> n \<le> e \<and> e \<noteq> ia"])
  show "total n ?P (halloc (ArrayObj es'))
     (\<lambda>e h. tmp_at n t ia oa rs es X h \<and>
        those (map (read_out h) es') = Some os' \<and> at h e (ArrayObj es') \<and> n \<le> e \<and> e \<noteq> ia)"
  proof (rule total_halloc)
    fix h :: heap assume n: "n \<le> length h" and p: "?P h"
    from p have "ia < length h"
      by (simp add: tmp_at_def at_def)
    moreover from p have "those (map (read_out (h @ [ArrayObj es'])) es') = Some os'"
      by (auto intro: those_map_mono [where f = "read_out h"] read_out_append)
    ultimately show "tmp_at n t ia oa rs es X (h @ [ArrayObj es']) \<and>
        those (map (read_out (h @ [ArrayObj es'])) es') = Some os' \<and>
        at (h @ [ArrayObj es']) (length h) (ArrayObj es') \<and> n \<le> length h \<and> length h \<noteq> ia"
      using n p by (simp add: tmp_at_append at_def)
  qed
next
  fix e
  let ?R = "\<lambda>h. tmp_at n t ia oa rs es X h \<and>
        those (map (read_out h) es') = Some os' \<and> at h e (ArrayObj es') \<and> n \<le> e \<and> e \<noteq> ia"
  show "total n ?R (setOuts t e) (\<lambda>_ h. \<exists>e. tmp_at n t ia e rs es' (X\<lparr>outs := os'\<rparr>) h)"
    unfolding setOuts_def
  proof (rule total_getTx [where P = ?R], erule conjunct1 [THEN tmp_at_tx], simp only: prod.case,
      rule total_assume [where C = "n \<le> t"])
    show "n \<le> t" if "?R h" for h
      using that by (simp add: tmp_at_def)
  next
    assume "n \<le> t"
    then show "total n ?R (hstore t (TxObj (version X) (locktime X) ia e))
        (\<lambda>_ h. \<exists>e. tmp_at n t ia e rs es' (X\<lparr>outs := os'\<rparr>) h)"
    proof (rule total_hstore)
      fix h assume p: "?R h"
      then have l: "t < length h"
        by (simp add: tmp_at_def at_def)
      from p have q: "tmp_at n t ia oa rs es X h" "at h e (ArrayObj es')" "n \<le> e" "e \<noteq> ia"
        "those (map (read_out h) es') = Some os'"
        by simp_all
      have "tmp_at n t ia e rs es' (X\<lparr>outs := os'\<rparr>) (h[t := TxObj (version X) (locktime X) ia e])"
        using q by (rule tmp_at_set_outs)
      with l show "t < length h \<and>
          (\<exists>e'. tmp_at n t ia e' rs es' (X\<lparr>outs := os'\<rparr>) (h[t := TxObj (version X) (locktime X) ia e]))"
        by blast
    qed
  qed
qed

lemma total_ex1:
  assumes "\<And>a. total n (P a) m Q"
  shows "total n (\<lambda>h. \<exists>a. P a h) m Q"
  using assms unfolding total_def by blast

lemma total_hbind2:
  assumes mf: "total n P (hbind m f) R" and g: "\<And>x y. total n (R y) (g x y) Q"
  shows "total n P (hbind m (\<lambda>x. hbind (f x) (g x))) Q"
proof (rule totalI)
  fix h assume n: "n \<le> length h" and P: "P h"
  from totalD [OF mf n P] obtain y h1 where 1: "hbind m f h = (Inr y, h1)" "ext n h h1" "R y h1"
    by blast
  from 1(1) obtain x h' where 2: "m h = (Inr x, h')" "f x h' = (Inr y, h1)"
    by (auto simp add: hbind_def split: prod.splits sum.splits)
  from 1(2) n have n1: "n \<le> length h1"
    by (simp add: ext_def)
  from totalD [OF g n1 1(3)] obtain z h2 where 3: "g x y h1 = (Inr z, h2)" "ext n h1 h2" "Q z h2"
    by blast
  from 2 3(1) have "hbind m (\<lambda>x. hbind (f x) (g x)) h = (Inr z, h2)"
    by (simp add: hbind_def)
  moreover from 1(2) 3(2) have "ext n h h2"
    by (rule ext_trans)
  ultimately show "\<exists>x h'. hbind m (\<lambda>x. hbind (f x) (g x)) h = (Inr x, h') \<and> ext n h h' \<and> Q x h'"
    using 3(3) by blast
qed

lemma read_tx_Some:
  assumes "read_tx h t = Some T"
  obtains ia oa rs es where "at h t (TxObj (version T) (locktime T) ia oa)"
    "at h ia (ArrayObj rs)" "at h oa (ArrayObj es)"
    "those (map (read_in h) rs) = Some (ins T)" "those (map (read_out h) es) = Some (outs T)"
proof -
  from assms have "\<exists>ia oa rs es. at h t (TxObj (version T) (locktime T) ia oa) \<and>
    at h ia (ArrayObj rs) \<and> at h oa (ArrayObj es) \<and>
    those (map (read_in h) rs) = Some (ins T) \<and> those (map (read_out h) es) = Some (outs T)"
    by (auto simp add: read_tx_def read_array_def at_def
        split: if_splits obj.splits option.splits)
  with that show thesis
    by blast
qed

lemma tmp_at_read_tx: "tmp_at n t ia oa rs es X h \<Longrightarrow> read_tx h t = Some X"
  by (auto simp add: tmp_at_def read_tx_def read_array_def at_def)

lemma txin_eta:
  "\<lparr>in_hash = in_hash x, in_index = in_index x, in_script = in_script x,
    in_sequence = in_sequence x, in_witness = in_witness x\<rparr> = x"
  by (cases x) simp

lemma clone_eq:
  "new_Transaction\<lparr>version := version T, locktime := locktime T, ins := ins T,
      outs := map (\<lambda>v. \<lparr>out_script = out_script v, out_value = out_value v,
                           out_valueBuffer = None\<rparr>) (outs T)\<rparr> = clone T"
  by (simp add: clone_def new_Transaction_def txin_eta)

lemma total_clone:
  assumes T: "read_tx h0 this = Some T"
  shows "total (length h0) (old h0) (clone_heap this)
     (\<lambda>t h. \<exists>ia oa rs es. tmp_at (length h0) t ia oa rs es (clone T) h \<and> old h0 h)"
proof -
  let ?n = "length h0"
  let ?strip = "\<lambda>v. \<lparr>out_script = out_script v, out_value = out_value v, out_valueBuffer = None\<rparr>"
  from T obtain ti to irs ors where
    orig: "at h0 this (TxObj (version T) (locktime T) ti to)"
    and ti: "at h0 ti (ArrayObj irs)" and to: "at h0 to (ArrayObj ors)"
    and irs: "those (map (read_in h0) irs) = Some (ins T)"
    and ors: "those (map (read_out h0) ors) = Some (outs T)"
    by (rule read_tx_Some)
  let ?X1 = "new_Transaction\<lparr>version := version T\<rparr>"
  let ?X2 = "?X1\<lparr>locktime := locktime T\<rparr>"
  let ?X3 = "?X2\<lparr>ins := ins T\<rparr>"
  let ?X4 = "?X3\<lparr>outs := map ?strip (outs T)\<rparr>"
  let ?I = "\<lambda>t ia oa rs es X h. tmp_at ?n t ia oa rs es X h \<and> old h0 h"
  have a_this: "at h this (TxObj (version T) (locktime T) ti to)"
    and a_ti: "at h ti (ArrayObj irs)" and a_to: "at h to (ArrayObj ors)"
    if "?I t ia oa rs es X h" for t ia oa rs es X h
    using that orig ti to by (auto intro: old_at)
  have setV: "total ?n (?I t ia oa [] [] new_Transaction) (setVersion t (version T))
      (\<lambda>_. ?I t ia oa [] [] ?X1)" for t ia oa
    by (rule total_old [OF total_setVersion])
  have setL: "total ?n (?I t ia oa [] [] ?X1) (setLocktime t (locktime T))
      (\<lambda>_. ?I t ia oa [] [] ?X2)" for t ia oa
    by (rule total_old [OF total_setLocktime])
  have copyIns: "total ?n (?I t ia oa [] [] ?X2)
      (mapM (\<lambda>txIn. hbind (getIn txIn) (\<lambda>(h, i, s, q, w). halloc (InObj h i s q w))) irs)
      (\<lambda>ys h. (tmp_at ?n t ia oa [] [] ?X2 h \<and> (\<forall>r\<in>set ys. ?n \<le> r) \<and> distinct ys \<and>
          those (map (read_in h) ys) = Some (ins T)) \<and> old h0 h)" for t ia oa
  proof (rule total_weaken [OF total_mapM [where R = "same_in h0" and m = ?n
          and J = "tmp_at ?n t ia oa [] [] ?X2" and ?h0.0 = h0]])
    fix x J m assume x: "x \<in> set irs" and J: "\<And>(h :: heap) z. J h \<Longrightarrow> J (h @ [z])"
    from irs x obtain v where "read_in h0 x = Some v"
      unfolding those_map_Some_iff by (metis in_set_conv_nth)
    then show "total ?n (\<lambda>h. old h0 h \<and> J h \<and> m \<le> length h)
        (hbind (getIn x) (\<lambda>(h, i, s, q, w). halloc (InObj h i s q w)))
        (\<lambda>y h. old h0 h \<and> J h \<and> m \<le> y \<and> y + 1 \<le> length h \<and> same_in h0 x y h)"
      using J by (rule total_copyIn)
  next
    show "same_in h0 x y (h @ [z])" if "same_in h0 x y h" for x y h z
      using that by (rule same_in_snoc)
  next
    show "tmp_at ?n t ia oa [] [] ?X2 (h @ [z])" if "tmp_at ?n t ia oa [] [] ?X2 h" for h z
      using that by (rule tmp_at_append)
  next
    show "old h0 h \<and> tmp_at ?n t ia oa [] [] ?X2 h \<and> ?n \<le> length h" if "?I t ia oa [] [] ?X2 h" for h
      using that by (simp add: old_def)
  next
    fix ys h
    assume a: "old h0 h \<and> tmp_at ?n t ia oa [] [] ?X2 h \<and> ?n \<le> length h \<and> length ys = length irs \<and>
        (\<forall>r\<in>set ys. ?n \<le> r \<and> r < length h) \<and> distinct ys \<and>
        (\<forall>j<length irs. same_in h0 (irs ! j) (ys ! j) h)"
    have "read_in h (ys ! j) = Some (ins T ! j)" if "j < length ys" for j
    proof -
      from a that have "same_in h0 (irs ! j) (ys ! j) h" and "j < length irs"
        by simp_all
      moreover from irs \<open>j < length irs\<close> have "read_in h0 (irs ! j) = Some (ins T ! j)"
        unfolding those_map_Some_iff by simp
      ultimately show ?thesis
        by (simp add: same_in_def)
    qed
    moreover from irs a have "length (ins T) = length ys"
      unfolding those_map_Some_iff by simp
    ultimately have "those (map (read_in h) ys) = Some (ins T)"
      unfolding those_map_Some_iff by simp
    with a show "(tmp_at ?n t ia oa [] [] ?X2 h \<and> (\<forall>r\<in>set ys. ?n \<le> r) \<and> distinct ys \<and>
          those (map (read_in h) ys) = Some (ins T)) \<and> old h0 h"
      by simp
  qed
  have newIns: "total ?n (\<lambda>h. (tmp_at ?n t ia oa [] [] ?X2 h \<and> (\<forall>r\<in>set ys. ?n \<le> r) \<and> distinct ys \<and>
          those (map (read_in h) ys) = Some (ins T)) \<and> old h0 h)
      (hbind (halloc (ArrayObj ys)) (\<lambda>s. setIns t s))
      (\<lambda>_ h. (\<exists>s. tmp_at ?n t s oa ys [] ?X3 h) \<and> old h0 h)" for t ia oa ys
    by (rule total_old [OF total_allocIns])
  have copyOuts: "total ?n (?I t s oa ys [] ?X3)
      (mapM (\<lambda>txOut. hbind (getOut txOut) (\<lambda>out.
              halloc (OutObj \<lparr>out_script = out_script out, out_value = out_value out,
                               out_valueBuffer = None\<rparr>))) ors)
      (\<lambda>zs h. (tmp_at ?n t s oa ys [] ?X3 h \<and>
          those (map (read_out h) zs) = Some (map ?strip (outs T))) \<and> old h0 h)" for t s oa ys
  proof (rule total_weaken [OF total_mapM [where R = "same_out h0" and m = ?n
          and J = "tmp_at ?n t s oa ys [] ?X3" and ?h0.0 = h0]])
    fix x J m assume x: "x \<in> set ors" and J: "\<And>(h :: heap) z. J h \<Longrightarrow> J (h @ [z])"
    from ors x obtain v where "read_out h0 x = Some v"
      unfolding those_map_Some_iff by (metis in_set_conv_nth)
    then show "total ?n (\<lambda>h. old h0 h \<and> J h \<and> m \<le> length h)
        (hbind (getOut x) (\<lambda>out.
              halloc (OutObj \<lparr>out_script = out_script out, out_value = out_value out,
                               out_valueBuffer = None\<rparr>)))
        (\<lambda>y h. old h0 h \<and> J h \<and> m \<le> y \<and> y + 1 \<le> length h \<and> same_out h0 x y h)"
      using J by (rule total_copyOut)
  next
    show "same_out h0 x y (h @ [z])" if "same_out h0 x y h" for x y h z
      using that by (rule same_out_snoc)
  next
    show "tmp_at ?n t s oa ys [] ?X3 (h @ [z])" if "tmp_at ?n t s oa ys [] ?X3 h" for h z
      using that by (rule tmp_at_append)
  next
    show "old h0 h \<and> tmp_at ?n t s oa ys [] ?X3 h \<and> ?n \<le> length h" if "?I t s oa ys [] ?X3 h" for h
      using that by (simp add: old_def)
  next
    fix zs h
    assume a: "old h0 h \<and> tmp_at ?n t s oa ys [] ?X3 h \<and> ?n \<le> length h \<and> length zs = length ors \<and>
        (\<forall>r\<in>set zs. ?n \<le> r \<and> r < length h) \<and> distinct zs \<and>
        (\<forall>j<length ors. same_out h0 (ors ! j) (zs ! j) h)"
    have "read_out h (zs ! j) = Some (map ?strip (outs T) ! j)" if "j < length zs" for j
    proof -
      from a that have "same_out h0 (ors ! j) (zs ! j) h" and j: "j < length ors"
        by simp_all
      moreover from ors j have "read_out h0 (ors ! j) = Some (outs T ! j)" "j < length (outs T)"
        unfolding those_map_Some_iff by simp_all
      ultimately show ?thesis
        by (simp add: same_out_def)
    qed
    moreover from ors a have "length (map ?strip (outs T)) = length zs"
      unfolding those_map_Some_iff by simp
    ultimately have "those (map (read_out h) zs) = Some (map ?strip (outs T))"
      unfolding those_map_Some_iff by blast
    with a show "(tmp_at ?n t s oa ys [] ?X3 h \<and>
          those (map (read_out h) zs) = Some (map ?strip (outs T))) \<and> old h0 h"
      by simp
  qed
  have newOuts: "total ?n (\<lambda>h. (tmp_at ?n t s oa ys [] ?X3 h \<and>
          those (map (read_out h) zs) = Some (map ?strip (outs T))) \<and> old h0 h)
      (hbind (halloc (ArrayObj zs)) (\<lambda>e. setOuts t e))
      (\<lambda>_ h. (\<exists>e. tmp_at ?n t s e ys zs ?X4 h) \<and> old h0 h)" for t s oa ys zs
    by (rule total_old [OF total_allocOuts])
  have X4: "?X4 = clone T"
    using clone_eq [of T] by simp
  show ?thesis
    unfolding clone_heap_def
  proof (rule total_hbind [OF total_new_Transaction [where n = ?n]], rule total_ex2)
    fix t ia oa
    let ?Q = "\<lambda>t h. \<exists>ia oa rs es. tmp_at ?n t ia oa rs es (clone T) h \<and> old h0 h"
    have rest: "total ?n (\<lambda>h. (\<exists>s. tmp_at ?n t s oa ys [] ?X3 h) \<and> old h0 h)
        (hbind (getTx this) (\<lambda>(_, _, _, thisOuts).
         hbind (getArray thisOuts) (\<lambda>txOuts.
         hbind (mapM (\<lambda>txOut. hbind (getOut txOut) (\<lambda>out.
              halloc (OutObj \<lparr>out_script = out_script out, out_value = out_value out,
                               out_valueBuffer = None\<rparr>))) txOuts) (\<lambda>newOuts.
         hbind (halloc (ArrayObj newOuts)) (\<lambda>outsArray.
         hbind (setOuts t outsArray) (\<lambda>_.
         hret t)))))) ?Q" for ys
    proof (rule total_pre [where P' = "\<lambda>h. \<exists>s. ?I t s oa ys [] ?X3 h"], rule total_ex1)
      fix s
      show "total ?n (?I t s oa ys [] ?X3)
        (hbind (getTx this) (\<lambda>(_, _, _, thisOuts).
         hbind (getArray thisOuts) (\<lambda>txOuts.
         hbind (mapM (\<lambda>txOut. hbind (getOut txOut) (\<lambda>out.
              halloc (OutObj \<lparr>out_script = out_script out, out_value = out_value out,
                               out_valueBuffer = None\<rparr>))) txOuts) (\<lambda>newOuts.
         hbind (halloc (ArrayObj newOuts)) (\<lambda>outsArray.
         hbind (setOuts t outsArray) (\<lambda>_.
         hret t)))))) ?Q"
      proof (rule total_getTx [where P = "?I t s oa ys [] ?X3"], erule a_this, simp only: prod.case,
          rule total_getArray [where P = "?I t s oa ys [] ?X3"], erule a_to,
          rule total_hbind [OF copyOuts], rule total_hbind2 [OF newOuts], rule total_hret)
        fix zs h
        assume "(\<exists>e. tmp_at ?n t s e ys zs ?X4 h) \<and> old h0 h"
        then show "\<exists>ia oa rs es. tmp_at ?n t ia oa rs es (clone T) h \<and> old h0 h"
          unfolding X4 by blast
      qed
    next
      show "\<exists>s. ?I t s oa ys [] ?X3 h" if "(\<exists>s. tmp_at ?n t s oa ys [] ?X3 h) \<and> old h0 h" for h
        using that by blast
    qed
    show "total ?n (?I t ia oa [] [] new_Transaction)
        (hbind (getTx this) (\<lambda>(v, _, _, _).
         hbind (setVersion t v) (\<lambda>_.
         hbind (getTx this) (\<lambda>(_, l, _, _).
         hbind (setLocktime t l) (\<lambda>_.
         hbind (getTx this) (\<lambda>(_, _, thisIns, _).
         hbind (getArray thisIns) (\<lambda>txIns.
         hbind (mapM (\<lambda>txIn. hbind (getIn txIn) (\<lambda>(h, i, s, q, w). halloc (InObj h i s q w))) txIns) (\<lambda>newIns.
         hbind (halloc (ArrayObj newIns)) (\<lambda>insArray.
         hbind (setIns t insArray) (\<lambda>_.
         hbind (getTx this) (\<lambda>(_, _, _, thisOuts).
         hbind (getArray thisOuts) (\<lambda>txOuts.
         hbind (mapM (\<lambda>txOut. hbind (getOut txOut) (\<lambda>out.
              halloc (OutObj \<lparr>out_script = out_script out, out_value = out_value out,
                               out_valueBuffer = None\<rparr>))) txOuts) (\<lambda>newOuts.
         hbind (halloc (ArrayObj newOuts)) (\<lambda>outsArray.
         hbind (setOuts t outsArray) (\<lambda>_.
         hret t))))))))))))))) ?Q"
      by (rule total_getTx [where P = "?I t ia oa [] [] new_Transaction"], erule a_this,
          simp only: prod.case, rule total_hbind [OF setV],
          rule total_getTx [where P = "?I t ia oa [] [] ?X1"], erule a_this,
          simp only: prod.case, rule total_hbind [OF setL],
          rule total_getTx [where P = "?I t ia oa [] [] ?X2"], erule a_this,
          simp only: prod.case,
          rule total_getArray [where P = "?I t ia oa [] [] ?X2"], erule a_ti,
          rule total_hbind [OF copyIns], rule total_hbind2 [OF newIns], rule rest)
  qed
qed

subsection \<open>The digest\<close>

lemma txTmp_unfold:
  assumes "\<not> inIndex \<ge> length (ins T)" and "nOut = length (outs T)"
    and "ourScript decompile compile prevOutScript = Inr script"
  shows "hashForSignature_txTmp decompile compile T inIndex prevOutScript hashType =
        (case (if hashType AND 0x1f = SIGHASH_NONE then
                 Some ((clone T)\<lparr>outs := [], ins := ignoreSequences inIndex (ins (clone T))\<rparr>)
               else if hashType AND 0x1f = SIGHASH_SINGLE then
                 (if inIndex \<ge> nOut then None
                  else Some ((clone T)\<lparr>outs := foldl (\<lambda>os i. os[i := BLANK_OUTPUT])
                                          (take (inIndex + 1) (outs (clone T))) [0..<inIndex],
                               ins := ignoreSequences inIndex (ins (clone T))\<rparr>))
               else Some (clone T)) of None \<Rightarrow> Inr None
         | Some X' \<Rightarrow> Inr (Some (if hashType AND SIGHASH_ANYONECANPAY \<noteq> 0 then
           X'\<lparr>ins := [(ins X' ! inIndex)\<lparr>in_script := script\<rparr>]\<rparr>
         else
           let blanked = map (\<lambda>input. input\<lparr>in_script := EMPTY_SCRIPT\<rparr>) (ins X')
           in X'\<lparr>ins := blanked[inIndex := (blanked ! inIndex)\<lparr>in_script := script\<rparr>]\<rparr>)))"
  unfolding hashForSignature_txTmp_def Let_def assms(3) using assms(1,2)
  by (simp only: if_False sum.case split: option.splits if_splits) simp

lemma total_run:
  "total n P m Q \<Longrightarrow> n \<le> length h \<Longrightarrow> P h \<Longrightarrow> \<exists>x h'. m h = (Inr x, h') \<and> ext n h h' \<and> Q x h'"
  unfolding total_def by blast

lemma getTx_at: "at h r (TxObj v l i a) \<Longrightarrow> getTx r h = (Inr (v, l, i, a), h)"
  by (simp add: getTx_def hbind_def hload_def hret_def at_def)

lemma getArray_at: "at h r (ArrayObj rs) \<Longrightarrow> getArray r h = (Inr rs, h)"
  by (simp add: getArray_def hbind_def hload_def hret_def at_def)

lemma old_refl: "old h h"
  by (simp add: old_def)

lemma hbind_Inr: "m h = (Inr x, h') \<Longrightarrow> hbind m f h = f x h'"
  by (simp add: hbind_def)

text \<open>
  On a heap where \<open>this\<close> reads as the transaction \<open>T\<close> and \<open>blank\<close> is the shared
  \<open>BLANK_OUTPUT\<close>, the program on the heap returns what \<open>hashForSignature\<close> returns on
  the value \<open>T\<close>: the same digest, the same \<open>ONE\<close>, or the same error, of the script
  that does not decompile, of the hash type out of range or of the serialisation.
\<close>

theorem hashForSignature_heap_refines:
  assumes T: "read_tx h this = Some T" and blank: "at h blank (OutObj BLANK_OUTPUT)"
  shows "fst (hashForSignature_heap hash256 decompile compile blank this inIndex prevOutScript
            hashType h) =
         hashForSignature hash256 decompile compile T inIndex prevOutScript hashType"
proof -
  let ?n = "length h"
  from T obtain ti to irs ors where
    orig: "at h this (TxObj (version T) (locktime T) ti to)"
    and ti: "at h ti (ArrayObj irs)" and to: "at h to (ArrayObj ors)"
    and irs: "those (map (read_in h) irs) = Some (ins T)"
    and ors: "those (map (read_out h) ors) = Some (outs T)"
    by (rule read_tx_Some)
  from irs ors have len: "length irs = length (ins T)" "length ors = length (outs T)"
    unfolding those_map_Some_iff by simp_all
  have g1: "getTx this h = (Inr (version T, locktime T, ti, to), h)"
    by (rule getTx_at [OF orig])
  have g2: "getArray ti h = (Inr irs, h)"
    by (rule getArray_at [OF ti])
  show ?thesis
  proof (cases "inIndex \<ge> length (ins T)")
    case True
    with len have "hashForSignature_heap hash256 decompile compile blank this inIndex prevOutScript
        hashType h = (Inr ONE, h)"
      unfolding hashForSignature_heap_def
      by (simp add: hbind_Inr [where m = "getTx this", OF g1] hbind_Inr [where m = "getArray ti", OF g2] hret_def)
    with True show ?thesis
      by (simp add: hashForSignature_def hashForSignature_txTmp_def)
  next
    case False
    show ?thesis
    proof (cases "ourScript decompile compile prevOutScript")
      case (Inl e)
      with False len have "hashForSignature_heap hash256 decompile compile blank this inIndex
          prevOutScript hashType h = (Inl e, h)"
        unfolding hashForSignature_heap_def
        by (simp add: hbind_Inr [where m = "getTx this", OF g1]
            hbind_Inr [where m = "getArray ti", OF g2] hfail_def)
      with False Inl show ?thesis
        by (simp add: hashForSignature_def hashForSignature_txTmp_def)
    next
      case (Inr script)
        let ?X = "clone T"
        let ?AO = "if hashType AND 0x1f = SIGHASH_NONE then
                     Some (?X\<lparr>outs := [], ins := ignoreSequences inIndex (ins ?X)\<rparr>)
                   else if hashType AND 0x1f = SIGHASH_SINGLE then
                     (if inIndex \<ge> length ors then None
                      else Some (?X\<lparr>outs := foldl (\<lambda>os i. os[i := BLANK_OUTPUT])
                                              (take (inIndex + 1) (outs ?X)) [0..<inIndex],
                                   ins := ignoreSequences inIndex (ins ?X)\<rparr>))
                   else Some ?X"
        let ?IR = "\<lambda>X. if hashType AND SIGHASH_ANYONECANPAY \<noteq> 0 then
               X\<lparr>ins := [(ins X ! inIndex)\<lparr>in_script := script\<rparr>]\<rparr>
             else
               let blanked = map (\<lambda>input. input\<lparr>in_script := EMPTY_SCRIPT\<rparr>) (ins X)
               in X\<lparr>ins := blanked[inIndex := (blanked ! inIndex)\<lparr>in_script := script\<rparr>]\<rparr>"
        define AO where "AO = ?AO"
        define IR :: "transaction \<Rightarrow> transaction" where "IR = ?IR"
        have pure: "hashForSignature_txTmp decompile compile T inIndex prevOutScript hashType =
            (case AO of None \<Rightarrow> Inr None | Some X' \<Rightarrow> Inr (Some (IR X')))"
          unfolding AO_def IR_def by (rule txTmp_unfold [OF False len(2) Inr])
        have "\<exists>t h1. clone_heap this h = (Inr t, h1) \<and> ext ?n h h1 \<and>
            (\<exists>ia oa rs es. tmp_at ?n t ia oa rs es ?X h1 \<and> old h h1)"
          by (rule total_run [OF total_clone [OF T] order_refl old_refl])
        then show ?thesis
        proof (elim exE conjE)
          fix t h1 ia oa rs es
          assume c: "clone_heap this h = (Inr t, h1)"
            and inv1: "tmp_at ?n t ia oa rs es ?X h1" and o1: "old h h1"
          from inv1 have "length (ins ?X) = length rs"
            by (rule tmp_at_length)
          then have lrs: "length rs = length (ins T)"
            by (simp add: clone_def)
          from o1 have n1: "?n \<le> length h1"
            by (simp add: old_def)
          have orule: "total ?n (\<lambda>h'. tmp_at ?n t ia oa rs es ?X h' \<and> old h h')
              (outputRule_heap blank this t inIndex hashType)
              (\<lambda>proceed h'. old h h' \<and>
                 (case AO of None \<Rightarrow> \<not> proceed
                  | Some X' \<Rightarrow> proceed \<and> (\<exists>oa' es'. tmp_at ?n t ia oa' rs es' X' h')))"
            unfolding AO_def by (rule total_outputRule [OF orig to blank])
          from inv1 o1 have pre1: "tmp_at ?n t ia oa rs es ?X h1 \<and> old h h1"
            by (rule conjI)
          have "\<exists>p h2. outputRule_heap blank this t inIndex hashType h1 = (Inr p, h2) \<and> ext ?n h1 h2 \<and>
              (old h h2 \<and> (case AO of None \<Rightarrow> \<not> p
                  | Some X' \<Rightarrow> p \<and> (\<exists>oa' es'. tmp_at ?n t ia oa' rs es' X' h2)))"
            by (rule total_run [OF orule n1 pre1])
          then show ?thesis
          proof (elim exE conjE)
            fix p h2
            assume r: "outputRule_heap blank this t inIndex hashType h1 = (Inr p, h2)"
              and e2: "ext ?n h1 h2"
              and r': "case AO of None \<Rightarrow> \<not> p
                  | Some X' \<Rightarrow> p \<and> (\<exists>oa' es'. tmp_at ?n t ia oa' rs es' X' h2)"
            from e2 n1 have n2: "?n \<le> length h2"
              by (simp add: ext_def)
            have start: "hashForSignature_heap hash256 decompile compile blank this inIndex
                prevOutScript hashType h =
                (if \<not> p then (Inr ONE, h2)
                 else hbind (inputRule_heap t inIndex script hashType)
                        (\<lambda>_. serialize_heap hash256 t hashType) h2)"
              unfolding hashForSignature_heap_def
              using False len(1)
              by (simp add: Inr hbind_Inr [where m = "getTx this", OF g1]
                  hbind_Inr [where m = "getArray ti", OF g2]
                  hbind_Inr [where m = "clone_heap this", OF c]
                  hbind_Inr [where m = "outputRule_heap blank this t inIndex hashType", OF r]
                  hret_def)
            show ?thesis
            proof (cases AO)
              case None
              with r' have "\<not> p"
                by simp
              with start have "fst (hashForSignature_heap hash256 decompile compile blank this inIndex
                  prevOutScript hashType h) = Inr ONE"
                by simp
              moreover from pure None have "hashForSignature hash256 decompile compile T inIndex
                  prevOutScript hashType = Inr ONE"
                by (simp add: hashForSignature_def)
              ultimately show ?thesis
                by simp
            next
              case (Some X')
              with r' have p: p and "\<exists>oa' es'. tmp_at ?n t ia oa' rs es' X' h2"
                by simp_all
              then obtain oa' es' where inv2: "tmp_at ?n t ia oa' rs es' X' h2"
                by (elim exE)
              from False lrs have k: "inIndex < length rs"
                by simp
              have irule: "total ?n (tmp_at ?n t ia oa' rs es' X')
                  (inputRule_heap t inIndex script hashType)
                  (\<lambda>_ h'. \<exists>ia' rs'. tmp_at ?n t ia' oa' rs' es' (IR X') h')"
                unfolding IR_def by (rule total_inputRule [OF k])
              have "\<exists>u h3. inputRule_heap t inIndex script hashType h2 = (Inr u, h3) \<and> ext ?n h2 h3 \<and>
                  (\<exists>ia' rs'. tmp_at ?n t ia' oa' rs' es' (IR X') h3)"
                by (rule total_run [OF irule n2 inv2])
              then show ?thesis
              proof (elim exE conjE)
                fix u h3 ia' rs'
                assume i: "inputRule_heap t inIndex script hashType h2 = (Inr u, h3)"
                  and inv3: "tmp_at ?n t ia' oa' rs' es' (IR X') h3"
                from inv3 have rd: "read_tx h3 t = Some (IR X')"
                  by (rule tmp_at_read_tx)
                from start p have "hashForSignature_heap hash256 decompile compile blank this inIndex
                    prevOutScript hashType h = serialize_heap hash256 t hashType h3"
                  by (simp add: hbind_Inr [where m = "inputRule_heap t inIndex script hashType", OF i])
                then have "fst (hashForSignature_heap hash256 decompile compile blank this inIndex
                    prevOutScript hashType h) =
                    (if 0x80000000 \<le> hashType then Inl RangeError
                     else
                       (case internal_toBuffer (IR X') False of
                          Inl e \<Rightarrow> Inl e
                        | Inr buffer \<Rightarrow> Inr (hash256 (buffer @ writeInt32LE hashType))))"
                  by (simp add: serialize_heap_def rd split: sum.splits)
                moreover from pure Some have "hashForSignature hash256 decompile compile T inIndex
                    prevOutScript hashType =
                    (if 0x80000000 \<le> hashType then Inl RangeError
                     else
                       (case internal_toBuffer (IR X') False of
                          Inl e \<Rightarrow> Inl e
                        | Inr buffer \<Rightarrow> Inr (hash256 (buffer @ writeInt32LE hashType))))"
                  by (simp add: hashForSignature_def)
                ultimately show ?thesis
                  by simp
              qed
            qed
          qed
        qed
    qed
  qed
qed

text \<open>
  The example heap meets the two hypotheses, so on it the two hashers agree for every input
  index, script and hash type.
\<close>

lemma hashForSignature_heap_refines_example:
  "fst (hashForSignature_heap hash256 decompile compile 0 10 inIndex prevOutScript hashType
          example_heap) =
   hashForSignature hash256 decompile compile example_tx inIndex prevOutScript hashType"
  by (rule hashForSignature_heap_refines [OF example_heap_tx])
    (simp add: at_def example_heap_def)

end
